(* ===== verification/Prelude.thy ===== *)
theory Prelude
  imports Main "HOL-Library.Word" "HOL-Library.AList" "HOL-Library.Char_ord"
    "HOL-Library.List_Lexorder" "HOL-Library.Multiset"
begin

text \<open>
  Shared vocabulary of the development: the machine integers of the Rust code, its checked and
  saturating operations, byte encodings, decimal printing, and concurrent hash maps as
  association lists with distinct keys.

  Integers keep their width. The workspace's release profile leaves \<open>overflow-checks\<close> off, so
  \<open>+\<close>, \<open>-\<close> and \<open>*\<close> wrap there as they do on words; \<open>fetch_add\<close> and \<open>fetch_sub\<close> wrap in
  every profile.  A \<open>DashMap\<close> or \<open>HashMap\<close> is an association list: the order of its entries
  stands for the map's unspecified iteration order, so every theorem about a map holds for
  every iteration order.
\<close>

section \<open>Machine integers\<close>

type_synonym u8 = "8 word"
type_synonym u16 = "16 word"
type_synonym u32 = "32 word"
type_synonym u64 = "64 word"
type_synonym u128 = "128 word"
type_synonym bytes = "8 word list"

named_theorems arith_ops
named_theorems amaps

definition sat_add :: "'a::len word \<Rightarrow> 'a word \<Rightarrow> 'a word" where
  "sat_add a b = (if unat a + unat b < 2 ^ LENGTH('a) then a + b else - 1)"

definition sat_sub :: "'a::len word \<Rightarrow> 'a word \<Rightarrow> 'a word" where
  "sat_sub a b = (if a < b then 0 else a - b)"

definition sat_mul :: "'a::len word \<Rightarrow> 'a word \<Rightarrow> 'a word" where
  "sat_mul a b = (if unat a * unat b < 2 ^ LENGTH('a) then a * b else - 1)"

definition checked_add :: "'a::len word \<Rightarrow> 'a word \<Rightarrow> 'a word option" where
  "checked_add a b = (if unat a + unat b < 2 ^ LENGTH('a) then Some (a + b) else None)"

lemma unat_max_word: "unat (- 1 :: 'a::len word) = 2 ^ LENGTH('a) - 1"
  by (simp add: unsigned_minus_1_eq_mask mask_eq_exp_minus_1)

lemma unat_add_no_wrap:
  "unat (a :: 'a::len word) + unat b < 2 ^ LENGTH('a) \<Longrightarrow> unat (a + b) = unat a + unat b"
  by (simp add: unat_word_ariths)

lemma unat_mult_no_wrap:
  "unat (a :: 'a::len word) * unat b < 2 ^ LENGTH('a) \<Longrightarrow> unat (a * b) = unat a * unat b"
  by (simp add: unat_word_ariths)

lemma unat_sub_no_wrap: "b \<le> a \<Longrightarrow> unat (a - b) = unat a - unat (b :: 'a::len word)"
  by (simp add: unat_sub word_le_nat_alt)

lemma unat_sat_add [arith_ops]:
  "unat (sat_add a (b :: 'a::len word)) = min (unat a + unat b) (2 ^ LENGTH('a) - 1)"
  by (auto simp: sat_add_def unat_add_no_wrap unat_max_word min_def)

lemma sat_add_0 [simp]: "sat_add 0 b = (b :: 'a::len word)" "sat_add b 0 = b"
  using unsigned_less [of b, where ?'a = nat] by (simp_all add: sat_add_def)

lemma unat_sat_sub [arith_ops]: "unat (sat_sub a (b :: 'a::len word)) = unat a - unat b"
  by (auto simp: sat_sub_def unat_sub_no_wrap word_less_nat_alt not_less word_le_nat_alt)

lemma unat_sat_mul [arith_ops]:
  "unat (sat_mul a (b :: 'a::len word)) = min (unat a * unat b) (2 ^ LENGTH('a) - 1)"
proof (cases "unat a * unat b < 2 ^ LENGTH('a)")
  case True
  then show ?thesis by (simp add: sat_mul_def unat_mult_no_wrap)
next
  case False
  then have "2 ^ LENGTH('a) - 1 \<le> unat a * unat b" by (meson diff_le_self le_trans not_less)
  with False show ?thesis by (simp only: sat_mul_def if_False unat_max_word min_absorb2)
qed

lemma checked_add_Some [arith_ops]:
  "checked_add a b = Some c \<longleftrightarrow> unat a + unat b < 2 ^ LENGTH('a) \<and> c = a + (b :: 'a::len word)"
  by (auto simp: checked_add_def)

lemma checked_add_None [arith_ops]:
  "checked_add a (b :: 'a::len word) = None \<longleftrightarrow> 2 ^ LENGTH('a) \<le> unat a + unat b"
  by (auto simp: checked_add_def)

lemma word_less_unat: "(a :: 'a::len word) < b \<longleftrightarrow> unat a < unat b"
  by (rule word_less_nat_alt)

lemma word_le_unat: "(a :: 'a::len word) \<le> b \<longleftrightarrow> unat a \<le> unat b"
  by (rule word_le_nat_alt)

lemma unat_u64_bound: "unat (x :: u64) < 18446744073709551616"
  using unsigned_less [of x] by simp

lemma unat_word_max: "unat (max a (b :: 'a::len word)) = max (unat a) (unat b)"
  by (auto simp: max_def word_le_unat)

lemma unat_word_min: "unat (min a (b :: 'a::len word)) = min (unat a) (unat b)"
  by (auto simp: min_def word_le_unat)

lemma unat_ucast_mod: "unat (ucast (w :: 'a::len word) :: 'b::len word) = unat w mod 2 ^ LENGTH('b)"
  by (simp add: unsigned_ucast_eq take_bit_eq_mod)

lemma min_add_min: "min (min a m + b) m = min (a + b) (m :: nat)"
  by (simp add: min_def)

section \<open>Byte encodings\<close>

text \<open>\<open>to_le_bytes\<close> of an integer of \<open>n\<close> bytes, and \<open>from_le_bytes\<close>.\<close>

definition le_bytes :: "nat \<Rightarrow> 'a::len word \<Rightarrow> bytes" where
  "le_bytes n w = map (\<lambda>i. ucast (drop_bit (8 * i) w)) [0..<n]"

definition be_bytes :: "nat \<Rightarrow> 'a::len word \<Rightarrow> bytes" where
  "be_bytes n w = rev (le_bytes n w)"

fun of_le_bytes :: "bytes \<Rightarrow> 'a::len word" where
  "of_le_bytes [] = 0"
| "of_le_bytes (b # bs) = ucast b + 256 * of_le_bytes bs"

lemma length_le_bytes [simp]: "length (le_bytes n w) = n"
  by (simp add: le_bytes_def)

lemma le_bytes_Nil [simp]: "le_bytes n w = [] \<longleftrightarrow> n = 0"
  by (simp add: le_bytes_def)

lemma length_be_bytes [simp]: "length (be_bytes n w) = n"
  by (simp add: be_bytes_def)

lemma le_bytes_nth_bit:
  fixes w :: "'a::len word"
  assumes "j < 8 * n"
  shows "bit (le_bytes n w ! (j div 8)) (j mod 8) \<longleftrightarrow> bit w j"
  using assms by (simp add: le_bytes_def bit_simps less_mult_imp_div_less)

lemma le_bytes_inj:
  fixes v w :: "'a::len word"
  assumes "LENGTH('a) \<le> 8 * n"
  shows "le_bytes n v = le_bytes n w \<longleftrightarrow> v = w"
proof
  assume eq: "le_bytes n v = le_bytes n w"
  show "v = w"
  proof (rule bit_word_eqI)
    fix j assume "j < LENGTH('a)"
    with assms have "j < 8 * n" by simp
    then show "bit v j \<longleftrightarrow> bit w j" using eq le_bytes_nth_bit by metis
  qed
qed simp

lemma be_bytes_inj:
  "LENGTH('a) \<le> 8 * n \<Longrightarrow> be_bytes n (v :: 'a::len word) = be_bytes n w \<longleftrightarrow> v = w"
  by (simp add: be_bytes_def le_bytes_inj)

lemma le_bytes_Suc: "le_bytes (Suc n) w = ucast w # le_bytes n (drop_bit 8 w)"
proof -
  have "[0..<Suc n] = 0 # map Suc [0..<n]"
    by (simp add: map_Suc_upt upt_conv_Cons del: upt_Suc)
  then show ?thesis by (simp add: le_bytes_def comp_def add.commute)
qed

lemma low_byte_split: "ucast (ucast w :: u8) + 256 * drop_bit 8 w = (w :: 'a::len word)"
proof -
  have *: "ucast (ucast w :: u8) = take_bit 8 w"
    by (rule bit_word_eqI) (auto simp: bit_simps)
  have "256 * drop_bit 8 w = push_bit 8 (drop_bit 8 w)"
    by (simp add: push_bit_eq_mult mult.commute)
  with * show ?thesis by (metis add.commute bits_ident)
qed

text \<open>Reading back what was written: every value survives its byte encoding.\<close>

lemma of_le_bytes_take_bit: "of_le_bytes (le_bytes n w) = take_bit (8 * n) (w :: 'a::len word)"
proof (induction n arbitrary: w)
  case 0
  show ?case by (simp add: le_bytes_def)
next
  case (Suc n)
  have "take_bit (8 * Suc n) w
      = ucast (ucast w :: u8) + 256 * take_bit (8 * n) (drop_bit 8 w)"
  proof -
    have "256 * take_bit (8 * n) (drop_bit 8 w) = push_bit 8 (take_bit (8 * n) (drop_bit 8 w))"
      by (simp add: push_bit_eq_mult mult.commute)
    moreover have "ucast (ucast w :: u8) = take_bit 8 w"
      by (rule bit_word_eqI) (auto simp: bit_simps)
    moreover have "take_bit 8 w + push_bit 8 (take_bit (8 * n) (drop_bit 8 w))
        = take_bit (8 * Suc n) w"
      using bits_ident [of 8 "take_bit (8 * Suc n) w"]
      by (simp add: drop_bit_take_bit take_bit_take_bit add.commute)
    ultimately show ?thesis by simp
  qed
  with Suc.IH [of "drop_bit 8 w"] show ?case by (simp add: le_bytes_Suc)
qed

lemma of_le_bytes_le_bytes [simp]:
  "LENGTH('a) \<le> 8 * n \<Longrightarrow> of_le_bytes (le_bytes n w) = (w :: 'a::len word)"
  by (simp add: of_le_bytes_take_bit take_bit_word_eq_self)

section \<open>Strings\<close>

text \<open>\<open>as_bytes\<close> of a string; a Rust \<open>String\<close> is its UTF-8 bytes.\<close>

definition string_bytes :: "string \<Rightarrow> bytes" where
  "string_bytes s = map of_char s"

lemma length_string_bytes [simp]: "length (string_bytes s) = length s"
  by (simp add: string_bytes_def)

lemma string_bytes_inj [simp]: "string_bytes s = string_bytes t \<longleftrightarrow> s = t"
proof
  have inj: "inj (of_char :: char \<Rightarrow> u8)"
  proof (rule injI)
    fix c d :: char
    assume "(of_char c :: u8) = of_char d"
    then have "(of_nat (of_char c) :: u8) = of_nat (of_char d)"
      by (simp only: of_nat_of_char)
    then have "(of_char c :: nat) mod 256 = of_char d mod 256"
      by (simp add: word_of_nat_eq_iff take_bit_eq_mod)
    then show "c = d" by simp
  qed
  assume "string_bytes s = string_bytes t"
  then show "s = t" by (simp add: string_bytes_def inj_map_eq_map [OF inj])
qed simp

lemma string_bytes_append [simp]: "string_bytes (s @ t) = string_bytes s @ string_bytes t"
  by (simp add: string_bytes_def)

lemma string_bytes_Cons [simp]: "string_bytes (c # s) = of_char c # string_bytes s"
  by (simp add: string_bytes_def)

lemma string_bytes_replicate [simp]: "string_bytes (replicate n c) = replicate n (of_char c)"
  by (simp add: string_bytes_def)

lemma string_bytes_Nil [simp]: "string_bytes s = [] \<longleftrightarrow> s = []"
  by (simp add: string_bytes_def)

definition byte_char :: "u8 \<Rightarrow> char" where
  "byte_char b = char_of (unat b)"

lemma of_char_byte_char [simp]: "(of_char (byte_char b) :: u8) = b"
proof -
  have "(of_char (byte_char b) :: u8) = of_nat (of_char (byte_char b))"
    by (simp only: of_nat_of_char)
  also have "of_char (byte_char b) = unat b"
    using unsigned_less [of b, where ?'a = nat] by (simp add: byte_char_def)
  finally show ?thesis by simp
qed

lemma byte_char_of_char [simp]: "byte_char (of_char c) = c"
proof -
  have "inj (of_char :: char \<Rightarrow> u8)"
    using string_bytes_inj [of "[_]" "[_]"] by (auto simp: string_bytes_def intro!: injI)
  moreover have "(of_char (byte_char (of_char c)) :: u8) = of_char c" by simp
  ultimately show ?thesis by (simp add: inj_def)
qed

lemma string_bytes_map [simp]: "string_bytes (map byte_char bs) = bs"
  by (simp add: string_bytes_def comp_def)

lemma map_byte_char_string_bytes [simp]: "map byte_char (string_bytes s) = s"
  by (simp add: string_bytes_def comp_def)

text \<open>Decimal digits, as \<open>format!\<close> prints an unsigned integer.\<close>

definition digit :: "nat \<Rightarrow> char" where
  "digit d = char_of (48 + d)"

fun show_nat :: "nat \<Rightarrow> string" where
  "show_nat n = (if n < 10 then [digit n] else show_nat (n div 10) @ [digit (n mod 10)])"

declare show_nat.simps [simp del]

definition show_word :: "'a::len word \<Rightarrow> string" where
  "show_word w = show_nat (unat w)"

section \<open>Concurrent hash maps\<close>

text \<open>A key's entry, or a default: \<open>get(k).map(..).unwrap_or(d)\<close>.\<close>

definition get_or :: "'v \<Rightarrow> ('k \<times> 'v) list \<Rightarrow> 'k \<Rightarrow> 'v" where
  "get_or d m k = (case map_of m k of None \<Rightarrow> d | Some v \<Rightarrow> v)"

abbreviation keys :: "('k \<times> 'v) list \<Rightarrow> 'k list" where
  "keys m \<equiv> map fst m"

text \<open>\<open>contains_key\<close>.\<close>

definition has_key :: "('k \<times> 'v) list \<Rightarrow> 'k \<Rightarrow> bool" where
  "has_key m k = (map_of m k \<noteq> None)"

lemma map_of_update [amaps]:
  "map_of (AList.update k v m) x = (if x = k then Some v else map_of m x)"
  by (simp add: AList.update_conv')

lemma map_of_del [amaps]:
  "map_of (AList.delete k m) x = (if x = k then None else map_of m x)"
  by (simp add: AList.delete_conv')

lemma map_of_entry [amaps]:
  "map_of (AList.map_entry k f m) x = (if x = k then map_option f (map_of m k) else map_of m x)"
  by (induction m) auto

lemma get_or_update [amaps]: "get_or d (AList.update k v m) x = (if x = k then v else get_or d m x)"
  by (simp add: get_or_def amaps)

lemma get_or_delete [amaps]: "get_or d (AList.delete k m) x = (if x = k then d else get_or d m x)"
  by (simp add: get_or_def amaps)

lemma get_or_Nil [simp]: "get_or d [] x = d"
  by (simp add: get_or_def)

lemma has_key_Nil [simp]: "\<not> has_key [] k"
  by (simp add: has_key_def)

lemma has_key_update [amaps]: "has_key (AList.update k v m) x \<longleftrightarrow> x = k \<or> has_key m x"
  by (simp add: has_key_def amaps)

lemma has_key_iff: "has_key m k \<longleftrightarrow> k \<in> set (keys m)"
  by (simp add: has_key_def map_of_eq_None_iff)

lemma distinct_keys_update [simp]:
  "distinct (keys m) \<Longrightarrow> distinct (keys (AList.update k v m))"
  by (rule AList.distinct_update)

lemma distinct_keys_delete [simp]:
  "distinct (keys m) \<Longrightarrow> distinct (keys (AList.delete k m))"
  by (rule AList.distinct_delete)

lemma keys_map_entry [simp]: "keys (AList.map_entry k f m) = keys m"
  by (induction m) auto

lemma length_map_entry [simp]: "length (AList.map_entry k f m) = length m"
  by (induction m) auto

lemma set_keys_update [simp]: "set (keys (AList.update k v m)) = insert k (set (keys m))"
  using AList.dom_update [of k v m] by simp

lemma set_keys_delete [simp]: "set (keys (AList.delete k m)) = set (keys m) - {k}"
  by (induction m) auto

lemma update_new: "map_of m k = None \<Longrightarrow> AList.update k v m = m @ [(k, v)]"
  by (induction m) (auto split: if_splits)

lemma length_update:
  "length (AList.update k v m) = (if has_key m k then length m else Suc (length m))"
  by (induction m) (auto simp: has_key_def)

lemma length_delete:
  "distinct (keys m) \<Longrightarrow>
    length (AList.delete k m) = (if has_key m k then length m - 1 else length m)"
proof (induction m)
  case (Cons p m)
  then show ?case
    by (cases p; cases m) (auto simp: has_key_iff)
qed (simp add: has_key_def)

section \<open>Sums over the values of a map\<close>

text \<open>\<open>iter().map(f).sum()\<close>; on words the sum wraps, on \<open>nat\<close> it is the true total.\<close>

definition vsum :: "('v \<Rightarrow> 'm::comm_monoid_add) \<Rightarrow> ('k \<times> 'v) list \<Rightarrow> 'm" where
  "vsum f m = sum_list (map (\<lambda>e. f (snd e)) m)"

definition val_or :: "('v \<Rightarrow> 'm::comm_monoid_add) \<Rightarrow> 'v option \<Rightarrow> 'm" where
  "val_or f o' = (case o' of None \<Rightarrow> 0 | Some v \<Rightarrow> f v)"

lemma vsum_simps [simp]: "vsum f [] = 0" "vsum f (p # m) = f (snd p) + vsum f m"
  by (simp_all add: vsum_def)

lemma val_or_simps [simp]: "val_or f None = 0" "val_or f (Some v) = f v"
  by (simp_all add: val_or_def)

lemma vsum_update:
  "vsum f (AList.update k v m) + val_or f (map_of m k) = vsum f m + f v"
proof (induction m)
  case (Cons p m)
  then show ?case by (cases p) (auto simp: ac_simps)
qed simp

lemma vsum_delete:
  "distinct (keys m) \<Longrightarrow> vsum f m = vsum f (AList.delete k m) + val_or f (map_of m k)"
proof (induction m)
  case (Cons p m)
  then show ?case
    by (cases p) (auto simp: ac_simps)
qed simp

lemma vsum_map_entry:
  "distinct (keys m) \<Longrightarrow>
    vsum f (AList.map_entry k g m) + val_or f (map_of m k) = vsum f m + val_or (\<lambda>v. f (g v)) (map_of m k)"
proof (induction m)
  case (Cons p m)
  have "k \<notin> set (keys m) \<Longrightarrow> AList.map_entry k g m = m"
    by (induction m) auto
  with Cons show ?case by (cases p) (auto simp: ac_simps)
qed simp

lemma vsum_update_group:
  "vsum f (AList.update k v m) = vsum f m + f v - (val_or f (map_of m k) :: 'm::ab_group_add)"
  using vsum_update [of f k v m] by (simp add: eq_diff_eq)

lemma vsum_member: "map_of m k = Some v \<Longrightarrow> f v \<le> (vsum f m :: nat)"
  by (induction m) (auto split: if_splits)

lemma vsum_unat: "of_nat (vsum (\<lambda>v. unat (f v)) m) = vsum (\<lambda>v. f v :: 'a::len word) m"
  by (induction m) simp_all

lemma vsum_mset: "mset m = mset m' \<Longrightarrow> vsum f m = vsum f m'"
  by (simp add: vsum_def flip: sum_mset_sum_list)

section \<open>Sorted iteration\<close>

text \<open>
  Sorting the entries of a map by key gives the same list for every iteration order of the
  map.  A \<open>BTreeMap\<close> is the list of its entries in key order.
\<close>

lemma sort_key_perm:
  assumes "mset xs = mset ys" and "distinct (map f xs)"
  shows "sort_key f xs = sort_key f ys"
proof (rule sort_key_inj_key_eq)
  show "mset xs = mset (sort_key f ys)" using assms by simp
  show "inj_on f (set xs)" using assms(2) by (simp add: distinct_map)
  show "sorted (map f (sort_key f ys))" by simp
qed

lemma distinct_keys_perm: "mset xs = mset ys \<Longrightarrow> distinct (keys xs) \<longleftrightarrow> distinct (keys ys)"
  by (metis distinct_count_atmost_1 mset_map set_mset_mset)

lemma map_of_perm:
  assumes "mset xs = mset ys" and "distinct (keys xs)"
  shows "map_of xs = map_of ys"
  using assms by (metis distinct_keys_perm map_of_inject_set mset_eq_setD)

fun bt_insert :: "'k::linorder \<Rightarrow> 'v \<Rightarrow> ('k \<times> 'v) list \<Rightarrow> ('k \<times> 'v) list" where
  "bt_insert k v [] = [(k, v)]"
| "bt_insert k v ((k', v') # m) =
     (if k < k' then (k, v) # (k', v') # m
      else if k = k' then (k, v) # m
      else (k', v') # bt_insert k v m)"

text \<open>\<open>collect()\<close> into a \<open>BTreeMap\<close>: the last binding of a key wins.\<close>

definition bt_collect :: "('k::linorder \<times> 'v) list \<Rightarrow> ('k \<times> 'v) list" where
  "bt_collect xs = foldl (\<lambda>m (k, v). bt_insert k v m) [] xs"

lemma map_of_bt_insert: "map_of (bt_insert k v m) = (map_of m)(k \<mapsto> v)"
  by (induction k v m rule: bt_insert.induct) auto

lemma set_keys_bt_insert: "set (keys (bt_insert k v m)) = insert k (set (keys m))"
  by (induction k v m rule: bt_insert.induct) auto

lemma sorted_bt_insert: "sorted_wrt (<) (keys m) \<Longrightarrow> sorted_wrt (<) (keys (bt_insert k v m))"
proof (induction k v m rule: bt_insert.induct)
  case (2 k v k' v' m)
  have "set (keys (bt_insert k v m)) = insert k (set (keys m))" by (rule set_keys_bt_insert)
  then have "y \<in> set (keys (bt_insert k v m)) \<longleftrightarrow> y = k \<or> y \<in> set (keys m)" for y by simp
  with 2 show ?case by (simp del: set_map) (metis less_linear order_less_trans)
qed simp

lemma bt_fold_map_of:
  "map_of (foldl (\<lambda>m (k, v). bt_insert k v m) m0 xs) = map_of m0 ++ map_of (rev xs)"
  by (induction xs arbitrary: m0) (auto simp: map_of_bt_insert map_add_def split: option.splits)

lemma sorted_bt_collect: "sorted_wrt (<) (keys (bt_collect xs))"
proof -
  have "sorted_wrt (<) (keys m0) \<Longrightarrow>
      sorted_wrt (<) (keys (foldl (\<lambda>m (k, v). bt_insert k v m) m0 xs))" for m0
    by (induction xs arbitrary: m0) (auto simp: sorted_bt_insert)
  then show ?thesis by (simp add: bt_collect_def)
qed

lemma map_of_bt_collect: "distinct (keys xs) \<Longrightarrow> map_of (bt_collect xs) = map_of xs"
proof -
  assume d: "distinct (keys xs)"
  then have "map_of (rev xs) = map_of xs" by (intro map_of_perm) (simp_all flip: rev_map)
  then show ?thesis by (simp add: bt_collect_def bt_fold_map_of)
qed

section \<open>Pools\<close>

text \<open>
  What the clients of a concurrent set rely on: membership after an insertion and after a
  removal.  The tips of the graph, the mempool and the rate limiter provide it.
\<close>

locale pool =
  fixes mem :: "'s \<Rightarrow> 'k \<Rightarrow> bool"
    and ins :: "'s \<Rightarrow> 'k \<Rightarrow> 's"
    and rem :: "'s \<Rightarrow> 'k \<Rightarrow> 's"
  assumes mem_ins: "mem (ins s k) x \<longleftrightarrow> x = k \<or> mem s x"
    and mem_rem: "mem (rem s k) x \<longleftrightarrow> x \<noteq> k \<and> mem s x"
begin

lemma mem_fold_rem: "mem (foldl rem s ks) x \<longleftrightarrow> x \<notin> set ks \<and> mem s x"
  by (induction ks arbitrary: s) (auto simp: mem_rem)

lemma mem_fold_ins: "mem (foldl ins s ks) x \<longleftrightarrow> x \<in> set ks \<or> mem s x"
  by (induction ks arbitrary: s) (auto simp: mem_ins)

lemma mem_replace: "mem (ins (foldl rem s ks) k) x \<longleftrightarrow> x = k \<or> x \<notin> set ks \<and> mem s x"
  by (simp add: mem_ins mem_fold_rem)

end

end
