(* ===== verification/Errors.thy ===== *)
theory Errors
  imports Prelude
begin

text \<open>
  The error values of \<open>relyo-core/src/error.rs\<close>.  A \<open>Result<T>\<close> is \<open>'a result\<close>, with
  \<open>Inl\<close> the error and \<open>Inr\<close> the value.  A function of the code that can panic returns
  \<open>'a option\<close> in the model, \<open>None\<close> being the panic.
\<close>

datatype relyo_error =
    Crypto string
  | InvalidSignature
  | BatchVerifyError nat nat
  | InvalidAddress string
  | InvalidTransaction string
  | InsufficientBalance u64 u64
  | DuplicateNonce u64
  | SupplyCapExceeded string
  | InvalidParent string
  | TransactionNotFound string
  | DoubleSpend string
  | Dag string
  | Consensus string
  | Network string
  | Storage string
  | Serialization string
  | RateLimitExceeded string
  | NodeNotFound string
  | Config string
  | Wallet string
  | GenesisExists
  | Timeout u64
  | Overflow string
  | MerkleError string
  | SnapshotError string
  | StakingError string
  | SlashingError string
  | FeeMarketError string
  | PowError string
  | CheckpointError string
  | ChannelClosed
  | PeerError string
  | SyncError string

type_synonym 'a result = "relyo_error + 'a"

definition is_ok :: "'a result \<Rightarrow> bool" where
  "is_ok r = (case r of Inl _ \<Rightarrow> False | Inr _ \<Rightarrow> True)"

lemma is_ok_simps [simp]: "\<not> is_ok (Inl e)" "is_ok (Inr v)"
  by (simp_all add: is_ok_def)

lemma is_ok_iff: "is_ok r \<longleftrightarrow> (\<exists>v. r = Inr v)"
  by (cases r) auto

lemma not_is_ok_iff: "\<not> is_ok r \<longleftrightarrow> (\<exists>e. r = Inl e)"
  by (cases r) auto

text \<open>The \<open>?\<close> operator on a state-free computation.\<close>

definition try_then :: "'a result \<Rightarrow> ('a \<Rightarrow> 'b result) \<Rightarrow> 'b result" where
  "try_then r k = (case r of Inl e \<Rightarrow> Inl e | Inr v \<Rightarrow> k v)"

lemma try_then_simps [simp]: "try_then (Inl e) k = Inl e" "try_then (Inr v) k = k v"
  by (simp_all add: try_then_def)

lemma try_then_Inr: "try_then r k = Inr w \<longleftrightarrow> (\<exists>v. r = Inr v \<and> k v = Inr w)"
  by (cases r) auto

end
