(* ===== verification/Keys.thy ===== *)
theory Keys
  imports Errors
begin

text \<open>
  \<open>relyo-core/src/crypto.rs\<close>: key and signature wrappers, child-key derivation, hashing and
  batch verification.

  The cryptography itself is in third-party crates (\<open>sha3\<close>, \<open>ed25519-dalek\<close>, \<open>bs58\<close>, \<open>hex\<close>), so
  it is a parameter: a record \<open>crypto\<close> of their functions, an argument of every definition
  that calls them.  \<open>crypto_ok\<close> collects the documented facts the code relies on.
\<close>

record crypto =
  sha3_digest :: "bytes \<Rightarrow> bytes"
  vk_error :: "bytes \<Rightarrow> string option"
  vk_verify :: "bytes \<Rightarrow> bytes \<Rightarrow> bytes \<Rightarrow> bool"
  sk_public :: "bytes \<Rightarrow> bytes"
  sk_sign :: "bytes \<Rightarrow> bytes \<Rightarrow> bytes"
  b58_encode :: "bytes \<Rightarrow> string"
  b58_decode :: "string \<Rightarrow> string + bytes"
  hex_encode :: "bytes \<Rightarrow> string"
  hex_decode :: "string \<Rightarrow> string + bytes"

definition crypto_ok :: "crypto \<Rightarrow> bool" where
  "crypto_ok C \<longleftrightarrow>
     (\<forall>d. length (sha3_digest C d) = 32) \<and>
     (\<forall>s. length (sk_public C s) = 32) \<and>
     (\<forall>s m. length (sk_sign C s m) = 64) \<and>
     (\<forall>s. vk_error C (sk_public C s) = None) \<and>
     (\<forall>s m. vk_verify C (sk_public C s) m (sk_sign C s m)) \<and>
     (\<forall>b. b58_decode C (b58_encode C b) = Inr b) \<and>
     (\<forall>t b. b58_decode C t = Inr b \<longrightarrow> b58_encode C b = t) \<and>
     (\<forall>b. hex_decode C (hex_encode C b) = Inr b)"

lemma crypto_okD:
  assumes "crypto_ok C"
  shows "length (sha3_digest C d) = 32" "length (sk_public C s) = 32"
    "length (sk_sign C s m) = 64" "vk_error C (sk_public C s) = None"
    "vk_verify C (sk_public C s) m (sk_sign C s m)"
    "b58_decode C (b58_encode C d) = Inr d" "hex_decode C (hex_encode C d) = Inr d"
  using assms by (simp_all add: crypto_ok_def)

lemma b58_canonical: "crypto_ok C \<Longrightarrow> b58_decode C t = Inr b \<Longrightarrow> b58_encode C b = t"
  by (simp add: crypto_ok_def)

lemma b58_encode_inj: "crypto_ok C \<Longrightarrow> b58_encode C a = b58_encode C b \<longleftrightarrow> a = b"
  by (metis crypto_okD(6) sum.inject(2))

section \<open>Wrappers\<close>

datatype public_key = PublicKey (pk_bytes: bytes)
datatype secret_key = SecretKey (sk_bytes: bytes)
datatype signature = Signature (sig_bytes: bytes)

record keypair =
  signing_key :: bytes
  kp_public_key :: public_key

definition sha3_256 :: "crypto \<Rightarrow> bytes \<Rightarrow> bytes" where
  "sha3_256 C data = sha3_digest C data"

definition sha3_256_multi :: "crypto \<Rightarrow> bytes list \<Rightarrow> bytes" where
  "sha3_256_multi C parts = sha3_digest C (concat parts)"

definition from_secret :: "crypto \<Rightarrow> secret_key \<Rightarrow> keypair" where
  "from_secret C secret =
     \<lparr>signing_key = sk_bytes secret, kp_public_key = PublicKey (sk_public C (sk_bytes secret))\<rparr>"

text \<open>\<open>KeyPair::generate\<close>; the seed is what the operating system's generator returned.\<close>

definition generate :: "crypto \<Rightarrow> bytes \<Rightarrow> keypair" where
  "generate C seed = \<lparr>signing_key = seed, kp_public_key = PublicKey (sk_public C seed)\<rparr>"

definition secret :: "keypair \<Rightarrow> secret_key" where
  "secret kp = SecretKey (signing_key kp)"

definition sign :: "crypto \<Rightarrow> keypair \<Rightarrow> bytes \<Rightarrow> signature" where
  "sign C kp message = Signature (sk_sign C (signing_key kp) message)"

definition derive_child_key :: "crypto \<Rightarrow> secret_key \<Rightarrow> u32 \<Rightarrow> secret_key" where
  "derive_child_key C parent index =
     SecretKey (sha3_256 C (sk_bytes parent @ be_bytes 4 index @ string_bytes ''relyo-derive''))"

definition derive_child :: "crypto \<Rightarrow> keypair \<Rightarrow> u32 \<Rightarrow> keypair" where
  "derive_child C kp index = from_secret C (derive_child_key C (secret kp) index)"

definition verify :: "crypto \<Rightarrow> public_key \<Rightarrow> bytes \<Rightarrow> signature \<Rightarrow> unit result" where
  "verify C pk message sig =
     (case vk_error C (pk_bytes pk) of
        Some e \<Rightarrow> Inl (Crypto e)
      | None \<Rightarrow>
          if vk_verify C (pk_bytes pk) message (sig_bytes sig) then Inr ()
          else Inl InvalidSignature)"

text \<open>\<open>batch_verify\<close>: every signature is checked, the invalid ones are counted.\<close>

definition batch_verify ::
    "crypto \<Rightarrow> bytes list \<Rightarrow> signature list \<Rightarrow> public_key list \<Rightarrow> unit result" where
  "batch_verify C messages signatures public_keys =
     (if length messages \<noteq> length signatures \<or> length messages \<noteq> length public_keys
      then Inl (BatchVerifyError 0 (length messages))
      else
        let invalid_count =
          foldl (\<lambda>n i.
            if \<not> is_ok (verify C (public_keys ! i) (messages ! i) (signatures ! i))
            then n + 1 else n) 0 [0..<length messages]
        in if 0 < invalid_count
           then Inl (BatchVerifyError invalid_count (length messages))
           else Inr ())"

section \<open>Facts\<close>

text \<open>A key pair is consistent when its public key belongs to its signing key.\<close>

definition keypair_ok :: "crypto \<Rightarrow> keypair \<Rightarrow> bool" where
  "keypair_ok C kp \<longleftrightarrow> kp_public_key kp = PublicKey (sk_public C (signing_key kp))"

lemma keypair_ok_intros [simp]:
  "keypair_ok C (from_secret C sk)" "keypair_ok C (generate C seed)"
  "keypair_ok C (derive_child C kp i)"
  by (simp_all add: keypair_ok_def from_secret_def generate_def derive_child_def)

lemma from_secret_secret: "keypair_ok C kp \<Longrightarrow> from_secret C (secret kp) = kp"
  by (cases kp) (simp add: keypair_ok_def from_secret_def secret_def)

lemma verify_sign:
  "crypto_ok C \<Longrightarrow> keypair_ok C kp \<Longrightarrow> verify C (kp_public_key kp) m (sign C kp m) = Inr ()"
  by (simp add: verify_def sign_def keypair_ok_def crypto_okD)

lemma count_foldl:
  "foldl (\<lambda>n i. if P i then n + 1 else n) k xs = k + length (filter P xs)"
  by (induction xs arbitrary: k) auto

lemma batch_verify_count:
  assumes "length ms = length sigs" "length ms = length pks"
  shows "batch_verify C ms sigs pks =
    (let bad = length (filter (\<lambda>(pk, m, s). \<not> is_ok (verify C pk m s)) (zip pks (zip ms sigs)))
     in if 0 < bad then Inl (BatchVerifyError bad (length ms)) else Inr ())"
proof -
  let ?P = "\<lambda>(pk, m, s). \<not> is_ok (verify C pk m s)"
  have z: "zip pks (zip ms sigs) = map (\<lambda>i. (pks ! i, ms ! i, sigs ! i)) [0..<length ms]"
    using assms by (intro nth_equalityI) auto
  have "length (filter (\<lambda>i. \<not> is_ok (verify C (pks ! i) (ms ! i) (sigs ! i))) [0..<length ms])
      = length (filter ?P (zip pks (zip ms sigs)))"
    unfolding z by (simp add: filter_map comp_def)
  with assms show ?thesis by (simp add: batch_verify_def count_foldl Let_def)
qed

lemma sha3_256_length: "crypto_ok C \<Longrightarrow> length (sha3_256 C d) = 32"
  by (simp add: sha3_256_def crypto_okD)

section \<open>A concrete instance\<close>

text \<open>
  A toy instance of the parameter, on which closed examples evaluate: the digest is the last
  32 bytes of the input, reversed and padded; every signature verifies; the string encoding
  maps bytes to characters one to one.
\<close>

definition demo_crypto :: crypto where
  "demo_crypto =
     \<lparr>sha3_digest = (\<lambda>d. take 32 (rev d @ replicate 32 0)),
      vk_error = (\<lambda>_. None),
      vk_verify = (\<lambda>_ _ _. True),
      sk_public = (\<lambda>s. take 32 (s @ replicate 32 0)),
      sk_sign = (\<lambda>s m. take 64 (s @ rev m @ replicate 64 0)),
      b58_encode = map byte_char,
      b58_decode = (\<lambda>t. Inr (string_bytes t)),
      hex_encode = map byte_char,
      hex_decode = (\<lambda>t. Inr (string_bytes t))\<rparr>"

lemma demo_crypto_ok [simp]: "crypto_ok demo_crypto"
  by (auto simp: crypto_ok_def demo_crypto_def min_def)

end
