(* ===== verification/Merkle.thy ===== *)
theory Merkle
  imports Keys
begin

text \<open>
  \<open>relyo-core/src/merkle.rs\<close>: the Merkle tree over SHA3-256 leaf hashes, stored as one vector
  of levels, bottom-up, and its inclusion proofs.  The two loops of the code are recursive
  functions over the start and the size of the current level.  Indexing of a vector out of its
  range is a panic (\<open>None\<close> outside the function's own \<open>Option\<close>).
\<close>

record merkle_tree =
  mt_nodes :: "bytes list"
  mt_leaf_count :: nat

record merkle_proof =
  leaf_hash :: bytes
  siblings :: "bytes list"
  directions :: "bool list"

definition zero_bytes :: bytes where
  "zero_bytes = replicate 32 0"

text \<open>\<open>usize::next_power_of_two\<close>: double from 1 until the number is reached.\<close>

function double_until :: "nat \<Rightarrow> nat \<Rightarrow> nat" where
  "double_until p n = (if p = 0 \<or> n \<le> p then p else double_until (2 * p) n)"
  by auto
termination by (relation "measure (\<lambda>(p, n). n - p)") auto

declare double_until.simps [simp del]

definition next_power_of_two :: "nat \<Rightarrow> nat" where
  "next_power_of_two n = double_until 1 n"

text \<open>One level: hash each pair of neighbours and append it.\<close>

definition push_level :: "crypto \<Rightarrow> nat \<Rightarrow> nat \<Rightarrow> bytes list \<Rightarrow> bytes list" where
  "push_level C level_start next_level_size nodes =
     foldl (\<lambda>ns i.
       let left = ns ! (level_start + 2 * i); right = ns ! (level_start + 2 * i + 1)
       in ns @ [sha3_256 C (left @ right)]) nodes [0..<next_level_size]"

fun build_levels :: "crypto \<Rightarrow> bytes list \<Rightarrow> nat \<Rightarrow> nat \<Rightarrow> bytes list" where
  "build_levels C nodes level_start level_size =
     (if level_size \<le> 1 then nodes
      else build_levels C (push_level C level_start (level_size div 2) nodes)
             (level_start + level_size) (level_size div 2))"

declare build_levels.simps [simp del]

definition from_hashes :: "crypto \<Rightarrow> bytes list \<Rightarrow> merkle_tree" where
  "from_hashes C leaf_hashes =
     (if leaf_hashes = [] then \<lparr>mt_nodes = [zero_bytes], mt_leaf_count = 0\<rparr>
      else
        let leaf_count = length leaf_hashes;
            padded_len = next_power_of_two leaf_count;
            nodes = leaf_hashes @ replicate (padded_len - leaf_count) zero_bytes
        in \<lparr>mt_nodes = build_levels C nodes 0 padded_len, mt_leaf_count = leaf_count\<rparr>)"

definition from_leaves :: "crypto \<Rightarrow> bytes list \<Rightarrow> merkle_tree" where
  "from_leaves C leaves =
     (if leaves = [] then \<lparr>mt_nodes = [zero_bytes], mt_leaf_count = 0\<rparr>
      else from_hashes C (map (sha3_256 C) leaves))"

definition merkle_root :: "merkle_tree \<Rightarrow> bytes" where
  "merkle_root t = (if mt_nodes t = [] then zero_bytes else last (mt_nodes t))"

fun proof_loop ::
    "bytes list \<Rightarrow> nat \<Rightarrow> nat \<Rightarrow> nat \<Rightarrow> bytes list \<Rightarrow> bool list \<Rightarrow> (bytes list \<times> bool list) option" where
  "proof_loop nodes index level_start level_size sibs dirs =
     (if level_size \<le> 1 then Some (sibs, dirs)
      else
        let sibling_index = (if even index then index + 1 else index - 1) in
        if length nodes \<le> level_start + sibling_index then None
        else proof_loop nodes (index div 2) (level_start + level_size) (level_size div 2)
               (sibs @ [nodes ! (level_start + sibling_index)]) (dirs @ [even index]))"

declare proof_loop.simps [simp del]

definition inclusion_proof :: "merkle_tree \<Rightarrow> nat \<Rightarrow> merkle_proof option option" where
  "inclusion_proof t leaf_index =
     (if leaf_index \<ge> mt_leaf_count t then Some None
      else
        let padded_len = next_power_of_two (mt_leaf_count t) in
        case proof_loop (mt_nodes t) leaf_index 0 padded_len [] [] of
          None \<Rightarrow> None
        | Some (sibs, dirs) \<Rightarrow>
            if length (mt_nodes t) \<le> leaf_index then None
            else Some (Some \<lparr>leaf_hash = mt_nodes t ! leaf_index, siblings = sibs,
                              directions = dirs\<rparr>))"

text \<open>The 64 bytes hashed at one step of \<open>MerkleProof::verify\<close>, and the whole fold.\<close>

definition combine :: "bytes \<Rightarrow> bytes \<times> bool \<Rightarrow> bytes" where
  "combine current = (\<lambda>(sibling, is_right). if is_right then current @ sibling else sibling @ current)"

definition climb :: "crypto \<Rightarrow> bytes \<Rightarrow> (bytes \<times> bool) list \<Rightarrow> bytes" where
  "climb C = foldl (\<lambda>current step. sha3_256 C (combine current step))"

definition verify_proof :: "crypto \<Rightarrow> merkle_proof \<Rightarrow> bytes \<Rightarrow> bool" where
  "verify_proof C p expected_root \<longleftrightarrow>
     climb C (leaf_hash p) (zip (siblings p) (directions p)) = expected_root"

section \<open>Facts\<close>

lemma double_until_pow2: "\<exists>k. double_until (2 ^ j) n = 2 ^ k"
proof (induction "2 ^ j :: nat" n arbitrary: j rule: double_until.induct)
  case (1 n)
  show ?case
  proof (cases "n \<le> 2 ^ j")
    case True
    then show ?thesis by (auto simp: double_until.simps [of "2 ^ j" n])
  next
    case False
    then have "\<exists>k. double_until (2 ^ Suc j) n = 2 ^ k" by (intro 1) simp_all
    with False show ?thesis by (simp add: double_until.simps [of "2 ^ j" n])
  qed
qed

lemma double_until_ge: "p \<noteq> 0 \<Longrightarrow> n \<le> double_until p n"
  by (induction p n rule: double_until.induct) (subst double_until.simps, auto)

lemma next_power_of_two_pow2: obtains k where "next_power_of_two n = 2 ^ k"
  using double_until_pow2 [of 0 n] by (auto simp: next_power_of_two_def)

lemma next_power_of_two_ge: "n \<le> next_power_of_two n"
  by (simp add: next_power_of_two_def double_until_ge)

text \<open>The levels of the tree without the indices: pair up neighbours, level after level.\<close>

fun pair_up :: "crypto \<Rightarrow> bytes list \<Rightarrow> bytes list" where
  "pair_up C (x # y # xs) = sha3_256 C (x @ y) # pair_up C xs"
| "pair_up C xs = []"

lemma length_pair_up [simp]: "length (pair_up C xs) = length xs div 2"
  by (induction C xs rule: pair_up.induct) auto

lemma nth_pair_up:
  "i < length xs div 2 \<Longrightarrow> pair_up C xs ! i = sha3_256 C (xs ! (2 * i) @ xs ! (2 * i + 1))"
proof (induction C xs arbitrary: i rule: pair_up.induct)
  case (1 C x y xs)
  then show ?case by (cases i) auto
qed auto

fun tower :: "crypto \<Rightarrow> bytes list \<Rightarrow> bytes list" where
  "tower C lvl = (if length lvl \<le> 1 then lvl else lvl @ tower C (pair_up C lvl))"

declare tower.simps [simp del]

lemma level_done:
  "length lvl \<le> 1 \<Longrightarrow> tower C lvl = lvl"
  "n \<le> 1 \<Longrightarrow> build_levels C nodes s n = nodes"
  "n \<le> 1 \<Longrightarrow> proof_loop nodes i s n sibs dirs = Some (sibs, dirs)"
  by (subst tower.simps build_levels.simps proof_loop.simps, simp)+

lemma push_level_pair_up:
  assumes "2 * m \<le> length lvl"
  shows "push_level C (length pre) m (pre @ lvl) = pre @ lvl @ take m (pair_up C lvl)"
  using assms
proof (induction m)
  case 0
  show ?case by (simp add: push_level_def)
next
  case (Suc m)
  let ?ns = "pre @ lvl @ take m (pair_up C lvl)"
  have "?ns ! (length pre + 2 * m) = lvl ! (2 * m)"
    "?ns ! (length pre + 2 * m + 1) = lvl ! (2 * m + 1)"
    using Suc.prems by (simp_all add: nth_append)
  moreover have "take (Suc m) (pair_up C lvl)
      = take m (pair_up C lvl) @ [sha3_256 C (lvl ! (2 * m) @ lvl ! (2 * m + 1))]"
    using Suc.prems by (subst take_Suc_conv_app_nth) (auto simp: nth_pair_up)
  ultimately show ?case
    using Suc by (simp add: push_level_def Let_def)
qed

lemma build_levels_tower:
  assumes "length lvl = 2 ^ k"
  shows "build_levels C (pre @ lvl) (length pre) (length lvl) = pre @ tower C lvl"
  using assms
proof (induction k arbitrary: pre lvl)
  case 0
  then show ?case by (simp add: level_done)
next
  case (Suc k)
  then have half: "length lvl div 2 = 2 ^ k" and more: "\<not> length lvl \<le> 1"
    using one_le_power [of "2::nat" k] by (simp_all, linarith)
  have "push_level C (length pre) (length lvl div 2) (pre @ lvl) = (pre @ lvl) @ pair_up C lvl"
    by (subst push_level_pair_up) (simp_all add: take_all)
  with more Suc.IH [of "pair_up C lvl" "pre @ lvl"] half show ?case
    by (subst build_levels.simps, subst tower.simps) simp
qed

lemma tower_last: "lvl \<noteq> [] \<Longrightarrow> length lvl = 2 ^ k \<Longrightarrow> tower C lvl \<noteq> []"
  by (subst tower.simps) simp

text \<open>The proof loop collects exactly the path from a leaf to the root.\<close>

lemma proof_loop_climb:
  assumes "length lvl = 2 ^ k" "i < length lvl"
  shows "\<exists>ss ds. proof_loop (pre @ tower C lvl) i (length pre) (length lvl) sibs dirs
      = Some (sibs @ ss, dirs @ ds) \<and> length ss = k \<and> length ds = k \<and>
        climb C (lvl ! i) (zip ss ds) = last (tower C lvl)"
  using assms
proof (induction k arbitrary: pre lvl i sibs dirs)
  case 0
  then show ?case
    by (auto simp: level_done climb_def length_Suc_conv)
next
  case (Suc k)
  let ?j = "if even i then i + 1 else i - 1"
  let ?up = "pair_up C lvl"
  have half: "length ?up = 2 ^ k" and more: "\<not> length lvl \<le> 1"
    using Suc.prems(1) one_le_power [of "2::nat" k] by (simp_all, linarith)
  have j: "?j < length lvl"
    using Suc.prems by (auto elim!: evenE)
  have t: "tower C lvl = lvl @ tower C ?up" using more by (subst tower.simps) simp
  have "?up \<noteq> []" using half by (metis list.size(3) power_not_zero zero_neq_numeral)
  then have ne: "tower C ?up \<noteq> []" using half by (rule tower_last)
  have i2: "i div 2 < length ?up" using Suc.prems by auto
  from Suc.IH [OF half i2, of "pre @ lvl" "sibs @ [lvl ! ?j]" "dirs @ [even i]"]
  obtain ss ds where IH: "proof_loop ((pre @ lvl) @ tower C ?up) (i div 2) (length (pre @ lvl))
      (length ?up) (sibs @ [lvl ! ?j]) (dirs @ [even i])
      = Some ((sibs @ [lvl ! ?j]) @ ss, (dirs @ [even i]) @ ds)"
    "length ss = k" "length ds = k"
    "climb C (?up ! (i div 2)) (zip ss ds) = last (tower C ?up)" by blast
  have "proof_loop (pre @ tower C lvl) i (length pre) (length lvl) sibs dirs
      = Some (sibs @ lvl ! ?j # ss, dirs @ even i # ds)"
    using IH(1) more j by (subst proof_loop.simps) (auto simp: t nth_append Let_def)
  moreover have "sha3_256 C (combine (lvl ! i) (lvl ! ?j, even i)) = ?up ! (i div 2)"
    using i2 by (cases "even i") (auto simp: nth_pair_up combine_def elim!: evenE oddE)
  then have "climb C (lvl ! i) (zip (lvl ! ?j # ss) (even i # ds)) = last (tower C lvl)"
    using IH(4) ne by (simp add: climb_def t)
  ultimately show ?case
    using IH(2,3) by (metis length_Cons)
qed

lemma from_hashes_tower:
  assumes "hs \<noteq> []"
  obtains lvl k where "mt_nodes (from_hashes C hs) = tower C lvl" "length lvl = 2 ^ k"
    "length lvl = next_power_of_two (length hs)"
    "lvl = hs @ replicate (next_power_of_two (length hs) - length hs) zero_bytes"
proof -
  let ?lvl = "hs @ replicate (next_power_of_two (length hs) - length hs) zero_bytes"
  have len: "length ?lvl = next_power_of_two (length hs)"
    using next_power_of_two_ge [of "length hs"] by simp
  obtain k where "next_power_of_two (length hs) = 2 ^ k" by (rule next_power_of_two_pow2)
  with len have k: "length ?lvl = 2 ^ k" by simp
  with build_levels_tower [OF k, of C "[]"] len assms
  have "mt_nodes (from_hashes C hs) = tower C ?lvl" by (simp add: from_hashes_def Let_def)
  with k len show ?thesis using that by blast
qed

lemma tower_prefix: "take (length lvl) (tower C lvl) = lvl"
  by (subst tower.simps) auto

lemma proof_exists:
  assumes "i < length hs"
  obtains p where "inclusion_proof (from_hashes C hs) i = Some (Some p)" "leaf_hash p = hs ! i"
    "verify_proof C p (merkle_root (from_hashes C hs))"
    "2 ^ length (siblings p) = next_power_of_two (length hs)"
    "length (directions p) = length (siblings p)"
proof -
  from assms have "hs \<noteq> []" by auto
  then obtain lvl k where lvl: "mt_nodes (from_hashes C hs) = tower C lvl" "length lvl = 2 ^ k"
    "length lvl = next_power_of_two (length hs)"
    "lvl = hs @ replicate (next_power_of_two (length hs) - length hs) zero_bytes"
    by (rule from_hashes_tower)
  have i: "i < length lvl" using assms lvl(3) next_power_of_two_ge [of "length hs"] by simp
  from proof_loop_climb [OF lvl(2) i, of "[]" C "[]" "[]"]
  obtain ss ds where path: "proof_loop (tower C lvl) i 0 (length lvl) [] [] = Some (ss, ds)"
    "length ss = k" "length ds = k" "climb C (lvl ! i) (zip ss ds) = last (tower C lvl)" by auto
  have tl: "tower C lvl ! i = lvl ! i" "i < length (tower C lvl)"
    using i by (subst tower.simps, simp add: nth_append)+
  have leaf: "lvl ! i = hs ! i" using assms by (simp add: lvl(4) nth_append)
  have cnt: "mt_leaf_count (from_hashes C hs) = length hs"
    using \<open>hs \<noteq> []\<close> by (simp add: from_hashes_def Let_def)
  let ?p = "\<lparr>leaf_hash = hs ! i, siblings = ss, directions = ds\<rparr>"
  have "inclusion_proof (from_hashes C hs) i = Some (Some ?p)"
    using assms path(1) lvl(1,3) tl leaf by (simp add: inclusion_proof_def cnt Let_def)
  moreover have "verify_proof C ?p (merkle_root (from_hashes C hs))"
    using path(4) leaf tl(2) by (auto simp: verify_proof_def merkle_root_def lvl(1))
  ultimately show ?thesis using path lvl(2,3) by (intro that [of ?p]) simp_all
qed

text \<open>Two climbs with the same directions that meet did so through one pair of hash inputs.\<close>

definition hash_inputs :: "crypto \<Rightarrow> bytes \<Rightarrow> (bytes \<times> bool) list \<Rightarrow> bytes list" where
  "hash_inputs C h path = map (\<lambda>n. combine (climb C h (take n path)) (path ! n)) [0..<length path]"

lemma combine_inj:
  assumes "combine h p = combine h' p'" "snd p = snd p'" "length h = length h'"
  shows "h = h'"
proof (cases "snd p")
  case True
  with assms show ?thesis by (simp add: combine_def split_beta)
next
  case False
  with assms have "fst p @ h = fst p' @ h'" by (simp add: combine_def split_beta)
  with assms(3) show ?thesis by simp
qed

lemma climb_take_Suc:
  "n < length path \<Longrightarrow>
    climb C h (take (Suc n) path) = sha3_256 C (combine (climb C h (take n path)) (path ! n))"
  by (simp add: climb_def take_Suc_conv_app_nth)

lemma climb_length: "crypto_ok C \<Longrightarrow> length h = 32 \<Longrightarrow> length (climb C h path) = 32"
  by (induction path rule: rev_induct) (simp_all add: climb_def sha3_256_length)

lemma climb_collision:
  assumes "crypto_ok C" "length h = 32" "length h' = 32" "h \<noteq> h'"
    "map snd path = map snd path'"
    "climb C h path = climb C h' path'"
  shows "\<exists>n<length path. hash_inputs C h path ! n \<noteq> hash_inputs C h' path' ! n \<and>
    sha3_256 C (hash_inputs C h path ! n) = sha3_256 C (hash_inputs C h' path' ! n)"
proof (rule ccontr)
  let ?a = "\<lambda>n. climb C h (take n path)" and ?b = "\<lambda>n. climb C h' (take n path')"
  assume no: "\<not> ?thesis"
  have len: "length path = length path'" using assms(5) by (metis length_map)
  have "?a n \<noteq> ?b n" if "n \<le> length path" for n
    using that
  proof (induction n)
    case 0
    show ?case using assms(4) by (simp add: climb_def)
  next
    case (Suc n)
    then have n: "n < length path" "n < length path'" using len by auto
    have "snd (path ! n) = snd (path' ! n)" using assms(5) n by (metis nth_map)
    then have "combine (?a n) (path ! n) \<noteq> combine (?b n) (path' ! n)"
      using combine_inj [of "?a n" "path ! n" "?b n" "path' ! n"] Suc n
      by (auto simp: climb_length assms)
    moreover have "hash_inputs C h path ! n = combine (?a n) (path ! n)"
      "hash_inputs C h' path' ! n = combine (?b n) (path' ! n)"
      using n by (simp_all add: hash_inputs_def)
    ultimately show ?case using no n by (auto simp: climb_take_Suc)
  qed
  from this [of "length path"] show False using assms(6) len by simp
qed

lemma double_until_Suc:
  "p \<noteq> 0 \<Longrightarrow> n < double_until p n \<Longrightarrow> double_until p (Suc n) = double_until p n"
proof (induction p n rule: double_until.induct)
  case (1 p n)
  show ?case
  proof (cases "n \<le> p")
    case True
    then have "double_until p n = p" by (simp add: double_until.simps [of p n])
    with 1(3) show ?thesis by (simp add: double_until.simps [of p "Suc n"])
  next
    case False
    then have "double_until p n = double_until (2 * p) n" "double_until p (Suc n) = double_until (2 * p) (Suc n)"
      using 1(2) by (simp_all add: double_until.simps [of p n] double_until.simps [of p "Suc n"])
    with 1 False show ?thesis by simp
  qed
qed

section \<open>Properties\<close>

text \<open>For every tree built from hashes and every leaf, \<open>proof\<close> returns (with no index out of
  range) a proof that carries that leaf, verifies against the tree's root and has one sibling
  per level of the padded tree.\<close>

theorem inclusion_proof_complete:
  assumes "i < length hs"
  shows "\<exists>p. inclusion_proof (from_hashes C hs) i = Some (Some p) \<and> leaf_hash p = hs ! i \<and>
    verify_proof C p (merkle_root (from_hashes C hs)) \<and>
    2 ^ length (siblings p) = next_power_of_two (length hs)"
  using proof_exists [OF assms, of C] by metis

theorem inclusion_proof_complete_witness:
  "\<exists>p. inclusion_proof (from_hashes demo_crypto [[1], [2], [3]]) 2 = Some (Some p) \<and>
    leaf_hash p = [3] \<and>
    verify_proof demo_crypto p (merkle_root (from_hashes demo_crypto [[1], [2], [3]]))"
  using inclusion_proof_complete [of 2 "[[1], [2], [3]]" demo_crypto]
  by (auto simp: numeral_2_eq_2)

text \<open>C34: Inclusion proofs are binding as far as the verifier reads them: it pairs siblings with directions and
  drops the rest of the longer list unchecked. Two proofs of different leaves whose paired directions are
  the same and that verify against the same root exhibit, at one step, two different inputs with the same
  SHA3-256 digest. (Proofs whose paired directions differ in number need no collision: the root itself,
  with no sibling, verifies.)\<close>

theorem inclusion_proof_binding:
  assumes "crypto_ok C" "length (leaf_hash p) = 32" "length (leaf_hash q) = 32"
    and "map snd (zip (siblings p) (directions p)) = map snd (zip (siblings q) (directions q))"
    and "verify_proof C p root" "verify_proof C q root" "leaf_hash p \<noteq> leaf_hash q"
  shows "\<exists>n<length (zip (siblings p) (directions p)).
    let x = hash_inputs C (leaf_hash p) (zip (siblings p) (directions p)) ! n;
        y = hash_inputs C (leaf_hash q) (zip (siblings q) (directions q)) ! n
    in x \<noteq> y \<and> sha3_256 C x = sha3_256 C y"
  using climb_collision [OF assms(1-3,7), of "zip (siblings p) (directions p)"
      "zip (siblings q) (directions q)"] assms
  by (auto simp: verify_proof_def)

theorem inclusion_proof_binding_witness:
  "\<exists>n<1. let x = hash_inputs demo_crypto (replicate 32 4) [(replicate 32 1, True)] ! n;
              y = hash_inputs demo_crypto (replicate 32 5) [(replicate 32 1, True)] ! n
          in x \<noteq> y \<and> sha3_256 demo_crypto x = sha3_256 demo_crypto y"
proof -
  let ?p = "\<lambda>b. \<lparr>leaf_hash = replicate 32 b, siblings = [replicate 32 1], directions = [True]\<rparr>"
  have "verify_proof demo_crypto (?p 4) (replicate 32 1)"
    "verify_proof demo_crypto (?p 5) (replicate 32 1)"
    by (simp_all add: verify_proof_def climb_def sha3_256_def demo_crypto_def combine_def)
  then show ?thesis
    using inclusion_proof_binding [OF demo_crypto_ok, of "?p 4" "?p 5" "replicate 32 1"] by simp
qed

text \<open>The verifier compares no lengths: beside any proof, the proof of the root itself as a leaf, with the
  same directions and no sibling, verifies against the root.\<close>

theorem proof_length_unchecked:
  "verify_proof C \<lparr>leaf_hash = root, siblings = [], directions = directions p\<rparr> root"
  by (simp add: verify_proof_def climb_def)

text \<open>Leaves and inner nodes are hashed alike: the tree of two leaves and the tree of one
  leaf, the concatenation of their hashes, have the same root.\<close>

theorem merkle_root_no_domain_separation:
  "merkle_root (from_leaves C [a, b]) = merkle_root (from_leaves C [sha3_256 C a @ sha3_256 C b]) \<and>
   mt_leaf_count (from_leaves C [a, b]) \<noteq> mt_leaf_count (from_leaves C [sha3_256 C a @ sha3_256 C b])"
proof -
  have "next_power_of_two 1 = 1" "next_power_of_two 2 = 2"
    by code_simp+
  moreover have "build_levels C [x, y] 0 2 = [x, y, sha3_256 C (x @ y)]" for x y
    by (subst build_levels.simps) (simp add: level_done push_level_def)
  ultimately show ?thesis
    by (simp add: from_leaves_def from_hashes_def Let_def merkle_root_def level_done numeral_2_eq_2)
qed

text \<open>Padding leaves are not told from real ones: unless the number of leaves is a power of
  two, adding the zero hash as one more leaf keeps the root.\<close>

theorem merkle_root_padding_ambiguous:
  assumes "hs \<noteq> []" "next_power_of_two (length hs) \<noteq> length hs"
  shows "merkle_root (from_hashes C (hs @ [zero_bytes])) = merkle_root (from_hashes C hs)"
proof -
  have lt: "length hs < next_power_of_two (length hs)"
    using assms(2) next_power_of_two_ge [of "length hs"] by simp
  then have "next_power_of_two (Suc (length hs)) = next_power_of_two (length hs)"
    by (simp add: next_power_of_two_def double_until_Suc)
  moreover have "[zero_bytes] @ replicate (next_power_of_two (length hs) - Suc (length hs)) zero_bytes
      = replicate (next_power_of_two (length hs) - length hs) zero_bytes"
    using lt by (simp flip: replicate_Suc add: Suc_diff_Suc)
  ultimately show ?thesis
    using assms(1) by (simp add: from_hashes_def Let_def merkle_root_def)
qed

theorem merkle_root_padding_ambiguous_witness:
  "merkle_root (from_hashes demo_crypto [[1], [2], [3], zero_bytes])
     = merkle_root (from_hashes demo_crypto [[1], [2], [3]])"
proof -
  have "next_power_of_two (length [[1 :: u8], [2], [3]]) \<noteq> length [[1 :: u8], [2], [3]]"
    by code_simp
  from merkle_root_padding_ambiguous [OF _ this, of demo_crypto] show ?thesis by simp
qed

end
