(* ===== verification/Addresses.thy ===== *)
theory Addresses
  imports Keys
begin

text \<open>
  \<open>relyo-core/src/address.rs\<close>: typed addresses of 26 bytes (prefix, type, 20 bytes of the
  key's hash, 4 bytes of checksum), written in Base58.
\<close>

datatype addr_type = Standard | Contract | Staking | Treasury

datatype address = Address (as_str: string)

instantiation address :: linorder
begin

definition less_eq_address :: "address \<Rightarrow> address \<Rightarrow> bool" where
  "less_eq_address a b \<longleftrightarrow> as_str a \<le> as_str b"

definition less_address :: "address \<Rightarrow> address \<Rightarrow> bool" where
  "less_address a b \<longleftrightarrow> as_str a < as_str b"

instance
  by standard (auto simp: less_eq_address_def less_address_def address.expand)

end

definition ADDRESS_PREFIX :: u8 where
  "ADDRESS_PREFIX = 82"

fun type_byte :: "addr_type \<Rightarrow> u8" where
  "type_byte Standard = 1"
| "type_byte Contract = 2"
| "type_byte Staking = 3"
| "type_byte Treasury = 4"

definition from_byte :: "u8 \<Rightarrow> addr_type option" where
  "from_byte b =
     (if b = 1 then Some Standard
      else if b = 2 then Some Contract
      else if b = 3 then Some Staking
      else if b = 4 then Some Treasury
      else None)"

definition from_public_key_typed :: "crypto \<Rightarrow> public_key \<Rightarrow> addr_type \<Rightarrow> address" where
  "from_public_key_typed C pubkey t =
     (let hash = sha3_256 C (pk_bytes pubkey);
          payload = [ADDRESS_PREFIX, type_byte t] @ take 20 hash;
          checksum = sha3_256 C payload
      in Address (b58_encode C (payload @ take 4 checksum)))"

definition from_public_key :: "crypto \<Rightarrow> public_key \<Rightarrow> address" where
  "from_public_key C pubkey = from_public_key_typed C pubkey Standard"

definition treasury :: "crypto \<Rightarrow> public_key \<Rightarrow> address" where
  "treasury C pubkey = from_public_key_typed C pubkey Treasury"

definition staking :: "crypto \<Rightarrow> public_key \<Rightarrow> address" where
  "staking C pubkey = from_public_key_typed C pubkey Staking"

definition genesis_address :: "crypto \<Rightarrow> address" where
  "genesis_address C =
     (let payload = [ADDRESS_PREFIX, type_byte Standard] @ replicate 20 0;
          checksum = sha3_256 C payload
      in Address (b58_encode C (payload @ take 4 checksum)))"

definition length_message :: "bytes \<Rightarrow> string" where
  "length_message bs = ''expected 26 bytes, got '' @ show_nat (length bs)"

text \<open>\<open>bytes[22..26] == checksum[..4]\<close> for a slice of 26 bytes.\<close>

definition checksum_matches :: "crypto \<Rightarrow> bytes \<Rightarrow> bool" where
  "checksum_matches C bs \<longleftrightarrow> take 4 (drop 22 bs) = take 4 (sha3_256 C (take 22 bs))"

definition from_bytes :: "crypto \<Rightarrow> bytes \<Rightarrow> address result" where
  "from_bytes C bs =
     (if length bs \<noteq> 26 then Inl (InvalidAddress (length_message bs))
      else if bs ! 0 \<noteq> ADDRESS_PREFIX then Inl (InvalidAddress ''invalid network prefix'')
      else if \<not> checksum_matches C bs then Inl (InvalidAddress ''checksum mismatch'')
      else Inr (Address (b58_encode C bs)))"

definition to_bytes :: "crypto \<Rightarrow> address \<Rightarrow> bytes result" where
  "to_bytes C a =
     (case b58_decode C (as_str a) of Inl e \<Rightarrow> Inl (InvalidAddress e) | Inr bs \<Rightarrow> Inr bs)"

text \<open>\<open>bytes[1]\<close> panics on a decoded string of fewer than two bytes.\<close>

definition address_type :: "crypto \<Rightarrow> address \<Rightarrow> addr_type result option" where
  "address_type C a =
     (case to_bytes C a of
        Inl e \<Rightarrow> Some (Inl e)
      | Inr bs \<Rightarrow>
          if length bs \<le> 1 then None
          else case from_byte (bs ! 1) of
                 None \<Rightarrow> Some (Inl (InvalidAddress ''unknown address type''))
               | Some t \<Rightarrow> Some (Inr t))"

definition validate_address :: "crypto \<Rightarrow> string \<Rightarrow> unit result" where
  "validate_address C s =
     (case b58_decode C s of
        Inl e \<Rightarrow> Inl (InvalidAddress e)
      | Inr bs \<Rightarrow>
          if length bs \<noteq> 26 then Inl (InvalidAddress (length_message bs))
          else if bs ! 0 \<noteq> ADDRESS_PREFIX then Inl (InvalidAddress ''invalid network prefix'')
          else if from_byte (bs ! 1) = None
            then Inl (InvalidAddress ''unknown address type byte'')
          else if \<not> checksum_matches C bs then Inl (InvalidAddress ''checksum mismatch'')
          else Inr ())"

definition is_valid_checksum :: "crypto \<Rightarrow> address \<Rightarrow> bool" where
  "is_valid_checksum C a =
     (case to_bytes C a of
        Inl _ \<Rightarrow> False
      | Inr bs \<Rightarrow> length bs = 26 \<and> checksum_matches C bs)"

text \<open>\<open>FromStr for Address\<close>.\<close>

definition parse_address :: "crypto \<Rightarrow> string \<Rightarrow> address result" where
  "parse_address C s = try_then (validate_address C s) (\<lambda>_. Inr (Address s))"

section \<open>Facts\<close>

lemma from_byte_type_byte [simp]: "from_byte (type_byte t) = Some t"
  by (cases t) (simp_all add: from_byte_def)

lemma type_byte_inj [simp]: "type_byte s = type_byte t \<longleftrightarrow> s = t"
  by (metis from_byte_type_byte option.inject)

text \<open>The bytes behind an address: what the decoder returns.\<close>

definition raw_address :: "crypto \<Rightarrow> addr_type \<Rightarrow> bytes \<Rightarrow> bytes" where
  "raw_address C t hash =
     (let payload = [ADDRESS_PREFIX, type_byte t] @ hash
      in payload @ take 4 (sha3_256 C payload))"

lemma from_public_key_typed_raw:
  "from_public_key_typed C pk t =
     Address (b58_encode C (raw_address C t (take 20 (sha3_256 C (pk_bytes pk)))))"
  by (simp add: from_public_key_typed_def raw_address_def Let_def)

lemma genesis_address_raw:
  "genesis_address C = Address (b58_encode C (raw_address C Standard (replicate 20 0)))"
  by (simp add: genesis_address_def raw_address_def Let_def)

lemma raw_address_shape:
  assumes "crypto_ok C" "length hash = 20"
  shows "length (raw_address C t hash) = 26" "raw_address C t hash ! 0 = ADDRESS_PREFIX"
    "raw_address C t hash ! 1 = type_byte t" "checksum_matches C (raw_address C t hash)"
  using assms by (simp_all add: raw_address_def Let_def sha3_256_length checksum_matches_def)

lemma validate_raw_address:
  assumes "crypto_ok C" "length hash = 20"
  shows "validate_address C (b58_encode C (raw_address C t hash)) = Inr ()"
  using raw_address_shape [OF assms] assms(1)
  by (simp add: validate_address_def crypto_okD)

lemma to_bytes_raw_address:
  "crypto_ok C \<Longrightarrow> to_bytes C (Address (b58_encode C bs)) = Inr bs"
  by (simp add: to_bytes_def crypto_okD)

lemma key_hash_length: "crypto_ok C \<Longrightarrow> length (take 20 (sha3_256 C x)) = 20"
  by (simp add: sha3_256_length)

lemma validate_address_Inr:
  "validate_address C s = Inr () \<longleftrightarrow>
     (\<exists>bs. b58_decode C s = Inr bs \<and> length bs = 26 \<and> bs ! 0 = ADDRESS_PREFIX \<and>
           from_byte (bs ! 1) \<noteq> None \<and> checksum_matches C bs)"
  by (auto simp: validate_address_def split: sum.splits)

lemma from_public_key_valid:
  "crypto_ok C \<Longrightarrow> validate_address C (as_str (from_public_key_typed C pk t)) = Inr ()"
  using validate_raw_address [OF _ key_hash_length] by (simp add: from_public_key_typed_raw)

lemma from_bytes_valid:
  assumes "crypto_ok C" "validate_address C s = Inr ()"
  obtains bs t where "to_bytes C (Address s) = Inr bs" "from_bytes C bs = Inr (Address s)"
    "address_type C (Address s) = Some (Inr t)" "from_byte (bs ! 1) = Some t"
proof -
  from assms(2) obtain bs t where bs: "b58_decode C s = Inr bs" "length bs = 26"
    "bs ! 0 = ADDRESS_PREFIX" "from_byte (bs ! 1) = Some t" "checksum_matches C bs"
    by (auto simp: validate_address_Inr)
  moreover from bs have "b58_encode C bs = s" using assms(1) by (simp add: b58_canonical)
  ultimately show ?thesis
    by (intro that [of bs t]) (simp_all add: to_bytes_def from_bytes_def address_type_def)
qed

section \<open>Properties\<close>

text \<open>Every address derived from a public key is well formed: it passes \<open>validate\<close>, its
  checksum holds, its type is the requested one, and its raw bytes read back to the address.\<close>

theorem derived_address_roundtrip:
  fixes pk t
  assumes "crypto_ok C"
  defines "a \<equiv> from_public_key_typed C pk t"
  shows "parse_address C (as_str a) = Inr a \<and> is_valid_checksum C a \<and>
    address_type C a = Some (Inr t) \<and>
    (\<exists>bs. to_bytes C a = Inr bs \<and> length bs = 26 \<and> from_bytes C bs = Inr a)"
proof -
  let ?raw = "raw_address C t (take 20 (sha3_256 C (pk_bytes pk)))"
  have a: "a = Address (b58_encode C ?raw)" by (simp add: a_def from_public_key_typed_raw)
  note raw = raw_address_shape [OF assms(1) key_hash_length [OF assms(1)]]
  have "to_bytes C a = Inr ?raw" by (simp add: a to_bytes_raw_address assms(1))
  with raw show ?thesis
    using from_public_key_valid [OF assms(1), of pk t]
    by (simp add: parse_address_def a_def [symmetric] is_valid_checksum_def address_type_def
        from_bytes_def) (simp add: a)
qed

theorem derived_address_roundtrip_witness:
  "parse_address demo_crypto (as_str (from_public_key_typed demo_crypto (PublicKey [7]) Staking))
     = Inr (from_public_key_typed demo_crypto (PublicKey [7]) Staking)"
  using derived_address_roundtrip [OF demo_crypto_ok, of "PublicKey [7]" Staking] by blast

text \<open>A string that \<open>validate\<close> accepts is a real address: it decodes, its bytes read back to
  it, and asking for its type neither panics nor fails.\<close>

theorem valid_address_readable:
  assumes "crypto_ok C" and "parse_address C s = Inr a"
  shows "\<exists>bs t. a = Address s \<and> to_bytes C a = Inr bs \<and> from_bytes C bs = Inr a \<and>
    address_type C a = Some (Inr t)"
proof -
  from assms(2) have "validate_address C s = Inr ()" and a: "a = Address s"
    by (auto simp: parse_address_def try_then_Inr)
  with assms(1) show ?thesis by (metis from_bytes_valid)
qed

theorem valid_address_readable_witness:
  "\<exists>bs t. to_bytes demo_crypto (genesis_address demo_crypto) = Inr bs \<and>
     address_type demo_crypto (genesis_address demo_crypto) = Some (Inr t)"
proof -
  have "parse_address demo_crypto (as_str (genesis_address demo_crypto))
      = Inr (genesis_address demo_crypto)"
    by (simp add: parse_address_def genesis_address_raw validate_raw_address)
  from valid_address_readable [OF demo_crypto_ok this] show ?thesis by blast
qed

text \<open>\<open>from_bytes\<close> does not look at the type byte: whatever the hash function, it builds an
  address of type byte 9 that \<open>validate\<close> and \<open>address_type\<close> refuse.\<close>

theorem from_bytes_accepts_unknown_type:
  assumes "crypto_ok C"
  shows "\<exists>bs a. from_bytes C bs = Inr a \<and>
    validate_address C (as_str a) = Inl (InvalidAddress ''unknown address type byte'') \<and>
    address_type C a = Some (Inl (InvalidAddress ''unknown address type''))"
proof -
  let ?p = "[ADDRESS_PREFIX, 9] @ replicate 20 0"
  let ?bs = "?p @ take 4 (sha3_256 C ?p)"
  have "length ?bs = 26" by (simp add: sha3_256_length assms)
  moreover have "checksum_matches C ?bs"
    by (simp add: checksum_matches_def sha3_256_length assms)
  ultimately have "from_bytes C ?bs = Inr (Address (b58_encode C ?bs))"
    "validate_address C (b58_encode C ?bs) = Inl (InvalidAddress ''unknown address type byte'')"
    "address_type C (Address (b58_encode C ?bs))
       = Some (Inl (InvalidAddress ''unknown address type''))"
    using crypto_okD(6) [OF assms, of ?bs]
    by (simp_all add: from_bytes_def validate_address_def address_type_def to_bytes_def
        from_byte_def)
  then show ?thesis by (metis address.sel)
qed

theorem from_bytes_accepts_unknown_type_witness:
  "\<exists>bs a. from_bytes demo_crypto bs = Inr a \<and>
    validate_address demo_crypto (as_str a) \<noteq> Inr ()"
  using from_bytes_accepts_unknown_type [OF demo_crypto_ok] by force

end
