(* ===== verification/Ledger.thy ===== *)
theory Ledger
  imports Addresses
begin

text \<open>
  \<open>relyo-dag/src/state.rs\<close>: balances, nonces, stakes and pending unstake requests per address;
  the state hash; snapshots.

  The four \<open>DashMap\<close>s are association lists with distinct keys (\<open>ledger_ok\<close>).  An operation
  that can fail returns its result and the new state, because a failing \<open>debit\<close> still inserts
  an empty entry.  The compare-and-exchange loops are modelled as one atomic step.
\<close>

record unstake_request =
  ur_amount :: u64
  ur_unlock_time_ms :: u64
  ur_unlock_epoch :: u64

record ledger_state =
  balances :: "(address \<times> u64) list"
  nonces :: "(address \<times> u64) list"
  stakes :: "(address \<times> u64) list"
  unstake_requests :: "(address \<times> unstake_request list) list"

record state_snapshot =
  ss_balances :: "(string \<times> u64) list"
  ss_nonces :: "(string \<times> u64) list"
  ss_stakes :: "(string \<times> u64) list"
  ss_unstake_requests :: "(string \<times> unstake_request list) list"
  ss_state_hash :: bytes
  ss_timestamp :: u64

definition ledger_new :: ledger_state where
  "ledger_new = \<lparr>balances = [], nonces = [], stakes = [], unstake_requests = []\<rparr>"

section \<open>Accounts\<close>

definition balance :: "ledger_state \<Rightarrow> address \<Rightarrow> u64" where
  "balance s addr = get_or 0 (balances s) addr"

definition nonce :: "ledger_state \<Rightarrow> address \<Rightarrow> u64" where
  "nonce s addr = get_or 0 (nonces s) addr"

definition stake_balance :: "ledger_state \<Rightarrow> address \<Rightarrow> u64" where
  "stake_balance s addr = get_or 0 (stakes s) addr"

definition credit :: "ledger_state \<Rightarrow> address \<Rightarrow> u64 \<Rightarrow> ledger_state" where
  "credit s addr amount =
     s\<lparr>balances := AList.update addr (get_or 0 (balances s) addr + amount) (balances s)\<rparr>"

definition debit :: "ledger_state \<Rightarrow> address \<Rightarrow> u64 \<Rightarrow> unit result \<times> ledger_state" where
  "debit s addr amount =
     (let current = get_or 0 (balances s) addr;
          entry = (\<lambda>v. s\<lparr>balances := AList.update addr v (balances s)\<rparr>)
      in if current < amount then (Inl (InsufficientBalance current amount), entry current)
         else (Inr (), entry (current - amount)))"

definition increment_nonce :: "ledger_state \<Rightarrow> address \<Rightarrow> ledger_state" where
  "increment_nonce s addr =
     s\<lparr>nonces := AList.update addr (get_or 0 (nonces s) addr + 1) (nonces s)\<rparr>"

definition set_balance :: "ledger_state \<Rightarrow> address \<Rightarrow> u64 \<Rightarrow> ledger_state" where
  "set_balance s addr amount = s\<lparr>balances := AList.update addr amount (balances s)\<rparr>"

definition set_nonce :: "ledger_state \<Rightarrow> address \<Rightarrow> u64 \<Rightarrow> ledger_state" where
  "set_nonce s addr n = s\<lparr>nonces := AList.update addr n (nonces s)\<rparr>"

definition add_stake :: "ledger_state \<Rightarrow> address \<Rightarrow> u64 \<Rightarrow> ledger_state" where
  "add_stake s addr amount =
     s\<lparr>stakes := AList.update addr (get_or 0 (stakes s) addr + amount) (stakes s)\<rparr>"

definition set_stake :: "ledger_state \<Rightarrow> address \<Rightarrow> u64 \<Rightarrow> ledger_state" where
  "set_stake s addr amount = s\<lparr>stakes := AList.update addr amount (stakes s)\<rparr>"

definition remove_stake :: "ledger_state \<Rightarrow> address \<Rightarrow> u64 \<Rightarrow> unit result \<times> ledger_state" where
  "remove_stake s addr amount =
     (let current = get_or 0 (stakes s) addr;
          entry = (\<lambda>v. s\<lparr>stakes := AList.update addr v (stakes s)\<rparr>)
      in if current < amount then (Inl (InsufficientBalance current amount), entry current)
         else (Inr (), entry (current - amount)))"

definition unbond_requests :: "ledger_state \<Rightarrow> address \<Rightarrow> unstake_request list" where
  "unbond_requests s addr = get_or [] (unstake_requests s) addr"

section \<open>Unstaking\<close>

definition LOCK_MS :: u64 where
  "LOCK_MS = 30 * 24 * 60 * 60 * 1000"

definition request_unstake ::
    "ledger_state \<Rightarrow> address \<Rightarrow> u64 \<Rightarrow> u64 \<Rightarrow> u64 \<Rightarrow> unit result \<times> ledger_state" where
  "request_unstake s addr amount current_time_ms current_epoch =
     (case remove_stake s addr amount of
        (Inl e, s') \<Rightarrow> (Inl e, s')
      | (Inr _, s') \<Rightarrow>
          let req = \<lparr>ur_amount = amount, ur_unlock_time_ms = current_time_ms + LOCK_MS,
                     ur_unlock_epoch = current_epoch + 10\<rparr>
          in (Inr (), s'\<lparr>unstake_requests :=
                AList.update addr (unbond_requests s' addr @ [req]) (unstake_requests s')\<rparr>))"

definition is_unlocked :: "u64 \<Rightarrow> u64 \<Rightarrow> unstake_request \<Rightarrow> bool" where
  "is_unlocked current_time_ms current_epoch req \<longleftrightarrow>
     current_time_ms \<ge> ur_unlock_time_ms req \<or> current_epoch \<ge> ur_unlock_epoch req"

text \<open>The \<open>retain\<close> of \<open>process_unstakes\<close>, with the counter its closure updates.\<close>

definition retain_locked ::
    "u64 \<Rightarrow> u64 \<Rightarrow> unstake_request list \<Rightarrow> u64 \<times> unstake_request list" where
  "retain_locked now epoch reqs =
     foldl (\<lambda>(unlocked_amount, kept) req.
       if is_unlocked now epoch req then (unlocked_amount + ur_amount req, kept)
       else (unlocked_amount, kept @ [req])) (0, []) reqs"

definition process_unstakes ::
    "ledger_state \<Rightarrow> address \<Rightarrow> u64 \<Rightarrow> u64 \<Rightarrow> u64 \<times> ledger_state" where
  "process_unstakes s addr current_time_ms current_epoch =
     (let (unlocked_amount, s') =
        (case map_of (unstake_requests s) addr of
           None \<Rightarrow> (0, s)
         | Some reqs \<Rightarrow>
             let (u, kept) = retain_locked current_time_ms current_epoch reqs
             in (u, s\<lparr>unstake_requests := AList.update addr kept (unstake_requests s)\<rparr>))
      in (unlocked_amount,
          if 0 < unlocked_amount then credit s' addr unlocked_amount else s'))"

section \<open>Totals\<close>

definition address_count :: "ledger_state \<Rightarrow> nat" where
  "address_count s = length (filter (\<lambda>e. 0 < snd e) (balances s))"

definition total_circulating :: "ledger_state \<Rightarrow> u64" where
  "total_circulating s =
     vsum (\<lambda>v. v) (balances s) + vsum (\<lambda>v. v) (stakes s) +
     vsum (\<lambda>reqs. sum_list (map ur_amount reqs)) (unstake_requests s)"

section \<open>State hash and snapshots\<close>

text \<open>The entries of a map as (string, value) pairs, sorted by string.\<close>

definition sorted_entries :: "(address \<times> 'v) list \<Rightarrow> (string \<times> 'v) list" where
  "sorted_entries m = sort_key fst (map (\<lambda>(a, v). (as_str a, v)) m)"

definition u64_section :: "(address \<times> u64) list \<Rightarrow> bytes" where
  "u64_section m = concat (map (\<lambda>(a, v). string_bytes a @ le_bytes 8 v) (sorted_entries m))"

definition request_bytes :: "unstake_request \<Rightarrow> bytes" where
  "request_bytes req =
     le_bytes 8 (ur_amount req) @ le_bytes 8 (ur_unlock_time_ms req) @ le_bytes 8 (ur_unlock_epoch req)"

definition unstake_section :: "(address \<times> unstake_request list) list \<Rightarrow> bytes" where
  "unstake_section m =
     concat (map (\<lambda>(a, reqs). string_bytes a @ concat (map request_bytes reqs)) (sorted_entries m))"

definition state_hash :: "crypto \<Rightarrow> ledger_state \<Rightarrow> bytes" where
  "state_hash C s =
     sha3_256 C (u64_section (balances s) @ u64_section (nonces s) @ u64_section (stakes s) @
       unstake_section (unstake_requests s))"

definition string_map :: "(address \<times> 'v) list \<Rightarrow> (string \<times> 'v) list" where
  "string_map m = bt_collect (map (\<lambda>(a, v). (as_str a, v)) m)"

definition create_snapshot :: "crypto \<Rightarrow> u64 \<Rightarrow> ledger_state \<Rightarrow> state_snapshot" where
  "create_snapshot C now s =
     \<lparr>ss_balances = string_map (balances s), ss_nonces = string_map (nonces s),
      ss_stakes = string_map (stakes s), ss_unstake_requests = string_map (unstake_requests s),
      ss_state_hash = state_hash C s, ss_timestamp = now\<rparr>"

text \<open>One restore loop: entries whose key does not parse as an address are skipped.\<close>

definition restore_entries ::
    "crypto \<Rightarrow> ('s \<Rightarrow> address \<Rightarrow> 'v \<Rightarrow> 's) \<Rightarrow> (string \<times> 'v) list \<Rightarrow> 's \<Rightarrow> 's" where
  "restore_entries C set_entry entries s =
     foldl (\<lambda>s (k, v). case parse_address C k of Inl _ \<Rightarrow> s | Inr a \<Rightarrow> set_entry s a v) s entries"

definition insert_requests ::
    "ledger_state \<Rightarrow> address \<Rightarrow> unstake_request list \<Rightarrow> ledger_state" where
  "insert_requests s addr reqs = s\<lparr>unstake_requests := AList.update addr reqs (unstake_requests s)\<rparr>"

definition restore_from_snapshot ::
    "crypto \<Rightarrow> ledger_state \<Rightarrow> state_snapshot \<Rightarrow> ledger_state" where
  "restore_from_snapshot C s snap =
     (let s0 = s\<lparr>balances := [], nonces := [], stakes := [], unstake_requests := []\<rparr>;
          s1 = restore_entries C set_balance (ss_balances snap) s0;
          s2 = restore_entries C set_nonce (ss_nonces snap) s1;
          s3 = restore_entries C set_stake (ss_stakes snap) s2
      in restore_entries C insert_requests (ss_unstake_requests snap) s3)"

section \<open>Books of machine integers\<close>

text \<open>
  What the graph and the staking code use of a map of amounts: read, unchecked addition, checked
  subtraction, and the true total of the amounts.
\<close>

locale u64_book =
  fixes get :: "'s \<Rightarrow> 'a \<Rightarrow> u64"
    and add :: "'s \<Rightarrow> 'a \<Rightarrow> u64 \<Rightarrow> 's"
    and sub :: "'s \<Rightarrow> 'a \<Rightarrow> u64 \<Rightarrow> unit result \<times> 's"
    and tot :: "'s \<Rightarrow> nat"
  assumes get_add: "get (add s a v) b = (if b = a then get s a + v else get s b)"
    and sub_result: "fst (sub s a v) =
      (if get s a < v then Inl (InsufficientBalance (get s a) v) else Inr ())"
    and get_sub: "get (snd (sub s a v)) b =
      (if b = a \<and> v \<le> get s a then get s a - v else get s b)"
    and tot_add: "tot (add s a v) + unat (get s a) = tot s + unat (get s a + v)"
    and tot_sub: "tot (snd (sub s a v)) + unat (get s a) = tot s + unat (get (snd (sub s a v)) a)"
    and get_le_tot: "unat (get s a) \<le> tot s"
begin

lemma sub_ok: "fst (sub s a v) = Inr () \<longleftrightarrow> v \<le> get s a"
  by (auto simp: sub_result)

lemma sub_failed: "fst (sub s a v) = Inl e \<longleftrightarrow> get s a < v \<and> e = InsufficientBalance (get s a) v"
  by (auto simp: sub_result)

lemma tot_sub_failed: "get s a < v \<Longrightarrow> tot (snd (sub s a v)) = tot s"
  using tot_sub [of s a v] get_sub [of s a v a] by (simp flip: not_less)

lemma tot_sub_ok: "v \<le> get s a \<Longrightarrow> tot (snd (sub s a v)) = tot s - unat v"
  using tot_sub [of s a v] get_sub [of s a v a] get_le_tot [of s a]
  by (simp add: unat_sub_no_wrap word_le_unat)

lemma unat_le_tot: "v \<le> get s a \<Longrightarrow> unat v \<le> tot s"
  using get_le_tot [of s a] by (simp add: word_le_unat)

text \<open>While the total fits, adding never wraps.\<close>

lemma add_no_wrap:
  assumes "tot s + unat v < 2 ^ 64"
  shows "tot (add s a v) = tot s + unat v" "unat (get (add s a v) a) = unat (get s a) + unat v"
proof -
  have "unat (get s a) + unat v < 2 ^ LENGTH(64)" using assms get_le_tot [of s a] by simp
  then have "unat (get s a + v) = unat (get s a) + unat v" by (rule unat_add_no_wrap)
  then show "tot (add s a v) = tot s + unat v" "unat (get (add s a v) a) = unat (get s a) + unat v"
    using tot_add [of s a v] by (simp_all add: get_add)
qed

lemma move_keeps_total:
  assumes "tot s < 2 ^ 64" "v \<le> get s a"
  shows "tot (add (snd (sub s a v)) b v) = tot s"
  using add_no_wrap [of "snd (sub s a v)" v b] assms tot_sub_ok [OF assms(2)] unat_le_tot [OF assms(2)]
  by simp

end

text \<open>A book with a nonce per account: what a payment does to it.\<close>

locale accounts = u64_book get add sub tot
  for get :: "'s \<Rightarrow> 'a \<Rightarrow> u64" and add and sub and tot +
  fixes nonce_of :: "'s \<Rightarrow> 'a \<Rightarrow> u64"
    and incr :: "'s \<Rightarrow> 'a \<Rightarrow> 's"
  assumes nonce_incr: "nonce_of (incr s a) b = (if b = a then nonce_of s a + 1 else nonce_of s b)"
    and nonce_add: "nonce_of (add s a v) = nonce_of s"
    and nonce_sub: "nonce_of (snd (sub s a v)) = nonce_of s"
    and get_incr: "get (incr s a) = get s"
    and tot_incr: "tot (incr s a) = tot s"
begin

lemma payment_nonce:
  "nonce_of (incr (add (snd (sub s a v)) b w) a) c
     = (if c = a then nonce_of s a + 1 else nonce_of s c)"
  by (simp add: nonce_incr nonce_add nonce_sub)

text \<open>The sender loses amount and fee, the receiver gains the amount, the fee leaves the book.\<close>

lemma payment:
  fixes amt fee :: u64 and b :: 'a
  assumes "tot s < 2 ^ 64" "unat amt + unat fee < 2 ^ 64" "amt + fee \<le> get s a"
  defines "t \<equiv> incr (add (snd (sub s a (amt + fee))) b amt) a"
  shows "tot t + unat fee = tot s"
    and "unat (get t c) + (if c = a then unat amt + unat fee else 0)
      = unat (get s c) + (if c = b then unat amt else 0)"
proof -
  let ?s1 = "snd (sub s a (amt + fee))"
  have v: "unat (amt + fee) = unat amt + unat fee" using assms(2) by (simp add: unat_add_no_wrap)
  have s1: "tot ?s1 + (unat amt + unat fee) = tot s"
    using tot_sub_ok [OF assms(3)] unat_le_tot [OF assms(3)] v by simp
  then have fits: "tot ?s1 + unat amt < 2 ^ 64" using assms(1) by simp
  note add = add_no_wrap [OF fits, of b]
  show "tot t + unat fee = tot s" using s1 add(1) by (simp add: t_def tot_incr)
  have "unat (get ?s1 c) + (if c = a then unat amt + unat fee else 0) = unat (get s c)"
    using assms(3) v by (auto simp: get_sub unat_sub_no_wrap word_le_unat)
  moreover have "unat (get t c) = unat (get ?s1 c) + (if c = b then unat amt else 0)"
    using add(2) by (auto simp: t_def get_incr get_add)
  ultimately show "unat (get t c) + (if c = a then unat amt + unat fee else 0)
      = unat (get s c) + (if c = b then unat amt else 0)" by simp
qed

end

definition balance_total :: "ledger_state \<Rightarrow> nat" where
  "balance_total s = vsum unat (balances s)"

definition stake_total :: "ledger_state \<Rightarrow> nat" where
  "stake_total s = vsum unat (stakes s)"

definition pending_sum :: "unstake_request list \<Rightarrow> nat" where
  "pending_sum reqs = sum_list (map (\<lambda>r. unat (ur_amount r)) reqs)"

definition pending_total :: "ledger_state \<Rightarrow> nat" where
  "pending_total s = vsum pending_sum (unstake_requests s)"

definition ledger_total :: "ledger_state \<Rightarrow> nat" where
  "ledger_total s = balance_total s + stake_total s + pending_total s"

lemma val_or_get: "val_or unat (map_of m k) = unat (get_or 0 m k)"
  by (simp add: get_or_def split: option.split)

lemma get_or_member: "unat (get_or 0 m k) \<le> vsum unat m"
  by (auto simp: get_or_def vsum_member split: option.split)

lemma vsum_store: "vsum unat (AList.update k v m) + unat (get_or 0 m k) = vsum unat m + unat v"
  using vsum_update [of unat k v m] by (simp add: val_or_get)

interpretation balance_book: u64_book balance credit debit balance_total
  by unfold_locales
    (auto simp: balance_def credit_def debit_def balance_total_def Let_def vsum_store get_or_member
      amaps not_less leD)

interpretation stake_book: u64_book stake_balance add_stake remove_stake stake_total
  by unfold_locales
    (auto simp: stake_balance_def add_stake_def remove_stake_def stake_total_def Let_def vsum_store
      get_or_member amaps not_less leD)

section \<open>Facts about the operations\<close>

text \<open>What each operation leaves alone.\<close>

lemma credit_frame [simp]:
  "nonces (credit s a v) = nonces s" "stakes (credit s a v) = stakes s"
  "unstake_requests (credit s a v) = unstake_requests s"
  by (simp_all add: credit_def)

lemma debit_frame [simp]:
  "nonces (snd (debit s a v)) = nonces s" "stakes (snd (debit s a v)) = stakes s"
  "unstake_requests (snd (debit s a v)) = unstake_requests s"
  by (simp_all add: debit_def Let_def)

lemma increment_nonce_frame [simp]:
  "balances (increment_nonce s a) = balances s" "stakes (increment_nonce s a) = stakes s"
  "unstake_requests (increment_nonce s a) = unstake_requests s"
  by (simp_all add: increment_nonce_def)

lemma add_stake_frame [simp]:
  "balances (add_stake s a v) = balances s" "nonces (add_stake s a v) = nonces s"
  "unstake_requests (add_stake s a v) = unstake_requests s"
  by (simp_all add: add_stake_def)

lemma remove_stake_frame [simp]:
  "balances (snd (remove_stake s a v)) = balances s" "nonces (snd (remove_stake s a v)) = nonces s"
  "unstake_requests (snd (remove_stake s a v)) = unstake_requests s"
  by (simp_all add: remove_stake_def Let_def)

lemma balance_cong: "balances s = balances t \<Longrightarrow> balance s = balance t"
  by (simp add: balance_def fun_eq_iff)

lemma stake_balance_cong: "stakes s = stakes t \<Longrightarrow> stake_balance s = stake_balance t"
  by (simp add: stake_balance_def fun_eq_iff)

lemma nonce_cong: "nonces s = nonces t \<Longrightarrow> nonce s = nonce t"
  by (simp add: nonce_def fun_eq_iff)

lemma nonce_increment: "nonce (increment_nonce s a) b = (if b = a then nonce s a + 1 else nonce s b)"
  by (simp add: nonce_def increment_nonce_def amaps)

interpretation ledger_accounts: accounts balance credit debit balance_total nonce increment_nonce
  by unfold_locales
    (auto simp: nonce_increment balance_total_def intro: nonce_cong balance_cong)

text \<open>Well-formed ledgers: no map has two entries for a key.  Every operation keeps this.\<close>

definition ledger_ok :: "ledger_state \<Rightarrow> bool" where
  "ledger_ok s \<longleftrightarrow> distinct (keys (balances s)) \<and> distinct (keys (nonces s)) \<and>
     distinct (keys (stakes s)) \<and> distinct (keys (unstake_requests s))"

lemma ledger_ok_new [simp]: "ledger_ok ledger_new"
  by (simp add: ledger_ok_def ledger_new_def)

lemma ledger_ok_ops [simp]:
  assumes "ledger_ok s"
  shows "ledger_ok (credit s a v)" "ledger_ok (snd (debit s a v))" "ledger_ok (increment_nonce s a)"
    "ledger_ok (set_balance s a v)" "ledger_ok (set_nonce s a v)" "ledger_ok (set_stake s a v)"
    "ledger_ok (add_stake s a v)" "ledger_ok (snd (remove_stake s a v))"
    "ledger_ok (insert_requests s a reqs)"
  using assms
  by (simp_all add: ledger_ok_def credit_def debit_def increment_nonce_def set_balance_def
      set_nonce_def set_stake_def add_stake_def remove_stake_def insert_requests_def Let_def)

section \<open>Facts about unstaking\<close>

lemma retain_locked_filter:
  "retain_locked now e reqs =
     (sum_list (map ur_amount (filter (is_unlocked now e) reqs)),
      filter (\<lambda>r. \<not> is_unlocked now e r) reqs)"
proof -
  let ?f = "\<lambda>(u, kept) req. if is_unlocked now e req then (u + ur_amount req, kept)
      else (u, kept @ [req])"
  have "foldl ?f (u0, k0) reqs =
     (u0 + sum_list (map ur_amount (filter (is_unlocked now e) reqs)),
      k0 @ filter (\<lambda>r. \<not> is_unlocked now e r) reqs)" for u0 k0
    by (induction reqs arbitrary: u0 k0) (auto simp: ac_simps)
  then show ?thesis by (simp add: retain_locked_def)
qed

lemma pending_sum_split:
  "pending_sum reqs = pending_sum (filter P reqs) + pending_sum (filter (\<lambda>r. \<not> P r) reqs)"
  by (induction reqs) (auto simp: pending_sum_def)

lemma sum_list_unat:
  "pending_sum reqs < 2 ^ 64 \<Longrightarrow> unat (sum_list (map ur_amount reqs)) = pending_sum reqs"
proof (induction reqs)
  case (Cons r reqs)
  then have "unat (ur_amount r) + unat (sum_list (map ur_amount reqs)) < 2 ^ LENGTH(64)"
    by (simp add: pending_sum_def)
  with Cons show ?case by (simp add: pending_sum_def unat_add_no_wrap)
qed (simp add: pending_sum_def)

lemma pending_total_update:
  "pending_total (s\<lparr>unstake_requests := AList.update a reqs (unstake_requests s)\<rparr>) +
     pending_sum (unbond_requests s a) = pending_total s + pending_sum reqs"
  using vsum_update [of pending_sum a reqs "unstake_requests s"]
  by (auto simp: pending_total_def unbond_requests_def get_or_def pending_sum_def split: option.splits)

lemma unbond_requests_le: "pending_sum (unbond_requests s a) \<le> pending_total s"
  using vsum_member [of "unstake_requests s" a _ pending_sum]
  by (auto simp: unbond_requests_def get_or_def pending_total_def split: option.split)
    (simp add: pending_sum_def)

text \<open>\<open>process_unstakes\<close> in one equation per map.\<close>

lemma process_unstakes_eq:
  "process_unstakes s a now e =
    (let u = sum_list (map ur_amount (filter (is_unlocked now e) (unbond_requests s a)));
         s' = (if has_key (unstake_requests s) a
               then insert_requests s a (filter (\<lambda>r. \<not> is_unlocked now e r) (unbond_requests s a))
               else s)
     in (u, if 0 < u then credit s' a u else s'))"
  by (auto simp: process_unstakes_def retain_locked_filter unbond_requests_def get_or_def has_key_def
      insert_requests_def Let_def split: option.split)

lemma unbond_requests_insert:
  "unbond_requests (insert_requests s a reqs) b = (if b = a then reqs else unbond_requests s b)"
  by (simp add: unbond_requests_def insert_requests_def amaps)

lemma unbond_requests_credit [simp]: "unbond_requests (credit s a v) = unbond_requests s"
  by (simp add: unbond_requests_def fun_eq_iff)

lemma no_key_no_requests: "\<not> has_key (unstake_requests s) a \<Longrightarrow> unbond_requests s a = []"
  by (simp add: has_key_def unbond_requests_def get_or_def)

lemma process_unstakes_requests:
  "unbond_requests (snd (process_unstakes s a now e)) b =
     (if b = a then filter (\<lambda>r. \<not> is_unlocked now e r) (unbond_requests s a)
      else unbond_requests s b)"
  by (auto simp: process_unstakes_eq Let_def unbond_requests_insert no_key_no_requests)

lemma insert_requests_total:
  "ledger_total (insert_requests s a reqs) + pending_sum (unbond_requests s a)
     = ledger_total s + pending_sum reqs"
  using pending_total_update [where s = s and a = a and reqs = reqs]
  by (simp add: ledger_total_def insert_requests_def balance_total_def stake_total_def)

lemma credit_total:
  assumes "ledger_total s + unat v < 2 ^ 64"
  shows "ledger_total (credit s a v) = ledger_total s + unat v"
  using balance_book.add_no_wrap [where s = s and v = v and a = a] assms
  by (simp add: ledger_total_def stake_total_def pending_total_def)

section \<open>Facts about hashes and snapshots\<close>

lemma same_entries:
  assumes "distinct (keys m)" "distinct (keys m')" "map_of m = map_of m'"
  shows "mset m = mset m'"
  using assms by (metis distinct_map map_of_inject_set set_eq_iff_mset_eq_distinct)

lemma as_str_eq [simp]: "as_str a = as_str b \<longleftrightarrow> a = b"
  by (cases a; cases b) simp

lemma sorted_entries_perm:
  assumes "mset m = mset m'" "distinct (keys m)"
  shows "sorted_entries m = sorted_entries m'"
proof -
  have "distinct (map (as_str \<circ> fst) m)"
    using assms(2) by (simp add: distinct_map inj_on_def comp_def)
  then have "distinct (map fst (map (\<lambda>(a, v). (as_str a, v)) m))"
    by (simp add: comp_def split_def)
  then show ?thesis
    unfolding sorted_entries_def using assms(1) by (intro sort_key_perm) simp_all
qed

lemma u64_section_perm:
  "mset m = mset m' \<Longrightarrow> distinct (keys m) \<Longrightarrow> u64_section m = u64_section m'"
  by (simp add: u64_section_def sorted_entries_perm)

lemma unstake_section_perm:
  "mset m = mset m' \<Longrightarrow> distinct (keys m) \<Longrightarrow> unstake_section m = unstake_section m'"
  by (simp add: unstake_section_def sorted_entries_perm)

text \<open>Two ledgers hold the same accounts when their maps agree, in whatever entry order.\<close>

definition same_accounts :: "ledger_state \<Rightarrow> ledger_state \<Rightarrow> bool" where
  "same_accounts s t \<longleftrightarrow> map_of (balances s) = map_of (balances t) \<and>
     map_of (nonces s) = map_of (nonces t) \<and> map_of (stakes s) = map_of (stakes t) \<and>
     map_of (unstake_requests s) = map_of (unstake_requests t)"

lemma state_hash_same:
  assumes "ledger_ok s" "ledger_ok t" "same_accounts s t"
  shows "state_hash C s = state_hash C t"
  using assms
  by (auto simp: state_hash_def ledger_ok_def same_accounts_def
      intro!: arg_cong [where f = "sha3_256 C"] arg_cong2 [where f = "(@)"]
        u64_section_perm unstake_section_perm same_entries)

lemma keys_as_str: "map fst (map (\<lambda>(a, v). (as_str a, v)) m) = map as_str (keys m)"
  by (induction m) auto

lemma map_of_as_str: "map_of (map (\<lambda>(a, v). (as_str a, v)) m) (as_str a) = map_of m a"
  by (induction m) auto

lemma distinct_as_str: "distinct (map as_str ks) \<longleftrightarrow> distinct ks"
  by (simp add: distinct_map inj_on_def)

lemma map_of_string_map: "distinct (keys m) \<Longrightarrow> map_of (string_map m) (as_str a) = map_of m a"
  unfolding string_map_def
  by (subst map_of_bt_collect) (simp_all only: keys_as_str distinct_as_str map_of_as_str)

lemma distinct_string_map: "distinct (keys (string_map m))"
  using sorted_bt_collect [of "map (\<lambda>(a, v). (as_str a, v)) m"]
  by (simp add: string_map_def strict_sorted_iff)

text \<open>The restore loop on one map.\<close>

definition restored :: "crypto \<Rightarrow> (string \<times> 'v) list \<Rightarrow> (address \<times> 'v) list \<Rightarrow> (address \<times> 'v) list" where
  "restored C es m =
     foldl (\<lambda>m (k, v). case parse_address C k of Inl _ \<Rightarrow> m | Inr a \<Rightarrow> AList.update a v m) m es"

lemma restore_entries_lift:
  assumes "\<And>s a v. set_entry s a v = upd (AList.update a v (get s)) s"
    and "\<And>s. upd (get s) s = s" "\<And>x s. get (upd x s) = x" "\<And>x y s. upd x (upd y s) = upd x s"
  shows "restore_entries C set_entry es s = upd (restored C es (get s)) s"
  unfolding restore_entries_def restored_def
  by (induction es arbitrary: s) (auto simp: assms split: sum.split)

lemma restore_entries_maps:
  "restore_entries C set_balance es s = s\<lparr>balances := restored C es (balances s)\<rparr>"
  "restore_entries C set_nonce es s = s\<lparr>nonces := restored C es (nonces s)\<rparr>"
  "restore_entries C set_stake es s = s\<lparr>stakes := restored C es (stakes s)\<rparr>"
  "restore_entries C insert_requests es' s =
     s\<lparr>unstake_requests := restored C es' (unstake_requests s)\<rparr>"
  by (rule restore_entries_lift;
      simp add: set_balance_def set_nonce_def set_stake_def insert_requests_def)+

lemma parse_address_Inr: "parse_address C k = Inr a \<longleftrightarrow> validate_address C k = Inr () \<and> a = Address k"
  by (auto simp: parse_address_def try_then_Inr)

lemma map_of_restored:
  assumes "distinct (keys es)"
  shows "map_of (restored C es m) a =
    (case map_of es (as_str a) of
       None \<Rightarrow> map_of m a
     | Some v \<Rightarrow> if validate_address C (as_str a) = Inr () then Some v else map_of m a)"
  using assms
proof (induction es arbitrary: m)
  case Nil
  show ?case by (simp add: restored_def)
next
  case (Cons e es)
  obtain k v where e: "e = (k, v)" by (cases e)
  let ?m = "case parse_address C k of Inl _ \<Rightarrow> m | Inr a \<Rightarrow> AList.update a v m"
  have step: "restored C ((k, v) # es) m = restored C es ?m" by (simp add: restored_def e)
  have m: "map_of ?m a = (if k = as_str a \<and> validate_address C k = Inr () then Some v else map_of m a)"
  proof (cases "parse_address C k")
    case (Inl x)
    then have "validate_address C k \<noteq> Inr ()" by (auto simp: parse_address_def)
    with Inl show ?thesis by simp
  next
    case (Inr b)
    with parse_address_Inr [of C k b] show ?thesis by (cases "k = as_str a") (auto simp: map_of_update)
  qed
  have "k = as_str a \<Longrightarrow> map_of es (as_str a) = None"
    using Cons.prems by (simp add: e map_of_eq_None_iff)
  with Cons show ?case by (auto simp: step m e split: option.split)
qed

lemma distinct_restored: "distinct (keys m) \<Longrightarrow> distinct (keys (restored C es m))"
  unfolding restored_def
  by (induction es arbitrary: m) (auto split: sum.split intro: AList.distinct_update)

lemma restored_string_map:
  assumes "distinct (keys m)"
  shows "map_of (restored C (string_map m) []) a =
    (if validate_address C (as_str a) = Inr () then map_of m a else None)"
  using assms
  by (cases "map_of m a") (simp_all add: map_of_restored distinct_string_map map_of_string_map)

lemma restored_string_map_valid:
  assumes "distinct (keys m)" "\<forall>a\<in>set (keys m). validate_address C (as_str a) = Inr ()"
  shows "map_of (restored C (string_map m) []) = map_of m"
proof
  fix a
  show "map_of (restored C (string_map m) []) a = map_of m a"
    using assms by (cases "map_of m a") (auto simp: restored_string_map dest: map_of_SomeD)
qed

lemma restore_from_snapshot_maps:
  "restore_from_snapshot C s0 (create_snapshot C now s) =
     s0\<lparr>balances := restored C (string_map (balances s)) [],
        nonces := restored C (string_map (nonces s)) [],
        stakes := restored C (string_map (stakes s)) [],
        unstake_requests := restored C (string_map (unstake_requests s)) []\<rparr>"
  by (simp add: restore_from_snapshot_def create_snapshot_def restore_entries_maps Let_def)

lemma remove_stake_cases:
  obtains (failed) "stake_balance s a < v"
      "remove_stake s a v = (Inl (InsufficientBalance (stake_balance s a) v), snd (remove_stake s a v))"
      "stake_total (snd (remove_stake s a v)) = stake_total s"
    | (removed) "v \<le> stake_balance s a" "remove_stake s a v = (Inr (), snd (remove_stake s a v))"
      "stake_total (snd (remove_stake s a v)) + unat v = stake_total s"
proof (cases "stake_balance s a < v")
  case True
  with stake_book.sub_result [of s a v] stake_book.tot_sub_failed [OF True] show ?thesis
    by (intro failed) (simp_all add: prod_eq_iff)
next
  case False
  then have le: "v \<le> stake_balance s a" by simp
  with stake_book.sub_result [of s a v] stake_book.tot_sub_ok [OF le] stake_book.unat_le_tot [OF le]
  show ?thesis by (intro removed) (simp_all add: prod_eq_iff not_less)
qed

lemma balance_remove_stake [simp]: "balance (snd (remove_stake s a v)) = balance s"
  by (rule balance_cong) simp

lemma unbond_requests_remove_stake [simp]:
  "unbond_requests (snd (remove_stake s a v)) = unbond_requests s"
  by (simp add: unbond_requests_def fun_eq_iff)

lemma remove_stake_totals [simp]:
  "balance_total (snd (remove_stake s a v)) = balance_total s"
  "pending_total (snd (remove_stake s a v)) = pending_total s"
  by (simp_all add: balance_total_def pending_total_def)

lemma request_unstake_eq:
  "request_unstake s a v now e =
    (case remove_stake s a v of
       (Inl x, s') \<Rightarrow> (Inl x, s')
     | (Inr _, s') \<Rightarrow> (Inr (), insert_requests s' a (unbond_requests s a @
         [\<lparr>ur_amount = v, ur_unlock_time_ms = now + LOCK_MS, ur_unlock_epoch = e + 10\<rparr>])))"
  using unbond_requests_remove_stake [of s a v]
  by (cases "remove_stake s a v")
    (simp add: request_unstake_def insert_requests_def Let_def split: sum.split)

lemma matured_sum:
  assumes "ledger_total s < 2 ^ 64"
  shows "unat (sum_list (map ur_amount (filter P (unbond_requests s a))))
    = pending_sum (filter P (unbond_requests s a))"
  using assms unbond_requests_le [of s a] pending_sum_split [of "unbond_requests s a" P]
  by (intro sum_list_unat) (simp add: ledger_total_def)

lemma process_unstakes_total:
  assumes "ledger_total s < 2 ^ 64"
  shows "ledger_total (snd (process_unstakes s a now e)) = ledger_total s"
proof -
  let ?R = "unbond_requests s a"
  let ?u = "sum_list (map ur_amount (filter (is_unlocked now e) ?R))"
  let ?s = "if has_key (unstake_requests s) a
    then insert_requests s a (filter (\<lambda>r. \<not> is_unlocked now e r) ?R) else s"
  have u: "unat ?u = pending_sum (filter (is_unlocked now e) ?R)" by (rule matured_sum [OF assms])
  have s: "ledger_total ?s + unat ?u = ledger_total s"
    using insert_requests_total [of s a "filter (\<lambda>r. \<not> is_unlocked now e r) ?R"]
      pending_sum_split [of ?R "is_unlocked now e"] u
    by (auto simp: no_key_no_requests pending_sum_def)
  have "ledger_total (credit ?s a ?u) = ledger_total ?s + unat ?u"
    using s assms by (intro credit_total) simp
  with s show ?thesis
    by (cases "?u = 0") (simp_all add: process_unstakes_eq Let_def word_gt_0)
qed

lemma update_same: "map_of m k = Some v \<Longrightarrow> AList.update k v m = m"
  by (induction m) (auto split: if_splits)

lemma process_unstakes_again:
  "process_unstakes (snd (process_unstakes s a now e)) a now e
     = (0, snd (process_unstakes s a now e))"
proof -
  let ?t = "snd (process_unstakes s a now e)"
  have R: "unbond_requests ?t a = filter (\<lambda>r. \<not> is_unlocked now e r) (unbond_requests s a)"
    by (simp add: process_unstakes_requests)
  have "has_key (unstake_requests ?t) a \<Longrightarrow> insert_requests ?t a (unbond_requests ?t a) = ?t"
    by (auto simp: insert_requests_def unbond_requests_def get_or_def has_key_def update_same
        split: option.splits)
  then show ?thesis
    by (subst process_unstakes_eq) (simp add: R Let_def comp_def)
qed

lemma total_circulating_unat: "unat (total_circulating s) = ledger_total s mod 2 ^ 64"
proof -
  have "vsum (\<lambda>v. v) m = (of_nat (vsum unat m) :: u64)" for m :: "(address \<times> u64) list"
    using vsum_unat [of "\<lambda>v. v" m] by simp
  moreover have "sum_list (map ur_amount reqs) = (of_nat (pending_sum reqs) :: u64)" for reqs
    by (induction reqs) (simp_all add: pending_sum_def)
  then have "vsum (\<lambda>reqs. sum_list (map ur_amount reqs)) m = (of_nat (vsum pending_sum m) :: u64)"
    for m :: "(address \<times> unstake_request list) list"
    by (induction m) simp_all
  ultimately have "total_circulating s = of_nat (ledger_total s)"
    by (simp add: total_circulating_def ledger_total_def balance_total_def stake_total_def
        pending_total_def)
  then show ?thesis by (simp add: unat_of_nat)
qed

section \<open>A concrete ledger\<close>

definition demo_ledger :: ledger_state where
  "demo_ledger =
     \<lparr>balances = [(Address ''A'', 5)], nonces = [(Address ''A'', 2)],
      stakes = [(Address ''A'', 7)],
      unstake_requests = [(Address ''A'',
        [\<lparr>ur_amount = 3, ur_unlock_time_ms = 10, ur_unlock_epoch = 100\<rparr>,
         \<lparr>ur_amount = 4, ur_unlock_time_ms = 50, ur_unlock_epoch = 100\<rparr>])]\<rparr>"

lemma demo_ledger_ok [simp]: "ledger_ok demo_ledger"
  by (simp add: ledger_ok_def demo_ledger_def)

lemma demo_ledger_total: "ledger_total demo_ledger = 19"
  by (simp add: ledger_total_def balance_total_def stake_total_def pending_total_def pending_sum_def
      demo_ledger_def)

lemma demo_balance: "unat (balance demo_ledger (Address ''A'')) = 5"
  by (simp add: balance_def demo_ledger_def get_or_def)

lemma demo_matured:
  "pending_sum (filter (is_unlocked 10 0) (unbond_requests demo_ledger (Address ''A''))) = 3"
  by (simp add: unbond_requests_def demo_ledger_def get_or_def is_unlocked_def pending_sum_def)

section \<open>Properties\<close>

text \<open>\<open>total_circulating\<close> is the true sum of balances, stakes and pending unstakes, reduced
  modulo \<open>2 ^ 64\<close>; so it is exact while the supply fits a \<open>u64\<close>.\<close>

theorem total_circulating_exact: "unat (total_circulating s) = ledger_total s mod 2 ^ 64"
  by (rule total_circulating_unat)

text \<open>\<open>request_unstake\<close> never creates or loses funds; it succeeds exactly when the stake covers
  the amount, and then it moves the amount from the stake to the end of the address's queue,
  locked for 30 days or 10 epochs.  When it fails every account is as before.\<close>

theorem request_unstake_conserves:
  "let (r, t) = request_unstake s a v now e in
     ledger_total t = ledger_total s \<and> balance t = balance s \<and> (r = Inr () \<longleftrightarrow> v \<le> stake_balance s a) \<and>
     (if v \<le> stake_balance s a
      then stake_balance t = (stake_balance s)(a := stake_balance s a - v) \<and>
           unbond_requests t = (unbond_requests s)(a := unbond_requests s a @
             [\<lparr>ur_amount = v, ur_unlock_time_ms = now + LOCK_MS, ur_unlock_epoch = e + 10\<rparr>])
      else stake_balance t = stake_balance s \<and> unbond_requests t = unbond_requests s)"
proof -
  have st: "stake_balance (snd (remove_stake s a v)) b =
      (if b = a \<and> v \<le> stake_balance s a then stake_balance s a - v else stake_balance s b)" for b
    by (rule stake_book.get_sub)
  show ?thesis
  proof (cases rule: remove_stake_cases [of s a v])
    case failed
    have "request_unstake s a v now e =
        (Inl (InsufficientBalance (stake_balance s a) v), snd (remove_stake s a v))"
      by (subst request_unstake_eq, subst failed(2)) simp
    with failed(1,3) st show ?thesis
      by (simp add: ledger_total_def fun_eq_iff flip: not_less)
  next
    case removed
    let ?q = "unbond_requests s a @
      [\<lparr>ur_amount = v, ur_unlock_time_ms = now + LOCK_MS, ur_unlock_epoch = e + 10\<rparr>]"
    let ?t = "insert_requests (snd (remove_stake s a v)) a ?q"
    have eq: "request_unstake s a v now e = (Inr (), ?t)"
      by (subst request_unstake_eq, subst removed(2)) simp
    have "ledger_total ?t = ledger_total s"
      using insert_requests_total [of "snd (remove_stake s a v)" a ?q] removed(3)
      by (simp add: ledger_total_def pending_sum_def)
    moreover have "balance ?t = balance s" "stake_balance ?t = stake_balance (snd (remove_stake s a v))"
      by (simp_all add: insert_requests_def balance_def stake_balance_def fun_eq_iff)
    ultimately show ?thesis using removed(1) st
      by (auto simp: eq unbond_requests_insert fun_eq_iff)
  qed
qed

text \<open>C32: \<open>process_unstakes\<close> pays exactly the matured requests of the address, once, in every ledger whose
  funds (all balances, stakes and pending unstakes) sum to less than \<open>2 ^ 64\<close>: it credits
  their sum without wrapping, keeps the locked ones in order, leaves every other queue alone,
  conserves the total, and a second call at the same time pays nothing and changes nothing.\<close>

theorem process_unstakes_exact:
  assumes "ledger_total s < 2 ^ 64"
  shows "let (u, t) = process_unstakes s a now e in
    unat u = pending_sum (filter (is_unlocked now e) (unbond_requests s a)) \<and>
    unat (balance t a) = unat (balance s a) + unat u \<and>
    unbond_requests t =
      (unbond_requests s)(a := filter (\<lambda>r. \<not> is_unlocked now e r) (unbond_requests s a)) \<and>
    ledger_total t = ledger_total s \<and> process_unstakes t a now e = (0, t)"
proof -
  let ?R = "unbond_requests s a"
  let ?u = "sum_list (map ur_amount (filter (is_unlocked now e) ?R))"
  let ?s = "if has_key (unstake_requests s) a
    then insert_requests s a (filter (\<lambda>r. \<not> is_unlocked now e r) ?R) else s"
  have eq: "process_unstakes s a now e = (?u, if 0 < ?u then credit ?s a ?u else ?s)"
    by (simp add: process_unstakes_eq Let_def)
  have u: "unat ?u = pending_sum (filter (is_unlocked now e) ?R)" by (rule matured_sum [OF assms])
  have b: "balance_total ?s = balance_total s" "balance ?s = balance s"
    by (simp_all add: insert_requests_def balance_total_def balance_def fun_eq_iff)
  have "unat (balance (credit ?s a ?u) a) = unat (balance ?s a) + unat ?u"
    using assms b(1) u unbond_requests_le [of s a] pending_sum_split [of ?R "is_unlocked now e"]
    by (intro balance_book.add_no_wrap) (simp add: ledger_total_def)
  then have bal: "unat (balance (snd (process_unstakes s a now e)) a) = unat (balance s a) + unat ?u"
    using b(2) by (cases "?u = 0") (simp_all add: eq word_gt_0)
  show ?thesis
    using process_unstakes_again [of s a now e] process_unstakes_total [OF assms, of a now e] bal u
      process_unstakes_requests [of s a now e]
    by (simp add: case_prod_beta fun_eq_iff) (simp add: eq)
qed

theorem process_unstakes_exact_witness:
  "unat (fst (process_unstakes demo_ledger (Address ''A'') 10 0)) = 3 \<and>
   unat (balance (snd (process_unstakes demo_ledger (Address ''A'') 10 0)) (Address ''A'')) = 8 \<and>
   ledger_total (snd (process_unstakes demo_ledger (Address ''A'') 10 0)) = 19"
  using process_unstakes_exact [of demo_ledger "Address ''A''" 10 0]
  by (simp add: demo_ledger_total demo_balance demo_matured case_prod_beta)

text \<open>The state hash depends on the accounts only: two ledgers whose maps agree have the same
  hash, whatever the iteration orders of their hash maps.\<close>

theorem state_hash_order_independent:
  assumes "ledger_ok s" "ledger_ok t" "same_accounts s t"
  shows "state_hash C s = state_hash C t"
  using assms by (rule state_hash_same)

theorem state_hash_order_independent_witness:
  "state_hash demo_crypto (demo_ledger\<lparr>balances := [(Address ''A'', 5), (Address ''B'', 6)]\<rparr>)
     = state_hash demo_crypto (demo_ledger\<lparr>balances := [(Address ''B'', 6), (Address ''A'', 5)]\<rparr>)"
  by (rule state_hash_order_independent)
    (auto simp: ledger_ok_def same_accounts_def demo_ledger_def fun_eq_iff)

text \<open>C33: Restoring a snapshot, into any ledger, gives back every account and the recorded state
  hash, provided every address of the ledger is a valid one.\<close>

theorem snapshot_roundtrip:
  assumes "ledger_ok s"
    and "\<forall>a \<in> set (keys (balances s) @ keys (nonces s) @ keys (stakes s) @ keys (unstake_requests s)).
      validate_address C (as_str a) = Inr ()"
  shows "same_accounts (restore_from_snapshot C s0 (create_snapshot C now s)) s \<and>
    state_hash C (restore_from_snapshot C s0 (create_snapshot C now s))
      = ss_state_hash (create_snapshot C now s)"
proof -
  let ?t = "restore_from_snapshot C s0 (create_snapshot C now s)"
  have "same_accounts ?t s"
    using assms by (simp add: same_accounts_def restore_from_snapshot_maps restored_string_map_valid
        ledger_ok_def)
  moreover have "ledger_ok ?t"
    by (simp add: ledger_ok_def restore_from_snapshot_maps distinct_restored)
  ultimately show ?thesis
    using state_hash_same [OF _ assms(1)] by (simp add: create_snapshot_def)
qed

theorem snapshot_roundtrip_witness:
  "same_accounts (restore_from_snapshot demo_crypto demo_ledger
       (create_snapshot demo_crypto 9 (credit ledger_new (genesis_address demo_crypto) 4)))
     (credit ledger_new (genesis_address demo_crypto) 4)"
proof -
  let ?s = "credit ledger_new (genesis_address demo_crypto) 4"
  have "\<forall>a \<in> set (keys (balances ?s) @ keys (nonces ?s) @ keys (stakes ?s) @
      keys (unstake_requests ?s)). validate_address demo_crypto (as_str a) = Inr ()"
    by (simp add: credit_def ledger_new_def genesis_address_raw validate_raw_address)
  then show ?thesis by (intro conjunct1 [OF snapshot_roundtrip]) simp_all
qed

text \<open>An account whose address does not validate is lost by a restore: its balance reads 0
  afterwards.  Transfers do not validate their receiver, so such accounts can hold funds.\<close>

theorem snapshot_drops_invalid_addresses:
  assumes "ledger_ok s" "validate_address C (as_str a) \<noteq> Inr ()"
  shows "balance (restore_from_snapshot C s0 (create_snapshot C now s)) a = 0"
  using assms
  by (simp add: balance_def get_or_def restore_from_snapshot_maps ledger_ok_def restored_string_map)

theorem snapshot_drops_invalid_addresses_witness:
  "balance demo_ledger (Address ''A'') = 5 \<and>
   balance (restore_from_snapshot demo_crypto demo_ledger
     (create_snapshot demo_crypto 9 demo_ledger)) (Address ''A'') = 0"
proof -
  have "validate_address demo_crypto (as_str (Address ''A'')) \<noteq> Inr ()"
    by (simp add: validate_address_def demo_crypto_def)
  from snapshot_drops_invalid_addresses [OF demo_ledger_ok this] show ?thesis
    by (simp add: balance_def [of demo_ledger]) (simp add: demo_ledger_def get_or_def)
qed

text \<open>The sections of the hashed byte string are not separated: a ledger with a balance of
  one base unit and a ledger with a nonce of one have the same state hash.\<close>

theorem state_hash_sections_collide:
  "state_hash C (credit ledger_new a 1) = state_hash C (increment_nonce ledger_new a) \<and>
   balance (credit ledger_new a 1) a \<noteq> balance (increment_nonce ledger_new a) a"
  by (simp add: state_hash_def credit_def increment_nonce_def ledger_new_def u64_section_def
      unstake_section_def sorted_entries_def balance_def get_or_def)

end
