(* ===== verification/Tokens.thy ===== *)
theory Tokens
  imports Errors
begin

text \<open>
  \<open>relyo-core/src/constants.rs\<close> and \<open>token.rs\<close>: protocol constants, the token configuration,
  whole-unit conversion and printing of amounts.  The conversions through \<open>f64\<close>
  (\<open>rly_to_base\<close>, \<open>base_to_rly\<close>) are not modelled.
\<close>

definition RLY_DECIMALS :: u8 where "RLY_DECIMALS = 8"
definition RLY_UNIT :: u64 where "RLY_UNIT = 100000000"
definition TOTAL_SUPPLY :: u64 where "TOTAL_SUPPLY = 25000000000 * RLY_UNIT"
definition DUST_THRESHOLD :: u64 where "DUST_THRESHOLD = 1000"
definition COINBASE_MATURITY :: u64 where "COINBASE_MATURITY = 100"
definition EMISSION_YEARS :: u32 where "EMISSION_YEARS = 256"
definition MIN_DAG_PARENTS :: nat where "MIN_DAG_PARENTS = 2"
definition MAX_MEMO_BYTES :: nat where "MAX_MEMO_BYTES = 256"
definition EPOCH_DEPTH :: u64 where "EPOCH_DEPTH = 10000"
definition DECAY_FACTOR_BPS :: u64 where "DECAY_FACTOR_BPS = 9990"
definition PROTOCOL_VERSION :: u8 where "PROTOCOL_VERSION = 1"
definition MAX_TX_SIZE :: nat where "MAX_TX_SIZE = 100000"
definition CHAIN_ID :: u32 where "CHAIN_ID = 1"

record token_config =
  tc_name :: string
  tc_ticker :: string
  tc_total_supply :: u64
  tc_decimals :: u8
  base_fee :: u64
  validator_fee_share_bps :: u16
  daily_reward_emission :: u64
  reward_timeline_years :: u32

definition RELYO_CONFIG :: token_config where
  "RELYO_CONFIG =
     \<lparr>tc_name = ''Relyo'', tc_ticker = ''RLY'',
      tc_total_supply = 25000000000 * RLY_UNIT, tc_decimals = RLY_DECIMALS,
      base_fee = RLY_UNIT div 100, validator_fee_share_bps = 10000,
      daily_reward_emission = 187500 * RLY_UNIT, reward_timeline_years = 256\<rparr>"

definition rly_whole_to_base :: "u64 \<Rightarrow> u64" where
  "rly_whole_to_base rly = sat_mul rly RLY_UNIT"

text \<open>\<open>trim_end_matches(c)\<close>, and the zero padding of \<open>{:08}\<close>.\<close>

definition trim_end_matches :: "char \<Rightarrow> string \<Rightarrow> string" where
  "trim_end_matches c s = rev (dropWhile (\<lambda>d. d = c) (rev s))"

definition pad_zeros :: "nat \<Rightarrow> string \<Rightarrow> string" where
  "pad_zeros n s = replicate (n - length s) (CHR ''0'') @ s"

definition format_rly :: "u64 \<Rightarrow> string" where
  "format_rly base =
     (let whole = base div RLY_UNIT; frac = base mod RLY_UNIT in
      if frac = 0 then show_word whole @ '' RLY''
      else let s = show_word whole @ ''.'' @ pad_zeros 8 (show_word frac)
           in trim_end_matches (CHR ''.'') (trim_end_matches (CHR ''0'') s) @ '' RLY'')"

section \<open>Facts\<close>

lemma RLY_UNIT_unat [simp]: "unat RLY_UNIT = 100000000"
  by (simp add: RLY_UNIT_def)

lemma TOTAL_SUPPLY_num: "TOTAL_SUPPLY = 2500000000000000000"
  by (simp add: TOTAL_SUPPLY_def RLY_UNIT_def)

lemma TOTAL_SUPPLY_unat [simp]: "unat TOTAL_SUPPLY = 2500000000000000000"
  by (simp add: TOTAL_SUPPLY_num)

lemma base_fee_num: "base_fee RELYO_CONFIG = 1000000"
  by (simp add: RELYO_CONFIG_def RLY_UNIT_def)

lemma base_fee_unat [simp]: "unat (base_fee RELYO_CONFIG) = 1000000"
  by (simp add: base_fee_num)

lemma tc_total_supply_num: "tc_total_supply RELYO_CONFIG = TOTAL_SUPPLY"
  by (simp add: RELYO_CONFIG_def TOTAL_SUPPLY_def)

end
