(* ===== verification/Transactions.thy ===== *)
theory Transactions
  imports Addresses Tokens
begin

text \<open>
  \<open>relyo-core/src/transaction.rs\<close>: transaction hashes, the transaction record, its signed byte
  string, its checks, the builder and batch verification.  Record fields carry the prefix
  \<open>tx_\<close> (\<open>b_\<close> in the builder); the serde helpers are left out.
\<close>

datatype transaction_hash = TransactionHash (hash_bytes: bytes)

definition zero_hash :: transaction_hash where
  "zero_hash = TransactionHash (replicate 32 0)"

definition is_zero :: "transaction_hash \<Rightarrow> bool" where
  "is_zero h = (hash_bytes h = replicate 32 0)"

definition to_hex :: "crypto \<Rightarrow> transaction_hash \<Rightarrow> string" where
  "to_hex C h = hex_encode C (hash_bytes h)"

definition from_hex :: "crypto \<Rightarrow> string \<Rightarrow> transaction_hash result" where
  "from_hex C s =
     (case hex_decode C s of
        Inl e \<Rightarrow> Inl (Serialization e)
      | Inr bs \<Rightarrow>
          if length bs = 32 then Inr (TransactionHash bs)
          else Inl (InvalidTransaction ''invalid hash length''))"

datatype transaction_status = Pending | Voting | Confirmed | Rejected

datatype transaction_type = Transfer | Stake | Unstake | Slash | Reward | Genesis | ContractCall

text \<open>\<open>tx_type as u8\<close>.\<close>

fun type_tag :: "transaction_type \<Rightarrow> u8" where
  "type_tag Transfer = 0"
| "type_tag Stake = 1"
| "type_tag Unstake = 2"
| "type_tag Slash = 3"
| "type_tag Reward = 4"
| "type_tag Genesis = 5"
| "type_tag ContractCall = 6"

datatype transaction_priority = Low | Normal | High | Critical

fun priority_rank :: "transaction_priority \<Rightarrow> nat" where
  "priority_rank Low = 0"
| "priority_rank Normal = 1"
| "priority_rank High = 2"
| "priority_rank Critical = 3"

lemma priority_rank_inj [simp]: "priority_rank p = priority_rank q \<longleftrightarrow> p = q"
  by (cases p; cases q) simp_all

instantiation transaction_priority :: linorder
begin

definition less_eq_transaction_priority ::
    "transaction_priority \<Rightarrow> transaction_priority \<Rightarrow> bool" where
  "less_eq_transaction_priority p q \<longleftrightarrow> priority_rank p \<le> priority_rank q"

definition less_transaction_priority ::
    "transaction_priority \<Rightarrow> transaction_priority \<Rightarrow> bool" where
  "less_transaction_priority p q \<longleftrightarrow> priority_rank p < priority_rank q"

instance
  by standard (auto simp: less_eq_transaction_priority_def less_transaction_priority_def)

end

fun fee_multiplier :: "transaction_priority \<Rightarrow> u64" where
  "fee_multiplier Low = 1"
| "fee_multiplier Normal = 2"
| "fee_multiplier High = 5"
| "fee_multiplier Critical = 10"

definition from_fee :: "u64 \<Rightarrow> transaction_priority" where
  "from_fee fee =
     (let base = base_fee RELYO_CONFIG in
      if fee \<ge> base * 10 then Critical
      else if fee \<ge> base * 5 then High
      else if fee \<ge> base * 2 then Normal
      else Low)"

record transaction =
  tx_type :: transaction_type
  tx_sender :: address
  tx_receiver :: address
  tx_amount :: u64
  tx_fee :: u64
  tx_timestamp :: u64
  tx_nonce :: u64
  tx_parent_1 :: transaction_hash
  tx_parent_2 :: transaction_hash
  tx_sender_pubkey :: public_key
  tx_signature :: signature
  tx_data :: bytes

definition data_section :: "bytes \<Rightarrow> bytes" where
  "data_section d = (if d \<noteq> [] then le_bytes 4 (of_nat (length d) :: u32) @ d else [])"

definition signable_bytes :: "transaction \<Rightarrow> bytes" where
  "signable_bytes tx =
     [type_tag (tx_type tx)] @
     string_bytes (as_str (tx_sender tx)) @
     string_bytes (as_str (tx_receiver tx)) @
     le_bytes 8 (tx_amount tx) @
     le_bytes 8 (tx_fee tx) @
     le_bytes 8 (tx_timestamp tx) @
     le_bytes 8 (tx_nonce tx) @
     hash_bytes (tx_parent_1 tx) @
     hash_bytes (tx_parent_2 tx) @
     pk_bytes (tx_sender_pubkey tx) @
     le_bytes 4 CHAIN_ID @
     data_section (tx_data tx)"

definition tx_hash :: "crypto \<Rightarrow> transaction \<Rightarrow> transaction_hash" where
  "tx_hash C tx =
     TransactionHash (sha3_256_multi C [signable_bytes tx, sig_bytes (tx_signature tx)])"

definition verify_signature :: "crypto \<Rightarrow> transaction \<Rightarrow> unit result" where
  "verify_signature C tx = verify C (tx_sender_pubkey tx) (signable_bytes tx) (tx_signature tx)"

definition verify_sender :: "crypto \<Rightarrow> transaction \<Rightarrow> unit result" where
  "verify_sender C tx =
     (if from_public_key C (tx_sender_pubkey tx) \<noteq> tx_sender tx
      then Inl (InvalidTransaction ''sender address does not match public key'')
      else Inr ())"

definition is_genesis :: "transaction \<Rightarrow> bool" where
  "is_genesis tx \<longleftrightarrow>
     tx_type tx = Genesis \<and> is_zero (tx_parent_1 tx) \<and> is_zero (tx_parent_2 tx)"

definition validate :: "crypto \<Rightarrow> transaction \<Rightarrow> unit result" where
  "validate C tx =
     try_then (verify_sender C tx) (\<lambda>_.
     try_then (verify_signature C tx) (\<lambda>_.
     if tx_amount tx = 0 \<and> tx_type tx = Transfer
       then Inl (InvalidTransaction ''transfer amount must be greater than zero'')
     else if tx_sender tx = tx_receiver tx \<and> tx_type tx = Transfer
       then Inl (InvalidTransaction ''sender and receiver must differ for transfers'')
     else if tx_fee tx < base_fee RELYO_CONFIG \<and> \<not> is_genesis tx
       then Inl (InvalidTransaction ''fee below minimum base fee'')
     else Inr ()))"

definition priority :: "transaction \<Rightarrow> transaction_priority" where
  "priority tx = from_fee (tx_fee tx)"

definition weight :: "transaction \<Rightarrow> u64" where
  "weight tx =
     (let size = (of_nat (length (signable_bytes tx)) :: u64) + 64 in
      if size = 0 then tx_fee tx else sat_mul (tx_fee tx) 1000 div size)"

definition total_cost :: "transaction \<Rightarrow> u64" where
  "total_cost tx = sat_add (tx_amount tx) (tx_fee tx)"

record transaction_receipt =
  rc_hash :: transaction_hash
  rc_status :: transaction_status
  rc_dag_depth :: u64
  rc_cumulative_weight :: u64
  rc_timestamp :: u64
  rc_finalized_at :: u64
  rc_consensus_rounds :: u32

section \<open>The builder\<close>

record transaction_builder =
  b_tx_type :: transaction_type
  b_sender :: address
  b_receiver :: address
  b_amount :: u64
  b_fee :: u64
  b_nonce :: u64
  b_parent_1 :: transaction_hash
  b_parent_2 :: transaction_hash
  b_data :: bytes

definition builder_new ::
    "address \<Rightarrow> address \<Rightarrow> u64 \<Rightarrow> u64 \<Rightarrow> u64 \<Rightarrow> transaction_builder" where
  "builder_new from to amt fee nonce =
     \<lparr>b_tx_type = Transfer, b_sender = from, b_receiver = to, b_amount = amt, b_fee = fee,
      b_nonce = nonce, b_parent_1 = zero_hash, b_parent_2 = zero_hash, b_data = []\<rparr>"

definition builder_tx_type :: "transaction_type \<Rightarrow> transaction_builder \<Rightarrow> transaction_builder" where
  "builder_tx_type t b = b\<lparr>b_tx_type := t\<rparr>"

definition builder_parents ::
    "transaction_hash \<Rightarrow> transaction_hash \<Rightarrow> transaction_builder \<Rightarrow> transaction_builder" where
  "builder_parents p1 p2 b = b\<lparr>b_parent_1 := p1, b_parent_2 := p2\<rparr>"

definition builder_with_data :: "bytes \<Rightarrow> transaction_builder \<Rightarrow> transaction_builder" where
  "builder_with_data d b = b\<lparr>b_data := d\<rparr>"

text \<open>\<open>TransactionBuilder::sign\<close>; \<open>now\<close> is the clock's reading in milliseconds.\<close>

definition builder_sign ::
    "crypto \<Rightarrow> u64 \<Rightarrow> keypair \<Rightarrow> transaction_builder \<Rightarrow> transaction" where
  "builder_sign C now kp b =
     (let tx = \<lparr>tx_type = b_tx_type b, tx_sender = b_sender b, tx_receiver = b_receiver b,
                tx_amount = b_amount b, tx_fee = b_fee b, tx_timestamp = now,
                tx_nonce = b_nonce b, tx_parent_1 = b_parent_1 b, tx_parent_2 = b_parent_2 b,
                tx_sender_pubkey = kp_public_key kp,
                tx_signature = Signature (replicate 64 0), tx_data = b_data b\<rparr>;
          msg = signable_bytes tx
      in tx\<lparr>tx_signature := sign C kp msg\<rparr>)"

definition batch_verify_transactions :: "crypto \<Rightarrow> transaction list \<Rightarrow> unit result" where
  "batch_verify_transactions C txs =
     (let invalid =
        foldl (\<lambda>n tx. if \<not> is_ok (verify_signature C tx) then n + 1 else n) 0 txs
      in if 0 < invalid then Inl (BatchVerifyError invalid (length txs)) else Inr ())"

section \<open>Facts\<close>

lemma type_tag_inj [simp]: "type_tag s = type_tag t \<longleftrightarrow> s = t"
  by (cases s; cases t) simp_all

lemma signable_bytes_signature [simp]:
  "signable_bytes (tx\<lparr>tx_signature := s\<rparr>) = signable_bytes tx"
  by (simp add: signable_bytes_def)

lemma validate_Inr:
  "validate C tx = Inr () \<longleftrightarrow>
     from_public_key C (tx_sender_pubkey tx) = tx_sender tx \<and>
     verify_signature C tx = Inr () \<and>
     (tx_type tx = Transfer \<longrightarrow> tx_amount tx \<noteq> 0 \<and> tx_sender tx \<noteq> tx_receiver tx) \<and>
     (base_fee RELYO_CONFIG \<le> tx_fee tx \<or> is_genesis tx)"
  by (auto simp: validate_def verify_sender_def try_then_Inr)

text \<open>The fixed-width fields of a transaction have the width Rust's array types give them.\<close>

definition wf_tx :: "transaction \<Rightarrow> bool" where
  "wf_tx tx \<longleftrightarrow> length (hash_bytes (tx_parent_1 tx)) = 32 \<and>
     length (hash_bytes (tx_parent_2 tx)) = 32 \<and> length (pk_bytes (tx_sender_pubkey tx)) = 32 \<and>
     length (sig_bytes (tx_signature tx)) = 64"

lemma data_section_inj: "length (data_section d) = length (data_section e) \<Longrightarrow>
    data_section d = data_section e \<Longrightarrow> d = e"
  by (auto simp: data_section_def split: if_splits)

lemma signable_bytes_fields:
  assumes "wf_tx t" "wf_tx u"
    and len: "length (as_str (tx_sender t)) = length (as_str (tx_sender u))"
      "length (as_str (tx_receiver t)) = length (as_str (tx_receiver u))"
    and eq: "signable_bytes t = signable_bytes u"
  shows "t\<lparr>tx_signature := s\<rparr> = u\<lparr>tx_signature := s\<rparr>"
proof -
  note width = assms(1,2) [unfolded wf_tx_def]
  from eq width len have *: "type_tag (tx_type t) = type_tag (tx_type u)"
    "string_bytes (as_str (tx_sender t)) = string_bytes (as_str (tx_sender u))"
    "string_bytes (as_str (tx_receiver t)) = string_bytes (as_str (tx_receiver u))"
    "le_bytes 8 (tx_amount t) = le_bytes 8 (tx_amount u)"
    "le_bytes 8 (tx_fee t) = le_bytes 8 (tx_fee u)"
    "le_bytes 8 (tx_timestamp t) = le_bytes 8 (tx_timestamp u)"
    "le_bytes 8 (tx_nonce t) = le_bytes 8 (tx_nonce u)"
    "hash_bytes (tx_parent_1 t) = hash_bytes (tx_parent_1 u)"
    "hash_bytes (tx_parent_2 t) = hash_bytes (tx_parent_2 u)"
    "pk_bytes (tx_sender_pubkey t) = pk_bytes (tx_sender_pubkey u)"
    "data_section (tx_data t) = data_section (tx_data u)"
    by (simp_all add: signable_bytes_def)
  then show ?thesis
    by (cases t; cases u)
      (simp add: le_bytes_inj data_section_inj address.expand transaction_hash.expand
        public_key.expand)
qed

lemma builder_sign_signable:
  "tx_signature (builder_sign C now kp b) = sign C kp (signable_bytes (builder_sign C now kp b))"
  by (simp add: builder_sign_def signable_bytes_def Let_def)

lemma builder_sign_fields [simp]:
  "tx_type (builder_sign C now kp b) = b_tx_type b"
  "tx_sender (builder_sign C now kp b) = b_sender b"
  "tx_receiver (builder_sign C now kp b) = b_receiver b"
  "tx_amount (builder_sign C now kp b) = b_amount b"
  "tx_fee (builder_sign C now kp b) = b_fee b"
  "tx_nonce (builder_sign C now kp b) = b_nonce b"
  "tx_parent_1 (builder_sign C now kp b) = b_parent_1 b"
  "tx_parent_2 (builder_sign C now kp b) = b_parent_2 b"
  "tx_sender_pubkey (builder_sign C now kp b) = kp_public_key kp"
  "tx_timestamp (builder_sign C now kp b) = now"
  "tx_data (builder_sign C now kp b) = b_data b"
  by (simp_all add: builder_sign_def Let_def)

lemma builder_sign_verifies:
  "crypto_ok C \<Longrightarrow> keypair_ok C kp \<Longrightarrow> verify_signature C (builder_sign C now kp b) = Inr ()"
  by (simp add: verify_signature_def builder_sign_signable verify_sign)

lemma builder_sign_validates:
  assumes "crypto_ok C" "keypair_ok C kp" "b_sender b = from_public_key C (kp_public_key kp)"
    "b_tx_type b = Transfer \<longrightarrow> b_amount b \<noteq> 0 \<and> b_receiver b \<noteq> b_sender b"
    "base_fee RELYO_CONFIG \<le> b_fee b"
  shows "validate C (builder_sign C now kp b) = Inr ()"
  using assms by (auto simp: validate_Inr builder_sign_verifies)

lemma batch_verify_transactions_count:
  "batch_verify_transactions C txs =
    (let bad = length (filter (\<lambda>tx. \<not> is_ok (verify_signature C tx)) txs)
     in if 0 < bad then Inl (BatchVerifyError bad (length txs)) else Inr ())"
  by (simp add: batch_verify_transactions_def count_foldl)

lemma total_cost_unat:
  "unat (total_cost tx) = min (unat (tx_amount tx) + unat (tx_fee tx)) (2 ^ 64 - 1)"
  by (simp add: total_cost_def arith_ops)

section \<open>Properties\<close>

text \<open>A transaction built and signed with the sender's own key passes \<open>validate\<close> exactly
  when its business fields do: a transfer needs a positive amount and another receiver, and
  anything but a genesis transaction pays the base fee.\<close>

theorem signed_transaction_validates:
  assumes "crypto_ok C" "keypair_ok C kp"
    and "b_sender b = from_public_key C (kp_public_key kp)"
  shows "validate C (builder_sign C now kp b) = Inr () \<longleftrightarrow>
     (b_tx_type b = Transfer \<longrightarrow> b_amount b \<noteq> 0 \<and> b_sender b \<noteq> b_receiver b) \<and>
     (base_fee RELYO_CONFIG \<le> b_fee b \<or>
      b_tx_type b = Genesis \<and> is_zero (b_parent_1 b) \<and> is_zero (b_parent_2 b))"
  using assms by (auto simp: validate_Inr builder_sign_verifies is_genesis_def)

theorem signed_transaction_validates_witness:
  "validate demo_crypto
     (builder_sign demo_crypto 5 (generate demo_crypto [3])
        (builder_new (from_public_key demo_crypto (kp_public_key (generate demo_crypto [3])))
           (Address ''R'') 10 1000000 0)) = Inr ()"
  using signed_transaction_validates [OF demo_crypto_ok keypair_ok_intros(2), of
    "builder_new (from_public_key demo_crypto (kp_public_key (generate demo_crypto [3])))
       (Address ''R'') 10 1000000 0" "[3]" 5]
  by (simp add: builder_new_def base_fee_num from_public_key_typed_raw from_public_key_def
      raw_address_def ADDRESS_PREFIX_def demo_crypto_def Let_def byte_char_def)

text \<open>For addresses of given lengths the signed bytes determine every field of a
  transaction but its signature.\<close>

theorem signable_bytes_binding:
  assumes "wf_tx t" "wf_tx u"
    and "length (as_str (tx_sender t)) = length (as_str (tx_sender u))"
    and "length (as_str (tx_receiver t)) = length (as_str (tx_receiver u))"
    and "signable_bytes t = signable_bytes u"
  shows "t = u\<lparr>tx_signature := tx_signature t\<rparr>"
  using signable_bytes_fields [OF assms, of "tx_signature t"] by simp

definition demo_tx :: transaction where
  "demo_tx = \<lparr>tx_type = Transfer, tx_sender = Address ''S'', tx_receiver = Address ''R'',
     tx_amount = 5, tx_fee = 1000000, tx_timestamp = 1, tx_nonce = 0, tx_parent_1 = zero_hash,
     tx_parent_2 = zero_hash, tx_sender_pubkey = PublicKey (replicate 32 1),
     tx_signature = Signature (replicate 64 0), tx_data = [1, 2]\<rparr>"

theorem signable_bytes_binding_witness:
  "demo_tx = (demo_tx\<lparr>tx_signature := Signature (replicate 64 9)\<rparr>)
     \<lparr>tx_signature := tx_signature demo_tx\<rparr>"
  by (rule signable_bytes_binding) (simp_all add: wf_tx_def demo_tx_def zero_hash_def
      signable_bytes_def)

text \<open>C35: Without the lengths it does not: the two addresses are concatenated with no length
  prefix, the receiver is never checked, and a non-empty \<open>data\<close> is the only field with a
  length.  Every key owner can sign once and obtain two transactions with the same signature
  and the same hash that both pass \<open>validate\<close>, to different receivers and for different
  amounts; the longer receiver extends the shorter one by ASCII characters.\<close>

theorem signable_bytes_ambiguous:
  assumes "crypto_ok C" "keypair_ok C kp"
  shows "\<exists>t u suffix. validate C t = Inr () \<and> validate C u = Inr () \<and> wf_tx t \<and> wf_tx u \<and>
    tx_hash C t = tx_hash C u \<and> tx_signature t = tx_signature u \<and>
    tx_amount t \<noteq> tx_amount u \<and> tx_receiver t \<noteq> tx_receiver u \<and>
    as_str (tx_receiver u) = as_str (tx_receiver t) @ map byte_char suffix \<and>
    (\<forall>b\<in>set suffix. b < 128)"
proof -
  let ?pk = "kp_public_key kp" and ?K = "pk_bytes (kp_public_key kp)"
  let ?s = "from_public_key C ?pk"
  let ?fee = "1000000 :: u64"
  let ?suffix = "le_bytes 8 (1 :: u64) @ le_bytes 8 ?fee @ le_bytes 8 (0 :: u64) @
    le_bytes 8 (0 :: u64) @ replicate 8 0"
  let ?len = "le_bytes 4 (36 :: u32)"
  define t0 where "t0 = \<lparr>tx_type = Transfer, tx_sender = ?s,
     tx_receiver = Address (as_str ?s @ ''X''), tx_amount = 1, tx_fee = ?fee, tx_timestamp = 0,
     tx_nonce = 0,
     tx_parent_1 = TransactionHash (replicate 8 0 @ le_bytes 8 (2 :: u64) @ le_bytes 8 ?fee @
       le_bytes 8 (0 :: u64)),
     tx_parent_2 = TransactionHash (le_bytes 8 (0 :: u64) @ replicate 24 0),
     tx_sender_pubkey = ?pk, tx_signature = Signature [], tx_data = ?K @ le_bytes 4 CHAIN_ID\<rparr>"
  define t where "t = t0\<lparr>tx_signature := sign C kp (signable_bytes t0)\<rparr>"
  define u where "u = \<lparr>tx_type = Transfer, tx_sender = ?s,
     tx_receiver = Address (as_str ?s @ ''X'' @ map byte_char ?suffix), tx_amount = 2,
     tx_fee = ?fee, tx_timestamp = 0, tx_nonce = 0,
     tx_parent_1 = TransactionHash (replicate 24 0 @ take 8 ?K),
     tx_parent_2 = TransactionHash (drop 8 ?K @ le_bytes 4 CHAIN_ID @ ?len),
     tx_sender_pubkey = ?pk, tx_signature = sign C kp (signable_bytes t0), tx_data = []\<rparr>"
  have K: "length ?K = 32" using assms by (simp add: keypair_ok_def crypto_okD)
  have glue: "take 8 ?K @ drop 8 ?K @ rest = ?K @ rest" for rest
    by (simp flip: append_assoc)
  have same: "signable_bytes u = signable_bytes t0"
    using K by (simp add: signable_bytes_def u_def t0_def data_section_def glue)
  have sig: "verify C ?pk (signable_bytes t0) (sign C kp (signable_bytes t0)) = Inr ()"
    using assms by (rule verify_sign)
  have "?s \<noteq> Address (as_str ?s @ x # xs)" for x xs
    by (metis address.sel append_self_conv list.distinct(1))
  then have "validate C t = Inr ()" "validate C u = Inr ()"
    using sig same
    by (simp_all add: validate_Inr verify_signature_def t_def, simp_all add: t0_def u_def base_fee_num)
  moreover have "wf_tx t" "wf_tx u"
    using K assms(1) by (simp_all add: wf_tx_def t_def t0_def u_def sign_def crypto_okD)
  moreover have "tx_hash C t = tx_hash C u"
    by (simp add: tx_hash_def t_def same) (simp add: u_def)
  moreover have "\<forall>b\<in>set ?suffix. b < 128"
    by code_simp
  ultimately show ?thesis
    by (intro exI [of _ t] exI [of _ u] exI [of _ ?suffix]) (simp add: t_def t0_def u_def)
qed

theorem signable_bytes_ambiguous_witness:
  "\<exists>t u. validate demo_crypto t = Inr () \<and> validate demo_crypto u = Inr () \<and>
     tx_hash demo_crypto t = tx_hash demo_crypto u \<and> tx_receiver t \<noteq> tx_receiver u"
  using signable_bytes_ambiguous [OF demo_crypto_ok keypair_ok_intros(2) [of _ "[3]"]] by blast

text \<open>Batch verification accepts a list exactly when every signature verifies, and otherwise
  reports the exact number of invalid ones.\<close>

theorem batch_verify_transactions_exact:
  "batch_verify_transactions C txs =
     (if list_all (\<lambda>tx. verify_signature C tx = Inr ()) txs then Inr ()
      else Inl (BatchVerifyError
        (size (filter_mset (\<lambda>tx. verify_signature C tx \<noteq> Inr ()) (mset txs))) (length txs)))"
proof -
  have *: "\<not> is_ok r \<longleftrightarrow> r \<noteq> Inr ()" for r :: "unit result"
    by (auto simp: is_ok_iff)
  show ?thesis
    unfolding batch_verify_transactions_count * size_mset mset_filter [symmetric] Let_def
    by (auto simp: list_all_iff filter_empty_conv)
qed

end
