(* ===== verification/Tips.thy ===== *)
theory Tips
  imports Transactions
begin

text \<open>
  \<open>relyo-dag/src/tips.rs\<close>: the tips of the graph with their weights and ages, and their random
  selection.

  The tip set is a distinct list, in the set's iteration order.  \<open>Instant::now()\<close> is the
  argument \<open>now\<close>.  The random generator is the argument \<open>draw\<close>: \<open>draw k n\<close> is the answer to
  its \<open>k\<close>-th call, \<open>gen_range(0..n)\<close>.
\<close>

record tip_selector =
  ts_tips :: "transaction_hash list"
  ts_weights :: "(transaction_hash \<times> u64) list"
  ts_added_at :: "(transaction_hash \<times> nat) list"

definition tips_new :: tip_selector where
  "tips_new = \<lparr>ts_tips = [], ts_weights = [], ts_added_at = []\<rparr>"

definition add_weighted :: "nat \<Rightarrow> tip_selector \<Rightarrow> transaction_hash \<Rightarrow> u64 \<Rightarrow> tip_selector" where
  "add_weighted now ts hash w =
     \<lparr>ts_tips = List.insert hash (ts_tips ts),
      ts_weights = AList.update hash w (ts_weights ts),
      ts_added_at = AList.update hash now (ts_added_at ts)\<rparr>"

definition add_tip :: "nat \<Rightarrow> tip_selector \<Rightarrow> transaction_hash \<Rightarrow> tip_selector" where
  "add_tip now ts hash =
     \<lparr>ts_tips = List.insert hash (ts_tips ts),
      ts_weights = AList.update hash 1 (ts_weights ts),
      ts_added_at = AList.update hash now (ts_added_at ts)\<rparr>"

definition remove_tip :: "tip_selector \<Rightarrow> transaction_hash \<Rightarrow> tip_selector" where
  "remove_tip ts hash =
     \<lparr>ts_tips = removeAll hash (ts_tips ts),
      ts_weights = AList.delete hash (ts_weights ts),
      ts_added_at = AList.delete hash (ts_added_at ts)\<rparr>"

definition update_weight :: "tip_selector \<Rightarrow> transaction_hash \<Rightarrow> u64 \<Rightarrow> tip_selector" where
  "update_weight ts hash w = ts\<lparr>ts_weights := AList.map_entry hash (\<lambda>_. w) (ts_weights ts)\<rparr>"

definition tip_age :: "nat \<Rightarrow> tip_selector \<Rightarrow> transaction_hash \<Rightarrow> nat option" where
  "tip_age now ts hash = map_option (\<lambda>t. now - t) (map_of (ts_added_at ts) hash)"

definition prune_stale ::
    "nat \<Rightarrow> nat \<Rightarrow> tip_selector \<Rightarrow> transaction_hash list \<times> tip_selector" where
  "prune_stale now max_age ts =
     (let is_stale = (\<lambda>(h, t). now - t > max_age);
          stale = map fst (filter is_stale (ts_added_at ts));
          kept = filter (\<lambda>e. \<not> is_stale e) (ts_added_at ts)
      in (stale,
          foldl (\<lambda>ts h. ts\<lparr>ts_tips := removeAll h (ts_tips ts),
                          ts_weights := AList.delete h (ts_weights ts)\<rparr>)
            (ts\<lparr>ts_added_at := kept\<rparr>) stale))"

definition tip_count :: "tip_selector \<Rightarrow> nat" where
  "tip_count ts = length (ts_tips ts)"

definition tips_is_empty :: "tip_selector \<Rightarrow> bool" where
  "tips_is_empty ts = (tip_count ts = 0)"

definition all_tips :: "tip_selector \<Rightarrow> transaction_hash list" where
  "all_tips ts = ts_tips ts"

definition default_tips :: tip_selector where
  "default_tips = tips_new"

section \<open>Selection\<close>

text \<open>The loop \<open>while j == i\<close>; it may run for ever, so not returning is \<open>None\<close>.\<close>

partial_function (option) redraw ::
    "(nat \<Rightarrow> nat \<Rightarrow> nat) \<Rightarrow> nat \<Rightarrow> nat \<Rightarrow> nat \<Rightarrow> nat \<Rightarrow> nat option" where
  "redraw draw n i j k = (if j = i then redraw draw n i (draw k n) (Suc k) else Some j)"

text \<open>The outer option is the loop's, the inner one the code's.\<close>

definition select_two ::
    "(nat \<Rightarrow> nat \<Rightarrow> nat) \<Rightarrow> nat \<Rightarrow> tip_selector \<Rightarrow>
       (transaction_hash \<times> transaction_hash) option option" where
  "select_two draw k ts =
     (let tip_vec = ts_tips ts; n = length tip_vec in
      if n < 2 then Some None
      else
        let i = draw k n in
        case redraw draw n i (draw (k + 1) n) (k + 2) of
          None \<Rightarrow> None
        | Some j \<Rightarrow> Some (Some (tip_vec ! i, tip_vec ! j)))"

text \<open>The inner loop of \<open>pick\<close>: the first hash whose cumulative weight exceeds the target.\<close>

fun scan_weights ::
    "(transaction_hash \<times> u64) list \<Rightarrow> u64 \<Rightarrow> u64 \<Rightarrow> transaction_hash option" where
  "scan_weights [] target cumulative = None"
| "scan_weights ((hash, w) # ws) target cumulative =
     (if cumulative + w > target then Some hash else scan_weights ws target (cumulative + w))"

definition allowed :: "transaction_hash option \<Rightarrow> transaction_hash \<Rightarrow> bool" where
  "allowed exclude hash = (case exclude of None \<Rightarrow> True | Some e \<Rightarrow> e \<noteq> hash)"

text \<open>The retries of \<open>pick\<close>, from the \<open>k\<close>-th draw on, and its fallbacks; it returns the number
  of the next draw too.\<close>

fun pick_tries ::
    "nat \<Rightarrow> (nat \<Rightarrow> nat \<Rightarrow> nat) \<Rightarrow> (transaction_hash \<times> u64) list \<Rightarrow> u64 \<Rightarrow>
       transaction_hash option \<Rightarrow> nat \<Rightarrow> transaction_hash option \<times> nat" where
  "pick_tries 0 draw ws tw exclude k = (None, k)"
| "pick_tries (Suc n) draw ws tw exclude k =
     (case scan_weights ws (of_nat (draw k (unat tw))) 0 of
        Some hash \<Rightarrow>
          if allowed exclude hash then (Some hash, Suc k)
          else pick_tries n draw ws tw exclude (Suc k)
      | None \<Rightarrow> pick_tries n draw ws tw exclude (Suc k))"

definition pick ::
    "(nat \<Rightarrow> nat \<Rightarrow> nat) \<Rightarrow> (transaction_hash \<times> u64) list \<Rightarrow> u64 \<Rightarrow>
       transaction_hash option \<Rightarrow> nat \<Rightarrow> transaction_hash \<times> nat" where
  "pick draw ws tw exclude k =
     (case pick_tries 100 draw ws tw exclude k of
        (Some hash, k') \<Rightarrow> (hash, k')
      | (None, k') \<Rightarrow>
          (case find (\<lambda>(hash, _). allowed exclude hash) ws of
             Some (hash, _) \<Rightarrow> (hash, k')
           | None \<Rightarrow> (fst (ws ! 0), k')))"

definition tip_weights :: "tip_selector \<Rightarrow> (transaction_hash \<times> u64) list" where
  "tip_weights ts = map (\<lambda>h. (h, get_or 1 (ts_weights ts) h)) (ts_tips ts)"

definition select_weighted ::
    "(nat \<Rightarrow> nat \<Rightarrow> nat) \<Rightarrow> tip_selector \<Rightarrow>
       (transaction_hash \<times> transaction_hash) option option" where
  "select_weighted draw ts =
     (if length (ts_tips ts) < 2 then Some None
      else
        let weights = tip_weights ts;
            total_weight = sum_list (map snd weights)
        in if total_weight = 0 then select_two draw 0 ts
           else
             let (first, k) = pick draw weights total_weight None 0;
                 (second, _) = pick draw weights total_weight (Some first) k
             in Some (Some (first, second)))"

section \<open>Facts\<close>

definition has_tip :: "tip_selector \<Rightarrow> transaction_hash \<Rightarrow> bool" where
  "has_tip ts h \<longleftrightarrow> h \<in> set (ts_tips ts)"

text \<open>The three parts speak of the same hashes.\<close>

definition tips_ok :: "tip_selector \<Rightarrow> bool" where
  "tips_ok ts \<longleftrightarrow> distinct (ts_tips ts) \<and> distinct (keys (ts_weights ts)) \<and>
     distinct (keys (ts_added_at ts)) \<and> set (keys (ts_weights ts)) = set (ts_tips ts) \<and>
     set (keys (ts_added_at ts)) = set (ts_tips ts)"

lemma tips_ok_new [simp]: "tips_ok tips_new"
  by (simp add: tips_ok_def tips_new_def)

lemma tips_ok_ops [simp]:
  assumes "tips_ok ts"
  shows "tips_ok (add_tip now ts h)" "tips_ok (add_weighted now ts h w)" "tips_ok (remove_tip ts h)"
    "tips_ok (update_weight ts h w)"
  using assms
  by (simp_all add: tips_ok_def add_tip_def add_weighted_def remove_tip_def update_weight_def
      distinct_removeAll del: set_map)

interpretation tip_pool: pool has_tip "add_tip now" remove_tip for now
  by unfold_locales (auto simp: has_tip_def add_tip_def remove_tip_def)

text \<open>\<open>select_two\<close>: what it returns when the rejection loop ends, and that it ends as soon as one
  of the draws differs from the first.\<close>

lemma redraw_not_eq: "redraw draw n i j k = Some j' \<Longrightarrow> j' \<noteq> i \<and> (j' = j \<or> (\<exists>k'. j' = draw k' n))"
  by (erule redraw.raw_induct [rotated]) (fastforce split: if_splits)

lemma redraw_returns:
  "j \<noteq> i \<or> draw (k + m) n \<noteq> i \<Longrightarrow> \<exists>j'. redraw draw n i j k = Some j'"
proof (induction m arbitrary: j k)
  case 0
  then show ?case by (subst redraw.simps) (auto simp: redraw.simps [of draw n i "draw k n"])
next
  case (Suc m)
  have "j = i \<Longrightarrow> \<exists>j'. redraw draw n i (draw k n) (Suc k) = Some j'"
    using Suc.prems by (intro Suc.IH) auto
  then show ?case by (subst redraw.simps) auto
qed

lemma select_two_distinct:
  assumes "tips_ok ts" "\<forall>k n. 0 < n \<longrightarrow> draw k n < n" "select_two draw k ts = Some (Some (a, b))"
  shows "a \<noteq> b \<and> has_tip ts a \<and> has_tip ts b"
proof -
  let ?n = "length (ts_tips ts)"
  from assms(3) obtain j where j: "redraw draw ?n (draw k ?n) (draw (k + 1) ?n) (k + 2) = Some j"
    and n: "2 \<le> ?n" and ab: "a = ts_tips ts ! draw k ?n" "b = ts_tips ts ! j"
    by (auto simp: select_two_def Let_def split: if_splits option.splits)
  have "draw k' ?n < ?n" for k' using assms(2) n by (metis gr0I not_numeral_le_zero)
  with redraw_not_eq [OF j] ab n assms(1) show ?thesis
    by (auto simp: has_tip_def tips_ok_def nth_eq_iff_index_eq)
qed

lemma scan_weights_mem: "scan_weights ws t c = Some h \<Longrightarrow> h \<in> set (keys ws)"
  by (induction ws t c rule: scan_weights.induct) (auto split: if_splits)

lemma pick_tries_ok:
  "pick_tries n draw ws tw e k = (Some h, k') \<Longrightarrow> allowed e h \<and> h \<in> set (keys ws)"
  by (induction n draw ws tw e k rule: pick_tries.induct)
    (auto split: option.splits if_splits dest: scan_weights_mem)

text \<open>\<open>pick\<close> honours the exclusion as soon as some entry does.\<close>

lemma pick_ok:
  assumes "\<exists>h\<in>set (keys ws). allowed e h"
  shows "allowed e (fst (pick draw ws tw e k)) \<and> fst (pick draw ws tw e k) \<in> set (keys ws)"
proof (cases "pick_tries 100 draw ws tw e k")
  case (Pair r k')
  show ?thesis
  proof (cases r)
    case (Some h)
    with Pair pick_tries_ok [of 100 draw ws tw e k h k'] show ?thesis by (simp add: pick_def)
  next
    case None
    from assms obtain p where "find (\<lambda>(h, _). allowed e h) ws = Some p"
      by (cases "find (\<lambda>(h, _). allowed e h) ws") (auto simp: find_None_iff split_beta)
    then have "allowed e (fst p)" "p \<in> set ws" "find (\<lambda>(h, _). allowed e h) ws = Some p"
      by (auto simp: find_Some_iff split_beta)
    with None Pair show ?thesis by (cases p) (force simp: pick_def)
  qed
qed

lemma keys_tip_weights [simp]: "keys (tip_weights ts) = ts_tips ts"
  by (simp add: tip_weights_def comp_def)

lemma two_members:
  assumes "distinct xs" "2 \<le> length xs"
  shows "\<exists>y\<in>set xs. y \<noteq> x"
proof -
  obtain a b ys where "xs = a # b # ys"
    using assms(2) by (cases xs; cases "tl xs") auto
  with assms(1) show ?thesis by auto
qed

text \<open>\<open>prune_stale\<close> on the three parts.\<close>

lemma prune_stale_parts:
  assumes "tips_ok ts" "prune_stale now age ts = (stale, ts')"
  shows "set stale = {h. has_tip ts h \<and> (\<exists>t. tip_age now ts h = Some t \<and> age < t)}"
    "tips_ok ts'" "has_tip ts' h \<longleftrightarrow> has_tip ts h \<and> h \<notin> set stale"
proof -
  let ?P = "\<lambda>(h, t). now - t > age" and ?m = "ts_added_at ts"
  let ?f = "\<lambda>ts h. ts\<lparr>ts_tips := removeAll h (ts_tips ts),
      ts_weights := AList.delete h (ts_weights ts)\<rparr>"
  have stale: "stale = map fst (filter ?P ?m)"
    and ts': "ts' = foldl ?f (ts\<lparr>ts_added_at := filter (\<lambda>e. \<not> ?P e) ?m\<rparr>) stale"
    using assms(2) by (auto simp: prune_stale_def Let_def)
  have fold: "set (ts_tips (foldl ?f t hs)) = set (ts_tips t) - set hs \<and>
      set (keys (ts_weights (foldl ?f t hs))) = set (keys (ts_weights t)) - set hs \<and>
      ts_added_at (foldl ?f t hs) = ts_added_at t \<and>
      (distinct (ts_tips t) \<longrightarrow> distinct (ts_tips (foldl ?f t hs))) \<and>
      (distinct (keys (ts_weights t)) \<longrightarrow> distinct (keys (ts_weights (foldl ?f t hs))))" for t hs
    by (induction hs arbitrary: t) (auto simp: distinct_removeAll simp del: set_map)
  have d: "distinct (keys ?m)" "set (keys ?m) = set (ts_tips ts)"
    using assms(1) by (simp_all add: tips_ok_def)
  have uniq: "(h, t) \<in> set ?m \<longleftrightarrow> map_of ?m h = Some t" for h t using d(1) by simp
  show st: "set stale = {h. has_tip ts h \<and> (\<exists>t. tip_age now ts h = Some t \<and> age < t)}"
    unfolding stale has_tip_def d(2) [symmetric] tip_age_def
    by (auto simp: uniq image_iff)
  have kept: "set (keys (filter (\<lambda>e. \<not> ?P e) ?m)) = set (ts_tips ts) - set stale"
    unfolding stale d(2) [symmetric] using d(1) by (auto simp: image_iff) (metis eq_key_imp_eq_value)+
  have "distinct (keys (filter (\<lambda>e. \<not> ?P e) ?m))" by (rule distinct_map_filter [OF d(1)])
  with kept fold [of "ts\<lparr>ts_added_at := filter (\<lambda>e. \<not> ?P e) ?m\<rparr>" stale] assms(1)
  show "tips_ok ts'" by (simp add: ts' tips_ok_def del: set_map)
  show "has_tip ts' h \<longleftrightarrow> has_tip ts h \<and> h \<notin> set stale"
    using fold [of "ts\<lparr>ts_added_at := filter (\<lambda>e. \<not> ?P e) ?m\<rparr>" stale]
    by (simp add: ts' has_tip_def)
qed

section \<open>Properties\<close>

text \<open>Weighted selection, whenever there are at least two tips and the total weight is not
  zero, returns two different tips, whatever the random draws: the retry bound and the fallbacks
  always leave a second choice.  With fewer than two tips it selects nothing.\<close>

theorem select_weighted_distinct:
  assumes "tips_ok ts" and "2 \<le> tip_count ts \<longrightarrow> sum_list (map snd (tip_weights ts)) \<noteq> 0"
  shows "if tip_count ts < 2 then select_weighted draw ts = Some None
    else \<exists>a b. select_weighted draw ts = Some (Some (a, b)) \<and> a \<noteq> b \<and> has_tip ts a \<and> has_tip ts b"
proof (cases "tip_count ts < 2")
  case True
  then show ?thesis by (simp add: select_weighted_def tip_count_def)
next
  case False
  let ?ws = "tip_weights ts" and ?W = "sum_list (map snd (tip_weights ts))"
  obtain a k where a: "pick draw ?ws ?W None 0 = (a, k)" by (cases "pick draw ?ws ?W None 0") auto
  obtain b k' where b: "pick draw ?ws ?W (Some a) k = (b, k')"
    by (cases "pick draw ?ws ?W (Some a) k") auto
  have two: "\<exists>y\<in>set (ts_tips ts). y \<noteq> x" for x
    using assms(1) False by (intro two_members) (simp_all add: tips_ok_def tip_count_def)
  then have "has_tip ts a"
    using pick_ok [of ?ws None draw ?W 0] a by (auto simp: allowed_def has_tip_def simp del: set_map)
  moreover have "\<exists>y\<in>set (ts_tips ts). a \<noteq> y" using two by metis
  then have "a \<noteq> b \<and> has_tip ts b"
    using pick_ok [of ?ws "Some a" draw ?W k] b
    by (auto simp: allowed_def has_tip_def simp del: set_map)
  moreover have "select_weighted draw ts = Some (Some (a, b))"
    using False assms(2) a b by (simp add: select_weighted_def tip_count_def Let_def)
  ultimately show ?thesis using False by auto
qed

definition demo_tips :: tip_selector where
  "demo_tips = add_weighted 3 (add_tip 1 tips_new (TransactionHash [1])) (TransactionHash [2]) 5"

lemma demo_tips_ok: "tips_ok demo_tips"
  by (simp add: demo_tips_def)

lemma demo_tips_weights:
  "tip_weights demo_tips = [(TransactionHash [2], 5), (TransactionHash [1], 1)]"
  by (simp add: demo_tips_def tip_weights_def add_weighted_def add_tip_def tips_new_def get_or_def)

theorem select_weighted_distinct_witness:
  "\<exists>a b. select_weighted (\<lambda>k n. 0) demo_tips = Some (Some (a, b)) \<and> a \<noteq> b"
proof -
  have "tip_count demo_tips = 2"
    by (simp add: demo_tips_def tip_count_def add_weighted_def add_tip_def tips_new_def)
  with select_weighted_distinct [OF demo_tips_ok, of "\<lambda>k n. 0"] show ?thesis
    by (auto simp: demo_tips_weights)
qed

text \<open>Uniform selection returns as soon as one draw after the first differs from it, and what
  it returns is two different tips.\<close>

theorem select_two_returns_distinct:
  assumes "tips_ok ts" "2 \<le> tip_count ts" "\<forall>k n. 0 < n \<longrightarrow> draw k n < n"
    and "draw (Suc m + k) (tip_count ts) \<noteq> draw k (tip_count ts)"
  shows "\<exists>a b. select_two draw k ts = Some (Some (a, b)) \<and> a \<noteq> b \<and> has_tip ts a \<and> has_tip ts b"
proof -
  let ?n = "tip_count ts"
  have "\<exists>j. redraw draw ?n (draw k ?n) (draw (k + 1) ?n) (k + 2) = Some j"
  proof (cases m)
    case 0
    with assms(4) show ?thesis by (intro redraw_returns [of _ _ _ _ 0]) (simp add: add.commute)
  next
    case (Suc m')
    with assms(4) show ?thesis by (intro redraw_returns [of _ _ _ _ m']) (simp add: ac_simps)
  qed
  then obtain a b where "select_two draw k ts = Some (Some (a, b))"
    using assms(2) by (auto simp: select_two_def tip_count_def Let_def)
  with select_two_distinct [OF assms(1,3) this] show ?thesis by blast
qed

theorem select_two_returns_distinct_witness:
  "\<exists>a b. select_two (\<lambda>k n. k mod n) 0 demo_tips = Some (Some (a, b)) \<and> a \<noteq> b"
proof -
  have "tip_count demo_tips = 2"
    by (simp add: demo_tips_def tip_count_def add_weighted_def add_tip_def tips_new_def)
  then show ?thesis
    using select_two_returns_distinct [OF demo_tips_ok, of "\<lambda>k n. k mod n" 0 0] by auto
qed

end
