(* ===== verification/Conflicts.thy ===== *)
theory Conflicts
  imports Transactions
begin

text \<open>
  \<open>relyo-dag/src/conflict.rs\<close>: committed nonces, conflict sets of transaction hashes and their
  resolution.  A conflict set is a distinct list, in the set's iteration order.
\<close>

record conflict_detector =
  committed_nonces :: "((string \<times> u64) \<times> transaction_hash) list"
  conflict_sets :: "(u64 \<times> transaction_hash list) list"
  tx_to_conflict :: "(transaction_hash \<times> u64) list"
  next_conflict_id :: u64

datatype conflict_result =
    NoConflict
  | NonceConflict transaction_hash address u64
  | DoubleSpendConflict address u64 u64

definition conflicts_new :: conflict_detector where
  "conflicts_new = \<lparr>committed_nonces = [], conflict_sets = [], tx_to_conflict = [],
     next_conflict_id = 1\<rparr>"

definition nonce_key :: "transaction \<Rightarrow> string \<times> u64" where
  "nonce_key tx = (as_str (tx_sender tx), tx_nonce tx)"

definition check_transaction ::
    "conflict_detector \<Rightarrow> transaction \<Rightarrow> u64 \<Rightarrow> u64 \<Rightarrow> conflict_result" where
  "check_transaction cd tx available_balance pending_spend =
     (case map_of (committed_nonces cd) (nonce_key tx) of
        Some existing \<Rightarrow> NonceConflict existing (tx_sender tx) (tx_nonce tx)
      | None \<Rightarrow>
          let total_needed = sat_add (sat_add pending_spend (tx_amount tx)) (tx_fee tx)
          in if total_needed > available_balance
             then DoubleSpendConflict (tx_sender tx) total_needed available_balance
             else NoConflict)"

definition commit_transaction ::
    "crypto \<Rightarrow> conflict_detector \<Rightarrow> transaction \<Rightarrow> conflict_detector" where
  "commit_transaction C cd tx =
     cd\<lparr>committed_nonces := AList.update (nonce_key tx) (tx_hash C tx) (committed_nonces cd)\<rparr>"

definition register_conflict ::
    "conflict_detector \<Rightarrow> transaction_hash \<Rightarrow> transaction_hash \<Rightarrow> conflict_detector" where
  "register_conflict cd hash_a hash_b =
     (let conflict_id = next_conflict_id cd;
          hashes = List.insert hash_b (List.insert hash_a [])
      in cd\<lparr>next_conflict_id := conflict_id + 1,
            conflict_sets := AList.update conflict_id hashes (conflict_sets cd),
            tx_to_conflict := AList.update hash_b conflict_id
              (AList.update hash_a conflict_id (tx_to_conflict cd))\<rparr>)"

definition is_conflicting :: "conflict_detector \<Rightarrow> transaction_hash \<Rightarrow> bool" where
  "is_conflicting cd hash = has_key (tx_to_conflict cd) hash"

definition get_conflict_set ::
    "conflict_detector \<Rightarrow> transaction_hash \<Rightarrow> transaction_hash list option" where
  "get_conflict_set cd hash =
     Option.bind (map_of (tx_to_conflict cd) hash) (map_of (conflict_sets cd))"

definition resolve_conflict ::
    "conflict_detector \<Rightarrow> transaction_hash \<Rightarrow> transaction_hash list \<times> conflict_detector" where
  "resolve_conflict cd accepted =
     (case map_of (tx_to_conflict cd) accepted of
        None \<Rightarrow> ([], cd)
      | Some cid \<Rightarrow>
          (case map_of (conflict_sets cd) cid of
             None \<Rightarrow> ([], cd)
           | Some hashes \<Rightarrow>
               let rejected = filter (\<lambda>h. h \<noteq> accepted) hashes
               in (rejected,
                   cd\<lparr>conflict_sets := AList.delete cid (conflict_sets cd),
                      tx_to_conflict :=
                        foldl (\<lambda>m h. AList.delete h m)
                          (AList.delete accepted (tx_to_conflict cd)) rejected\<rparr>)))"

definition conflict_count :: "conflict_detector \<Rightarrow> nat" where
  "conflict_count cd = length (conflict_sets cd)"

definition revert_transaction :: "conflict_detector \<Rightarrow> transaction \<Rightarrow> conflict_detector" where
  "revert_transaction cd tx =
     cd\<lparr>committed_nonces := AList.delete (nonce_key tx) (committed_nonces cd)\<rparr>"

definition pending_spend_for_sender :: "address \<Rightarrow> transaction list \<Rightarrow> u64" where
  "pending_spend_for_sender sender pending_txs =
     foldl sat_add 0
       (map (\<lambda>tx. sat_add (tx_amount tx) (tx_fee tx))
         (filter (\<lambda>tx. tx_sender tx = sender) pending_txs))"

section \<open>Facts\<close>

lemma committed_commit [simp]:
  "has_key (committed_nonces (commit_transaction C cd tx)) k \<longleftrightarrow>
     k = nonce_key tx \<or> has_key (committed_nonces cd) k"
  by (simp add: commit_transaction_def has_key_update)

lemma committed_revert [simp]:
  "has_key (committed_nonces (revert_transaction cd tx)) k \<longleftrightarrow>
     k \<noteq> nonce_key tx \<and> has_key (committed_nonces cd) k"
  by (simp add: revert_transaction_def has_key_def amaps)

lemma check_nonce_conflict:
  "(\<exists>h. check_transaction cd tx b p = NonceConflict h (tx_sender tx) (tx_nonce tx)) \<longleftrightarrow>
     has_key (committed_nonces cd) (nonce_key tx)"
  by (auto simp: check_transaction_def has_key_def Let_def split: option.splits)

lemma check_no_conflict:
  "check_transaction cd tx b 0 = NoConflict \<longleftrightarrow>
     \<not> has_key (committed_nonces cd) (nonce_key tx) \<and> total_cost tx \<le> b"
  by (auto simp: check_transaction_def has_key_def Let_def total_cost_def split: option.splits)

lemma pending_spend_unat:
  "unat (foldl sat_add acc xs) = min (unat (acc :: u64) + sum_list (map unat xs)) (2 ^ 64 - 1)"
proof (induction xs arbitrary: acc)
  case Nil
  then show ?case using unat_u64_bound [of acc] by simp
next
  case (Cons x xs)
  then show ?case by (simp add: unat_sat_add)
qed

lemma map_of_fold_delete:
  "map_of (foldl (\<lambda>m h. AList.delete h m) m hs) x = (if x \<in> set hs then None else map_of m x)"
  by (induction hs arbitrary: m) (auto simp: map_of_del)

text \<open>The two tables agree: a set's members point to it, and it has them.\<close>

definition conflicts_ok :: "conflict_detector \<Rightarrow> bool" where
  "conflicts_ok cd \<longleftrightarrow>
     (\<forall>h cid. map_of (tx_to_conflict cd) h = Some cid \<longrightarrow>
        (\<exists>hs. map_of (conflict_sets cd) cid = Some hs \<and> h \<in> set hs)) \<and>
     (\<forall>cid hs h. map_of (conflict_sets cd) cid = Some hs \<longrightarrow> h \<in> set hs \<longrightarrow>
        map_of (tx_to_conflict cd) h = Some cid) \<and>
     (\<forall>cid. has_key (conflict_sets cd) cid \<longrightarrow> cid < next_conflict_id cd)"

lemma resolve_ok:
  assumes "conflicts_ok cd"
  shows "conflicts_ok (snd (resolve_conflict cd h)) \<and>
    (\<forall>x. is_conflicting (snd (resolve_conflict cd h)) x \<longleftrightarrow>
       is_conflicting cd x \<and> x \<noteq> h \<and> x \<notin> set (fst (resolve_conflict cd h)))"
proof (cases "map_of (tx_to_conflict cd) h")
  case None
  then show ?thesis using assms by (auto simp: resolve_conflict_def is_conflicting_def has_key_def)
next
  case (Some cid)
  with assms obtain hs where hs: "map_of (conflict_sets cd) cid = Some hs" "h \<in> set hs"
    unfolding conflicts_ok_def by blast
  have mem: "x \<in> set hs \<longleftrightarrow> map_of (tx_to_conflict cd) x = Some cid" for x
    using assms hs(1) by (auto simp: conflicts_ok_def) (metis option.inject)
  let ?rej = "filter (\<lambda>x. x \<noteq> h) hs"
  let ?cd = "cd\<lparr>conflict_sets := AList.delete cid (conflict_sets cd),
     tx_to_conflict := foldl (\<lambda>m h. AList.delete h m) (AList.delete h (tx_to_conflict cd)) ?rej\<rparr>"
  have eq: "resolve_conflict cd h = (?rej, ?cd)"
    using Some hs(1) by (simp add: resolve_conflict_def Let_def)
  have m: "map_of (tx_to_conflict ?cd) x
      = (if x \<in> set hs then None else map_of (tx_to_conflict cd) x)" for x
    using hs(2) by (auto simp: map_of_fold_delete map_of_del)
  have S: "map_of (conflict_sets ?cd) c = (if c = cid then None else map_of (conflict_sets cd) c)" for c
    by (simp add: map_of_del)
  have "\<exists>xs. map_of (conflict_sets ?cd) c = Some xs \<and> x \<in> set xs"
    if "map_of (tx_to_conflict ?cd) x = Some c" for x c
  proof -
    have x: "x \<notin> set hs" "map_of (tx_to_conflict cd) x = Some c"
      using that unfolding m by (auto split: if_splits)
    with mem have "c \<noteq> cid" by auto
    with x(2) assms show ?thesis unfolding S conflicts_ok_def by auto
  qed
  moreover have "map_of (tx_to_conflict ?cd) x = Some c"
    if "map_of (conflict_sets ?cd) c = Some xs" "x \<in> set xs" for c xs x
  proof -
    have c: "c \<noteq> cid" "map_of (conflict_sets cd) c = Some xs"
      using that(1) unfolding S by (auto split: if_splits)
    with that(2) assms have "map_of (tx_to_conflict cd) x = Some c"
      unfolding conflicts_ok_def by blast
    with c(1) show ?thesis unfolding m by (simp add: mem)
  qed
  moreover have "c < next_conflict_id ?cd" if "has_key (conflict_sets ?cd) c" for c
    using that assms unfolding conflicts_ok_def has_key_def S by (auto split: if_splits)
  ultimately have "conflicts_ok ?cd" unfolding conflicts_ok_def by blast
  with m hs(2) show ?thesis
    by (auto simp: eq is_conflicting_def has_key_def)
qed

lemma conflicts_ok_new: "conflicts_ok conflicts_new"
  by (simp add: conflicts_ok_def conflicts_new_def has_key_def)

section \<open>Properties\<close>

text \<open>A nonce is spent once: after a commit, every transaction of the same sender with the same
  nonce is a nonce conflict naming the committed hash, whatever its balance; other transactions
  are judged as before; and a revert frees the nonce again.\<close>

theorem committed_nonce_conflicts:
  "check_transaction (commit_transaction C cd tx) tx' b p =
     (if nonce_key tx' = nonce_key tx
      then NonceConflict (tx_hash C tx) (tx_sender tx') (tx_nonce tx')
      else check_transaction cd tx' b p) \<and>
   (nonce_key tx' = nonce_key tx \<longrightarrow>
      (check_transaction (revert_transaction (commit_transaction C cd tx) tx) tx' b 0 = NoConflict
        \<longleftrightarrow> total_cost tx' \<le> b))"
  by (auto simp: check_no_conflict)
    (simp_all add: check_transaction_def commit_transaction_def map_of_update)

theorem committed_nonce_conflicts_witness:
  "check_transaction (commit_transaction demo_crypto conflicts_new demo_tx)
     (demo_tx\<lparr>tx_amount := 7\<rparr>) 0 0 = NonceConflict (tx_hash demo_crypto demo_tx) (Address ''S'') 0 \<and>
   check_transaction (revert_transaction (commit_transaction demo_crypto conflicts_new demo_tx) demo_tx)
     (demo_tx\<lparr>tx_amount := 7\<rparr>) 1000007 0 = NoConflict"
proof -
  have "nonce_key (demo_tx\<lparr>tx_amount := 7\<rparr>) = nonce_key demo_tx" by (simp add: nonce_key_def)
  moreover have "total_cost (demo_tx\<lparr>tx_amount := 7\<rparr>) \<le> 1000007"
    by (simp add: total_cost_def demo_tx_def sat_add_def)
  moreover have fields: "tx_sender demo_tx = Address ''S''" "tx_nonce demo_tx = 0"
    by (simp_all add: demo_tx_def)
  ultimately show ?thesis
    using committed_nonce_conflicts [of demo_crypto conflicts_new demo_tx "demo_tx\<lparr>tx_amount := 7\<rparr>"]
    by (simp add: fields)
qed

text \<open>With consistent tables, resolving a conflict rejects every other member of the accepted
  transaction's set and frees exactly that set; the tables stay consistent.\<close>

theorem resolve_conflict_exact:
  assumes "conflicts_ok cd" "get_conflict_set cd h = Some hs"
  shows "fst (resolve_conflict cd h) = filter (\<lambda>x. x \<noteq> h) hs \<and>
    conflicts_ok (snd (resolve_conflict cd h)) \<and>
    (\<forall>x. is_conflicting (snd (resolve_conflict cd h)) x \<longleftrightarrow> is_conflicting cd x \<and> x \<notin> set hs)"
proof -
  from assms(2) obtain cid where cid: "map_of (tx_to_conflict cd) h = Some cid"
    "map_of (conflict_sets cd) cid = Some hs"
    by (auto simp: get_conflict_set_def bind_eq_Some_conv)
  with assms(1) have "h \<in> set hs" unfolding conflicts_ok_def by fastforce
  moreover have "fst (resolve_conflict cd h) = filter (\<lambda>x. x \<noteq> h) hs"
    using cid by (simp add: resolve_conflict_def Let_def)
  ultimately show ?thesis using resolve_ok [OF assms(1), of h] by auto
qed

definition demo_conflicts :: conflict_detector where
  "demo_conflicts = register_conflict conflicts_new (TransactionHash [1]) (TransactionHash [2])"

lemma demo_conflicts_ok: "conflicts_ok demo_conflicts"
  by (simp add: demo_conflicts_def conflicts_ok_def register_conflict_def conflicts_new_def
      has_key_def)

theorem resolve_conflict_exact_witness:
  "fst (resolve_conflict demo_conflicts (TransactionHash [1])) = [TransactionHash [2]]"
proof -
  have "get_conflict_set demo_conflicts (TransactionHash [1])
      = Some [TransactionHash [2], TransactionHash [1]]"
    by (simp add: demo_conflicts_def register_conflict_def conflicts_new_def get_conflict_set_def)
  from resolve_conflict_exact [OF demo_conflicts_ok this] show ?thesis by simp
qed

text \<open>Registering a second conflict for a transaction breaks the tables: after \<open>a\<close> conflicts
  with \<open>b\<close> and then with \<open>c\<close>, accepting \<open>a\<close> rejects only \<open>c\<close>, and a later resolution in favour
  of \<open>b\<close> rejects the already accepted \<open>a\<close>.\<close>

theorem second_conflict_overwrites:
  assumes "a \<noteq> b" "a \<noteq> c" "b \<noteq> c"
  shows "let cd = register_conflict (register_conflict conflicts_new a b) a c;
             (rejected, cd') = resolve_conflict cd a
         in rejected = [c] \<and> fst (resolve_conflict cd' b) = [a]"
  using assms
  by (simp add: register_conflict_def conflicts_new_def resolve_conflict_def Let_def)

theorem second_conflict_overwrites_witness:
  "fst (resolve_conflict (register_conflict (register_conflict conflicts_new
      (TransactionHash [1]) (TransactionHash [2])) (TransactionHash [1]) (TransactionHash [3]))
      (TransactionHash [1])) = [TransactionHash [3]]"
  using second_conflict_overwrites [of "TransactionHash [1]" "TransactionHash [2]"
      "TransactionHash [3]"]
  by (simp add: Let_def split_beta)

end
