(* ===== verification/Graph.thy ===== *)
theory Graph
  imports Ledger Tips Conflicts
begin

text \<open>
  \<open>relyo-dag/src/graph.rs\<close>: the transaction graph over the ledger, the tips and the conflict
  detector: insertion with its chain of checks, genesis, status, the two breadth-first
  traversals, pruning.

  The parts the code shares through \<open>Arc\<close> are fields of the graph's record.  \<open>sender_locks\<close> is
  the list of the keys of its map: a lock is held for the whole critical section, which is one
  step here.  \<open>now\<close> is the clock the tip selector reads.
\<close>

record dag_node =
  dn_tx :: transaction
  dn_hash :: transaction_hash
  dn_status :: transaction_status
  dn_children :: "transaction_hash list"
  dn_weight :: u64
  dn_depth :: u64

record dag_graph =
  g_nodes :: "(transaction_hash \<times> dag_node) list"
  g_sender_locks :: "string list"
  g_state :: ledger_state
  g_tips :: tip_selector
  g_conflicts :: conflict_detector
  g_total_count :: u64
  g_max_depth :: u64

definition graph_new :: "ledger_state \<Rightarrow> tip_selector \<Rightarrow> conflict_detector \<Rightarrow> dag_graph" where
  "graph_new st ts cd =
     \<lparr>g_nodes = [], g_sender_locks = [], g_state = st, g_tips = ts, g_conflicts = cd,
      g_total_count = 0, g_max_depth = 0\<rparr>"

section \<open>Insertion\<close>

definition insert_genesis ::
    "crypto \<Rightarrow> nat \<Rightarrow> dag_graph \<Rightarrow> transaction \<Rightarrow> transaction_hash result \<times> dag_graph" where
  "insert_genesis C now g tx =
     (if \<not> is_genesis tx then (Inl (InvalidTransaction ''not a genesis transaction''), g)
      else
        let hash = tx_hash C tx;
            node = \<lparr>dn_tx = tx, dn_hash = hash, dn_status = Confirmed, dn_children = [],
                    dn_weight = 1, dn_depth = 0\<rparr>
        in (Inr hash,
            g\<lparr>g_state := credit (g_state g) (tx_receiver tx) (tx_amount tx),
              g_nodes := AList.update hash node (g_nodes g),
              g_tips := add_tip now (g_tips g) hash,
              g_total_count := g_total_count g + 1\<rparr>))"

definition add_child :: "dag_graph \<Rightarrow> transaction_hash \<Rightarrow> transaction_hash \<Rightarrow> dag_graph" where
  "add_child g parent_hash child_hash =
     g\<lparr>g_nodes := AList.map_entry parent_hash
         (\<lambda>n. n\<lparr>dn_children := dn_children n @ [child_hash]\<rparr>) (g_nodes g)\<rparr>"

definition propagate_weight :: "dag_graph \<Rightarrow> transaction_hash \<Rightarrow> dag_graph" where
  "propagate_weight g hash =
     g\<lparr>g_nodes := AList.map_entry hash (\<lambda>n. n\<lparr>dn_weight := dn_weight n + 1\<rparr>) (g_nodes g)\<rparr>"

definition node_depth :: "dag_graph \<Rightarrow> transaction_hash \<Rightarrow> u64" where
  "node_depth g h = (case map_of (g_nodes g) h of None \<Rightarrow> 0 | Some n \<Rightarrow> dn_depth n)"

text \<open>The end of \<open>insert\<close>, after the ledger: depth, parents, tips and the node itself.\<close>

definition attach ::
    "nat \<Rightarrow> dag_graph \<Rightarrow> transaction \<Rightarrow> transaction_hash \<Rightarrow> dag_graph" where
  "attach now g tx hash =
     (let depth = (if is_genesis tx then 0
                   else max (node_depth g (tx_parent_1 tx)) (node_depth g (tx_parent_2 tx)) + 1);
          g1 = (if depth \<le> g_max_depth g then g else g\<lparr>g_max_depth := depth\<rparr>);
          g2 = (if is_genesis tx then g1
                else propagate_weight (propagate_weight
                       (add_child (add_child g1 (tx_parent_1 tx) hash) (tx_parent_2 tx) hash)
                       (tx_parent_1 tx)) (tx_parent_2 tx));
          ts = remove_tip (remove_tip (g_tips g2) (tx_parent_1 tx)) (tx_parent_2 tx);
          node = \<lparr>dn_tx = tx, dn_hash = hash, dn_status = Pending, dn_children = [],
                  dn_weight = 1, dn_depth = depth\<rparr>
      in g2\<lparr>g_tips := add_tip now ts hash,
            g_nodes := AList.update hash node (g_nodes g2),
            g_total_count := g_total_count g2 + 1\<rparr>)"

definition SUPPLY_CAP :: u64 where
  "SUPPLY_CAP = 25000000000 * RLY_UNIT"

definition cap_message :: "transaction \<Rightarrow> string" where
  "cap_message tx =
     ''Transaction amount '' @ show_word (tx_amount tx) @ '' violates 25B max supply limit.''"

text \<open>The part of \<open>insert\<close> under the sender's lock.\<close>

definition insert_locked ::
    "crypto \<Rightarrow> nat \<Rightarrow> dag_graph \<Rightarrow> transaction \<Rightarrow> transaction_hash result \<times> dag_graph" where
  "insert_locked C now g tx =
     (let hash = tx_hash C tx; st = g_state g in
      if has_key (g_nodes g) hash then (Inl (InvalidTransaction ''duplicate transaction''), g)
      else if \<not> is_genesis tx \<and> \<not> has_key (g_nodes g) (tx_parent_1 tx)
        then (Inl (InvalidParent (to_hex C (tx_parent_1 tx))), g)
      else if \<not> is_genesis tx \<and> \<not> has_key (g_nodes g) (tx_parent_2 tx)
        then (Inl (InvalidParent (to_hex C (tx_parent_2 tx))), g)
      else if sat_add (total_circulating st) (tx_amount tx) > SUPPLY_CAP
        then (Inl (SupplyCapExceeded (cap_message tx)), g)
      else case checked_add (tx_amount tx) (tx_fee tx) of
        None \<Rightarrow> (Inl (InvalidTransaction ''amount overflow''), g)
      | Some total_debit \<Rightarrow>
          let sender_balance = balance st (tx_sender tx) in
          if sender_balance < total_debit
            then (Inl (InsufficientBalance sender_balance total_debit), g)
          else case check_transaction (g_conflicts g) tx sender_balance 0 of
            NonceConflict _ _ _ \<Rightarrow> (Inl (DuplicateNonce (tx_nonce tx)), g)
          | DoubleSpendConflict _ _ _ \<Rightarrow> (Inl (DoubleSpend (to_hex C hash)), g)
          | NoConflict \<Rightarrow>
              let expected_nonce = nonce st (tx_sender tx) + 1 in
              if tx_nonce tx \<noteq> expected_nonce then (Inl (DuplicateNonce (tx_nonce tx)), g)
              else case debit st (tx_sender tx) total_debit of
                (Inl e, st') \<Rightarrow> (Inl e, g\<lparr>g_state := st'\<rparr>)
              | (Inr _, st') \<Rightarrow>
                  let st2 = credit st' (tx_receiver tx) (tx_amount tx);
                      st3 = increment_nonce st2 (tx_sender tx)
                  in (Inr hash,
                      attach now
                        (g\<lparr>g_state := st3, g_conflicts := commit_transaction C (g_conflicts g) tx\<rparr>)
                        tx hash))"

definition dag_insert ::
    "crypto \<Rightarrow> nat \<Rightarrow> dag_graph \<Rightarrow> transaction \<Rightarrow> transaction_hash result \<times> dag_graph" where
  "dag_insert C now g tx =
     (case validate C tx of
        Inl e \<Rightarrow> (Inl e, g)
      | Inr _ \<Rightarrow>
          (case checked_add (tx_amount tx) (tx_fee tx) of
             None \<Rightarrow> (Inl (InvalidTransaction ''amount overflow''), g)
           | Some total_debit \<Rightarrow>
               let pre_balance = balance (g_state g) (tx_sender tx) in
               if pre_balance < total_debit
                 then (Inl (InsufficientBalance pre_balance total_debit), g)
               else insert_locked C now
                 (g\<lparr>g_sender_locks := List.insert (as_str (tx_sender tx)) (g_sender_locks g)\<rparr>) tx))"

section \<open>Other operations\<close>

definition set_status :: "dag_graph \<Rightarrow> transaction_hash \<Rightarrow> transaction_status \<Rightarrow> dag_graph" where
  "set_status g hash st =
     g\<lparr>g_nodes := AList.map_entry hash (\<lambda>n. n\<lparr>dn_status := st\<rparr>) (g_nodes g)\<rparr>"

definition get_node :: "dag_graph \<Rightarrow> transaction_hash \<Rightarrow> dag_node option" where
  "get_node g hash = map_of (g_nodes g) hash"

definition contains :: "dag_graph \<Rightarrow> transaction_hash \<Rightarrow> bool" where
  "contains g hash = has_key (g_nodes g) hash"

definition has_transaction :: "dag_graph \<Rightarrow> transaction_hash \<Rightarrow> bool" where
  "has_transaction g hash = has_key (g_nodes g) hash"

definition graph_len :: "dag_graph \<Rightarrow> u64" where
  "graph_len g = g_total_count g"

definition graph_is_empty :: "dag_graph \<Rightarrow> bool" where
  "graph_is_empty g = (graph_len g = 0)"

definition graph_balance :: "dag_graph \<Rightarrow> address \<Rightarrow> u64" where
  "graph_balance g addr = balance (g_state g) addr"

definition graph_nonce :: "dag_graph \<Rightarrow> address \<Rightarrow> u64" where
  "graph_nonce g addr = nonce (g_state g) addr"

definition confirmation_depth :: "dag_graph \<Rightarrow> transaction_hash \<Rightarrow> u64" where
  "confirmation_depth g hash =
     (case map_of (g_nodes g) hash of
        None \<Rightarrow> 0
      | Some n \<Rightarrow> sat_sub (g_max_depth g) (dn_depth n))"

definition prune_confirmed :: "dag_graph \<Rightarrow> u64 \<Rightarrow> transaction_hash list \<times> dag_graph" where
  "prune_confirmed g min_confirmation_depth =
     (let goes = (\<lambda>(h, n). dn_status n = Confirmed \<and>
                    sat_sub (g_max_depth g) (dn_depth n) > min_confirmation_depth)
      in (map fst (filter goes (g_nodes g)),
          g\<lparr>g_nodes := filter (\<lambda>e. \<not> goes e) (g_nodes g)\<rparr>))"

text \<open>
  The loop of \<open>get_ancestors\<close> and \<open>get_descendants\<close>: a queue of hashes with their level, the
  visited set and the result.  \<open>next\<close> is what a node pushes.
\<close>

function bfs ::
    "(transaction_hash \<times> dag_node) list \<Rightarrow> (dag_node \<Rightarrow> transaction_hash list) \<Rightarrow> u64 \<Rightarrow>
       (transaction_hash \<times> u64) list \<Rightarrow> transaction_hash list \<Rightarrow> transaction_hash list \<Rightarrow>
       transaction_hash list" where
  "bfs nodes next max_levels [] visited result = result"
| "bfs nodes next max_levels ((current, level) # queue) visited result =
     (if level > max_levels then bfs nodes next max_levels queue visited result
      else if current \<in> set visited then bfs nodes next max_levels queue visited result
      else case map_of nodes current of
        None \<Rightarrow> bfs nodes next max_levels queue (current # visited) result
      | Some node \<Rightarrow>
          bfs nodes next max_levels (queue @ map (\<lambda>h. (h, level + 1)) (next node))
            (current # visited) (if level > 0 then result @ [current] else result))"
  by pat_completeness auto

termination
proof (relation "measures [\<lambda>(nodes, _, _, _, visited, _). card (set (keys nodes) - set visited),
    \<lambda>(_, _, _, queue, _, _). length queue]", goal_cases)
  case (4 nodes _ _ current _ _ visited)
  then have "set (keys nodes) - set (current # visited) = set (keys nodes) - set visited"
    by (auto simp: map_of_eq_None_iff)
  then show ?case by simp
next
  case (5 nodes _ _ current _ _ visited node)
  then have "current \<in> set (keys nodes) - set visited"
    by (auto dest!: map_of_SomeD intro: rev_image_eqI)
  then have "card (set (keys nodes) - set (current # visited)) < card (set (keys nodes) - set visited)"
    by (intro psubset_card_mono) auto
  then show ?case by simp
qed auto

definition parent_links :: "dag_node \<Rightarrow> transaction_hash list" where
  "parent_links node =
     (if is_zero (tx_parent_1 (dn_tx node)) then [] else [tx_parent_1 (dn_tx node)]) @
     (if is_zero (tx_parent_2 (dn_tx node)) then [] else [tx_parent_2 (dn_tx node)])"

definition get_ancestors :: "dag_graph \<Rightarrow> transaction_hash \<Rightarrow> u64 \<Rightarrow> transaction_hash list" where
  "get_ancestors g hash max_levels = bfs (g_nodes g) parent_links max_levels [(hash, 0)] [] []"

definition get_descendants :: "dag_graph \<Rightarrow> transaction_hash \<Rightarrow> u64 \<Rightarrow> transaction_hash list" where
  "get_descendants g hash max_levels = bfs (g_nodes g) dn_children max_levels [(hash, 0)] [] []"

section \<open>Facts about insertion\<close>

text \<open>When a transaction enters the graph: the conjunction of the checks.\<close>

definition acceptable :: "crypto \<Rightarrow> dag_graph \<Rightarrow> transaction \<Rightarrow> bool" where
  "acceptable C g tx \<longleftrightarrow>
     validate C tx = Inr () \<and>
     unat (tx_amount tx) + unat (tx_fee tx) < 2 ^ 64 \<and>
     tx_amount tx + tx_fee tx \<le> balance (g_state g) (tx_sender tx) \<and>
     \<not> has_key (g_nodes g) (tx_hash C tx) \<and>
     (is_genesis tx \<or> has_key (g_nodes g) (tx_parent_1 tx) \<and> has_key (g_nodes g) (tx_parent_2 tx)) \<and>
     sat_add (total_circulating (g_state g)) (tx_amount tx) \<le> SUPPLY_CAP \<and>
     \<not> has_key (committed_nonces (g_conflicts g)) (nonce_key tx) \<and>
     tx_nonce tx = nonce (g_state g) (tx_sender tx) + 1"

definition lock_sender :: "dag_graph \<Rightarrow> transaction \<Rightarrow> dag_graph" where
  "lock_sender g tx =
     g\<lparr>g_sender_locks := List.insert (as_str (tx_sender tx)) (g_sender_locks g)\<rparr>"

text \<open>The ledger after an accepted transaction.\<close>

definition pay :: "ledger_state \<Rightarrow> transaction \<Rightarrow> ledger_state" where
  "pay st tx =
     increment_nonce
       (credit (snd (debit st (tx_sender tx) (tx_amount tx + tx_fee tx))) (tx_receiver tx) (tx_amount tx))
       (tx_sender tx)"

definition accepted :: "crypto \<Rightarrow> nat \<Rightarrow> dag_graph \<Rightarrow> transaction \<Rightarrow> dag_graph" where
  "accepted C now g tx =
     attach now
       (g\<lparr>g_state := pay (g_state g) tx, g_conflicts := commit_transaction C (g_conflicts g) tx\<rparr>)
       tx (tx_hash C tx)"

lemma debit_Inr: "v \<le> balance s a \<Longrightarrow> debit s a v = (Inr (), snd (debit s a v))"
  using balance_book.sub_ok [of s a v] by (simp add: prod_eq_iff)

lemma no_double_spend:
  assumes "unat (tx_amount tx) + unat (tx_fee tx) < 2 ^ 64" "tx_amount tx + tx_fee tx \<le> b"
  shows "check_transaction cd tx b 0 = NoConflict \<or>
    (\<exists>h. check_transaction cd tx b 0 = NonceConflict h (tx_sender tx) (tx_nonce tx))"
proof -
  have "total_cost tx = tx_amount tx + tx_fee tx"
    using assms(1) by (simp add: total_cost_def sat_add_def)
  then show ?thesis
    using check_no_conflict [of cd tx b] check_nonce_conflict [of cd tx b 0] assms(2) by auto
qed

lemma insert_locked_result:
  assumes "checked_add (tx_amount tx) (tx_fee tx) = Some v" "v \<le> balance (g_state g) (tx_sender tx)"
    "validate C tx = Inr ()"
  shows "if acceptable C g tx
    then insert_locked C now g tx = (Inr (tx_hash C tx), accepted C now g tx)
    else \<exists>e. insert_locked C now g tx = (Inl e, g) \<and> (\<forall>s. e \<noteq> DoubleSpend s)"
proof -
  have v: "v = tx_amount tx + tx_fee tx" "unat (tx_amount tx) + unat (tx_fee tx) < 2 ^ 64"
    using assms(1) by (simp_all add: checked_add_Some)
  let ?c = "check_transaction (g_conflicts g) tx (balance (g_state g) (tx_sender tx)) 0"
  have c: "?c = NoConflict \<longleftrightarrow> \<not> has_key (committed_nonces (g_conflicts g)) (nonce_key tx)"
    "?c = NoConflict \<or> (\<exists>h. ?c = NonceConflict h (tx_sender tx) (tx_nonce tx))"
    using no_double_spend [of tx "balance (g_state g) (tx_sender tx)" "g_conflicts g"] assms(2) v
      check_nonce_conflict [of "g_conflicts g" tx "balance (g_state g) (tx_sender tx)" 0] by auto
  note d = debit_Inr [of v "g_state g" "tx_sender tx"]
  show ?thesis
  proof (cases "acceptable C g tx")
    case True
    then have "\<not> SUPPLY_CAP < sat_add (total_circulating (g_state g)) (tx_amount tx)"
      "\<not> balance (g_state g) (tx_sender tx) < v" "?c = NoConflict"
      using assms(2) c(1) by (simp_all add: acceptable_def not_less)
    moreover obtain st where "debit (g_state g) (tx_sender tx) v = (Inr (), st)"
      using debit_Inr [OF assms(2)] by metis
    ultimately show ?thesis using True assms(1)
      unfolding accepted_def pay_def v(1) [symmetric]
      by (auto simp: insert_locked_def acceptable_def Let_def)
  next
    case False
    then show ?thesis using assms c v
      by (auto simp: insert_locked_def acceptable_def Let_def not_le)
  qed
qed

lemma acceptable_lock [simp]: "acceptable C (lock_sender g tx) tx' = acceptable C g tx'"
  by (simp add: acceptable_def lock_sender_def)

lemma dag_insert_eq:
  "dag_insert C now g tx =
    (case validate C tx of
       Inl e \<Rightarrow> (Inl e, g)
     | Inr _ \<Rightarrow>
         (case checked_add (tx_amount tx) (tx_fee tx) of
            None \<Rightarrow> (Inl (InvalidTransaction ''amount overflow''), g)
          | Some v \<Rightarrow>
              if balance (g_state g) (tx_sender tx) < v
              then (Inl (InsufficientBalance (balance (g_state g) (tx_sender tx)) v), g)
              else insert_locked C now (lock_sender g tx) tx))"
  unfolding dag_insert_def lock_sender_def Let_def ..

lemma validate_not_double_spend: "validate C tx \<noteq> Inl (DoubleSpend s)"
  by (simp add: validate_def verify_sender_def verify_signature_def verify_def try_then_def
      split: option.splits)

lemma dag_insert_result:
  "if acceptable C g tx
   then dag_insert C now g tx = (Inr (tx_hash C tx), accepted C now (lock_sender g tx) tx)
   else \<exists>e g'. dag_insert C now g tx = (Inl e, g') \<and> g' \<in> {g, lock_sender g tx} \<and>
     (\<forall>s. e \<noteq> DoubleSpend s)"
proof (cases "validate C tx")
  case (Inl e)
  then show ?thesis using validate_not_double_spend [of C tx]
    by (auto simp: dag_insert_eq acceptable_def)
next
  case (Inr u)
  then have valid: "validate C tx = Inr ()" by simp
  show ?thesis
  proof (cases "\<exists>v. checked_add (tx_amount tx) (tx_fee tx) = Some v \<and>
      v \<le> balance (g_state g) (tx_sender tx)")
    case True
    then obtain v where v: "checked_add (tx_amount tx) (tx_fee tx) = Some v"
      "v \<le> balance (g_state g) (tx_sender tx)" by auto
    then have "v \<le> balance (g_state (lock_sender g tx)) (tx_sender tx)" by (simp add: lock_sender_def)
    from insert_locked_result [OF v(1) this valid, of now] v show ?thesis
      by (auto simp: dag_insert_eq valid not_less [symmetric])
  next
    case False
    then have "\<not> acceptable C g tx" by (auto simp: acceptable_def checked_add_Some)
    with False valid show ?thesis
      by (auto simp: dag_insert_eq not_le split: option.split)
  qed
qed

lemma dag_insert_acceptable:
  "acceptable C g tx \<Longrightarrow>
     dag_insert C now g tx = (Inr (tx_hash C tx), accepted C now (lock_sender g tx) tx)"
  using dag_insert_result [of C g tx now] by simp

lemma dag_insert_Inr:
  "dag_insert C now g tx = (Inr h, g') \<longleftrightarrow>
     acceptable C g tx \<and> h = tx_hash C tx \<and> g' = accepted C now (lock_sender g tx) tx"
  using dag_insert_result [of C g tx now] by (auto split: if_splits)

lemma dag_insert_Inl:
  "dag_insert C now g tx = (Inl e, g') \<Longrightarrow>
     \<not> acceptable C g tx \<and> g' \<in> {g, lock_sender g tx} \<and> (\<forall>s. e \<noteq> DoubleSpend s)"
  using dag_insert_result [of C g tx now] by (auto split: if_splits)

lemma attach_frame [simp]:
  "g_state (attach now g tx h) = g_state g" "g_conflicts (attach now g tx h) = g_conflicts g"
  "g_sender_locks (attach now g tx h) = g_sender_locks g"
  "g_total_count (attach now g tx h) = g_total_count g + 1"
  by (simp_all add: attach_def add_child_def propagate_weight_def Let_def)

lemma accepted_parts [simp]:
  "g_state (accepted C now g tx) = pay (g_state g) tx"
  "g_conflicts (accepted C now g tx) = commit_transaction C (g_conflicts g) tx"
  "g_sender_locks (accepted C now g tx) = g_sender_locks g"
  by (simp_all add: accepted_def)

lemma lock_sender_parts [simp]:
  "g_state (lock_sender g tx) = g_state g" "g_nodes (lock_sender g tx) = g_nodes g"
  "g_tips (lock_sender g tx) = g_tips g" "g_conflicts (lock_sender g tx) = g_conflicts g"
  "g_total_count (lock_sender g tx) = g_total_count g" "g_max_depth (lock_sender g tx) = g_max_depth g"
  by (simp_all add: lock_sender_def)

lemma pay_frame [simp]:
  "stakes (pay st tx) = stakes st" "unstake_requests (pay st tx) = unstake_requests st"
  by (simp_all add: pay_def)

lemma pay_ledger_ok: "ledger_ok st \<Longrightarrow> ledger_ok (pay st tx)"
  by (simp add: pay_def)

lemma pay_total:
  assumes "ledger_total st < 2 ^ 64" "unat (tx_amount tx) + unat (tx_fee tx) < 2 ^ 64"
    "tx_amount tx + tx_fee tx \<le> balance st (tx_sender tx)"
  shows "ledger_total (pay st tx) + unat (tx_fee tx) = ledger_total st"
proof -
  have "balance_total st < 2 ^ 64" using assms(1) by (simp add: ledger_total_def)
  from ledger_accounts.payment(1) [OF this assms(2,3), of "tx_receiver tx"] show ?thesis
    by (simp add: ledger_total_def pay_def stake_total_def pending_total_def)
qed

lemma total_circulating_small: "ledger_total st < 2 ^ 64 \<Longrightarrow> unat (total_circulating st) = ledger_total st"
  using total_circulating_unat [of st] by simp

section \<open>A concrete graph\<close>

text \<open>One funded account, its key, a genesis node that serves as parent, and a transfer.\<close>

definition demo_kp :: keypair where
  "demo_kp = generate demo_crypto [3]"

definition demo_addr :: address where
  "demo_addr = from_public_key demo_crypto (kp_public_key demo_kp)"

definition demo_genesis_tx :: transaction where
  "demo_genesis_tx = builder_sign demo_crypto 0 demo_kp
     ((builder_new (Address ''G'') demo_addr 5000000 0 0)\<lparr>b_tx_type := Genesis\<rparr>)"

definition demo_graph :: dag_graph where
  "demo_graph =
     snd (insert_genesis demo_crypto 0 (graph_new ledger_new tips_new conflicts_new) demo_genesis_tx)"

definition demo_transfer :: transaction where
  "demo_transfer = builder_sign demo_crypto 7 demo_kp
     (builder_parents (tx_hash demo_crypto demo_genesis_tx) (tx_hash demo_crypto demo_genesis_tx)
       (builder_new demo_addr (Address ''R'') 250 1000000 1))"

lemma demo_graph_parts:
  "g_state demo_graph = credit ledger_new demo_addr 5000000"
  "keys (g_nodes demo_graph) = [tx_hash demo_crypto demo_genesis_tx]"
  "g_conflicts demo_graph = conflicts_new"
  by (simp_all add: demo_graph_def insert_genesis_def demo_genesis_tx_def is_genesis_def graph_new_def
      builder_new_def zero_hash_def is_zero_def Let_def)

lemma demo_addr_not_R: "demo_addr \<noteq> Address [c]"
  by (simp add: demo_addr_def demo_kp_def from_public_key_def from_public_key_typed_raw
      raw_address_def demo_crypto_def Let_def)

lemma demo_hashes: "tx_hash demo_crypto demo_transfer \<noteq> tx_hash demo_crypto demo_genesis_tx"
  by code_simp

lemma SUPPLY_CAP_unat [simp]: "unat SUPPLY_CAP = 2500000000000000000"
  by (simp add: SUPPLY_CAP_def RLY_UNIT_def)

lemma demo_total: "ledger_total (credit ledger_new a v) = unat v"
  by (simp add: ledger_total_def balance_total_def stake_total_def pending_total_def credit_def
      ledger_new_def)

lemma demo_balance_credit: "balance (credit ledger_new a v) b = (if b = a then v else 0)"
  by (simp add: balance_def credit_def ledger_new_def get_or_def)

lemma demo_valid: "validate demo_crypto demo_transfer = Inr ()"
  unfolding demo_transfer_def demo_kp_def
  by (rule builder_sign_validates)
    (simp_all add: builder_parents_def builder_new_def demo_addr_def [unfolded demo_kp_def]
      demo_addr_not_R [unfolded demo_addr_def demo_kp_def, symmetric] base_fee_num)

lemma demo_acceptable: "acceptable demo_crypto demo_graph demo_transfer"
proof -
  let ?h = "tx_hash demo_crypto demo_genesis_tx"
  have keys: "has_key (g_nodes demo_graph) x \<longleftrightarrow> x = ?h" for x
    by (simp add: has_key_iff demo_graph_parts)
  have fields: "tx_amount demo_transfer = 250" "tx_fee demo_transfer = 1000000"
    "tx_nonce demo_transfer = 1" "tx_parent_1 demo_transfer = ?h" "tx_parent_2 demo_transfer = ?h"
    "tx_sender demo_transfer = demo_addr"
    by (simp_all add: demo_transfer_def builder_parents_def builder_new_def)
  have "unat (sat_add (total_circulating (g_state demo_graph)) 250) = 5000250"
    by (simp add: unat_sat_add total_circulating_unat demo_graph_parts demo_total)
  then have "sat_add (total_circulating (g_state demo_graph)) 250 \<le> SUPPLY_CAP"
    by (simp add: word_le_unat)
  then show ?thesis
    using demo_hashes
    by (simp add: acceptable_def demo_valid fields keys demo_graph_parts demo_balance_credit
        conflicts_new_def nonce_def get_or_def)
      (simp add: credit_def ledger_new_def)
qed

lemma demo_insert:
  "dag_insert demo_crypto now demo_graph demo_transfer
     = (Inr (tx_hash demo_crypto demo_transfer),
        accepted demo_crypto now (lock_sender demo_graph demo_transfer) demo_transfer)"
  by (rule dag_insert_acceptable [OF demo_acceptable])

section \<open>Properties\<close>

text \<open>C2: \<open>insert\<close> accepts a transaction exactly when it is valid, its cost does not overflow and
  is covered by the sender's balance, its hash is new, its parents are in the graph (unless it
  is a genesis transaction), the supply check passes, its nonce is uncommitted and the sender's
  next one; otherwise it fails with an error that is never \<open>DoubleSpend\<close>: the conflict
  detector's double-spend check cannot fire behind the balance check.\<close>

theorem insert_accepts_iff:
  "(fst (dag_insert C now g tx) = Inr (tx_hash C tx) \<longleftrightarrow> acceptable C g tx) \<and>
   (\<forall>s. fst (dag_insert C now g tx) \<noteq> Inl (DoubleSpend s))"
  using dag_insert_result [of C g tx now] by (auto split: if_splits)

text \<open>C40: A refused transaction changes nothing but, at most, the set of sender locks: ledger,
  nodes, tips, conflicts and counters are as before.\<close>

theorem insert_error_unchanged:
  assumes "dag_insert C now g tx = (Inl e, g')"
  shows "g' = g\<lparr>g_sender_locks := g_sender_locks g'\<rparr> \<and>
    set (g_sender_locks g') \<subseteq> Set.insert (as_str (tx_sender tx)) (set (g_sender_locks g))"
  using dag_insert_Inl [OF assms] by (auto simp: lock_sender_def)

theorem insert_error_unchanged_witness:
  "\<exists>e g'. dag_insert demo_crypto 0 demo_graph demo_genesis_tx = (Inl e, g') \<and>
     g_nodes g' = g_nodes demo_graph \<and> g_state g' = g_state demo_graph"
proof -
  have "\<not> acceptable demo_crypto demo_graph demo_genesis_tx"
    by (simp add: acceptable_def has_key_iff demo_graph_parts)
  with dag_insert_result [of demo_crypto demo_graph demo_genesis_tx 0] obtain e g'
    where "dag_insert demo_crypto 0 demo_graph demo_genesis_tx = (Inl e, g')" by auto
  with insert_error_unchanged [OF this] show ?thesis
    by (metis dag_graph.ext_inject dag_graph.surjective dag_graph.update_convs(2))
qed



text \<open>The supply check counts the amount of a transfer as new supply: no transaction can be
  accepted whose amount, added to what already circulates, exceeds 25 billion RLY, although an
  accepted transaction never raises the total.\<close>

theorem supply_check_refuses_transfers:
  assumes "ledger_total (g_state g) < 2 ^ 64"
    and "2500000000000000000 < ledger_total (g_state g) + unat (tx_amount tx)"
  shows "\<exists>e. fst (dag_insert C now g tx) = Inl e"
proof -
  have "unat (total_circulating (g_state g)) = ledger_total (g_state g)"
    using assms(1) by (rule total_circulating_small)
  then have "\<not> sat_add (total_circulating (g_state g)) (tx_amount tx) \<le> SUPPLY_CAP"
    using assms(2) by (simp add: word_le_unat unat_sat_add)
  then have "\<not> acceptable C g tx" by (simp add: acceptable_def)
  then show ?thesis using dag_insert_result [of C g tx now] by auto
qed

theorem supply_check_refuses_transfers_witness:
  "\<exists>e. fst (dag_insert demo_crypto 0
     (demo_graph\<lparr>g_state := credit ledger_new demo_addr TOTAL_SUPPLY\<rparr>) demo_transfer) = Inl e"
  by (rule supply_check_refuses_transfers)
    (simp_all add: demo_total, simp add: demo_transfer_def builder_parents_def builder_new_def)

text \<open>The base fee can be avoided: a transaction of type \<open>Genesis\<close> with zero parents, amount 0
  and fee 0, signed by any key, is accepted even with an empty balance, without any parent in the
  graph, and enters at depth 0 as a new tip.\<close>

theorem free_genesis_accepted:
  assumes "crypto_ok C" "keypair_ok C kp" "a = from_public_key C (kp_public_key kp)"
    and "tx = builder_sign C ts kp ((builder_new a a 0 0 1)\<lparr>b_tx_type := Genesis\<rparr>)"
    and "nonce (g_state g) a = 0" "\<not> has_key (committed_nonces (g_conflicts g)) (as_str a, 1)"
    and "\<not> has_key (g_nodes g) (tx_hash C tx)" "total_circulating (g_state g) \<le> SUPPLY_CAP"
  shows "\<exists>g'. dag_insert C now g tx = (Inr (tx_hash C tx), g') \<and> has_tip (g_tips g') (tx_hash C tx) \<and>
    node_depth g' (tx_hash C tx) = 0"
proof -
  have fields: "tx_amount tx = 0" "tx_fee tx = 0" "tx_nonce tx = 1" "tx_sender tx = a"
    "is_genesis tx"
    using assms(4) by (simp_all add: builder_new_def is_genesis_def is_zero_def zero_hash_def)
  have "validate C tx = Inr ()"
    using assms(1-3) fields
    by (simp add: validate_Inr, simp add: assms(4) builder_sign_verifies builder_new_def)
  then have "acceptable C g tx"
    using assms fields by (simp add: acceptable_def nonce_key_def)
  note ins = dag_insert_acceptable [OF this, of now]
  show ?thesis
    by (intro exI conjI, rule ins)
      (simp_all add: accepted_def attach_def fields Let_def has_tip_def add_tip_def node_depth_def
        map_of_update)
qed

theorem free_genesis_accepted_witness:
  "\<exists>tx g'. dag_insert demo_crypto 0 (graph_new ledger_new tips_new conflicts_new) tx
     = (Inr (tx_hash demo_crypto tx), g') \<and> tx_fee tx = 0"
proof -
  let ?tx = "builder_sign demo_crypto 5 demo_kp ((builder_new demo_addr demo_addr 0 0 1)
    \<lparr>b_tx_type := Genesis\<rparr>)"
  let ?g = "graph_new ledger_new tips_new conflicts_new"
  have "total_circulating ledger_new = 0"
    by (simp add: total_circulating_def ledger_new_def)
  then have "\<exists>g'. dag_insert demo_crypto 0 ?g ?tx = (Inr (tx_hash demo_crypto ?tx), g') \<and>
      has_tip (g_tips g') (tx_hash demo_crypto ?tx) \<and> node_depth g' (tx_hash demo_crypto ?tx) = 0"
    by (intro free_genesis_accepted [OF demo_crypto_ok _ demo_addr_def refl])
      (simp_all add: demo_kp_def graph_new_def conflicts_new_def nonce_def ledger_new_def)
  then show ?thesis by (metis builder_sign_fields(5) builder_new_def
      transaction_builder.select_convs(5) transaction_builder.update_convs(1))
qed

text \<open>\<open>insert_genesis\<close> looks at nothing but the shape of the transaction: inserting the same
  genesis transaction again credits its receiver again, without a check of the supply, and
  replaces the node.\<close>

theorem genesis_again_mints:
  assumes "is_genesis tx"
  shows "let g1 = snd (insert_genesis C now g tx); g2 = snd (insert_genesis C now g1 tx)
    in fst (insert_genesis C now g1 tx) = Inr (tx_hash C tx) \<and> length (g_nodes g2) = length (g_nodes g1) \<and>
       balance (g_state g2) (tx_receiver tx) =
         balance (g_state g) (tx_receiver tx) + tx_amount tx + tx_amount tx"
  using assms
  by (simp add: insert_genesis_def Let_def balance_book.get_add length_update has_key_update)

theorem genesis_again_mints_witness:
  "balance (g_state (snd (insert_genesis demo_crypto 0 demo_graph demo_genesis_tx))) demo_addr
     = 10000000"
proof -
  have "is_genesis demo_genesis_tx" "tx_receiver demo_genesis_tx = demo_addr"
    "tx_amount demo_genesis_tx = 5000000"
    by (simp_all add: demo_genesis_tx_def is_genesis_def builder_new_def zero_hash_def is_zero_def)
  with genesis_again_mints [of demo_genesis_tx demo_crypto 0 "graph_new ledger_new tips_new conflicts_new"]
  show ?thesis
    by (simp add: Let_def demo_graph_def [symmetric])
      (simp add: graph_new_def balance_def ledger_new_def)
qed

text \<open>Pruning removes exactly the confirmed nodes deeper than the bound; ledger, nonces and
  conflicts stay, so nothing pruned can be replayed, but the tips stay too: a pruned tip can
  still be selected, and no transaction naming it as a parent is accepted.\<close>

theorem prune_confirmed_exact:
  assumes "prune_confirmed g d = (pruned, g')"
  shows "(\<forall>h n. (h, n) \<in> set (g_nodes g') \<longleftrightarrow> (h, n) \<in> set (g_nodes g) \<and>
        \<not> (dn_status n = Confirmed \<and> unat d < unat (g_max_depth g) - unat (dn_depth n))) \<and>
    set pruned = {h. \<exists>n. (h, n) \<in> set (g_nodes g) \<and> dn_status n = Confirmed \<and>
        unat d < unat (g_max_depth g) - unat (dn_depth n)} \<and>
    g_state g' = g_state g \<and> g_conflicts g' = g_conflicts g \<and> g_tips g' = g_tips g \<and>
    (\<forall>tx. \<not> is_genesis tx \<and> \<not> has_key (g_nodes g') (tx_parent_1 tx) \<longrightarrow>
       (\<exists>e. fst (dag_insert C now g' tx) = Inl e))"
proof -
  have "\<exists>e. fst (dag_insert C now g' tx) = Inl e"
    if "\<not> is_genesis tx" "\<not> has_key (g_nodes g') (tx_parent_1 tx)" for tx
    using that dag_insert_result [of C g' tx now] by (auto simp: acceptable_def)
  moreover let ?goes = "\<lambda>(h, n). dn_status n = Confirmed \<and>
    unat d < unat (g_max_depth g) - unat (dn_depth n)"
  have "pruned = map fst (filter ?goes (g_nodes g))"
    "g' = g\<lparr>g_nodes := filter (\<lambda>e. \<not> ?goes e) (g_nodes g)\<rparr>"
    using assms by (simp_all add: prune_confirmed_def word_less_unat unat_sat_sub Let_def)
  ultimately show ?thesis by (auto intro: rev_image_eqI)
qed

theorem prune_confirmed_exact_witness:
  "set (fst (prune_confirmed (demo_graph\<lparr>g_max_depth := 9\<rparr>) 5)) = {tx_hash demo_crypto demo_genesis_tx}"
proof -
  obtain pruned g' where p: "prune_confirmed (demo_graph\<lparr>g_max_depth := 9\<rparr>) 5 = (pruned, g')"
    by fastforce
  have "set (g_nodes demo_graph) = {(tx_hash demo_crypto demo_genesis_tx,
      \<lparr>dn_tx = demo_genesis_tx, dn_hash = tx_hash demo_crypto demo_genesis_tx, dn_status = Confirmed,
       dn_children = [], dn_weight = 1, dn_depth = 0\<rparr>)}"
    by (simp add: demo_graph_def insert_genesis_def demo_genesis_tx_def is_genesis_def graph_new_def
        builder_new_def zero_hash_def is_zero_def Let_def)
  with prune_confirmed_exact [OF p, of demo_crypto 0] p show ?thesis by simp
qed

end
