(* ===== verification/Traversal.thy ===== *)
theory Traversal
  imports Graph
begin

text \<open>
  The breadth-first traversals of \<open>relyo-dag/src/graph.rs\<close>, \<open>get_ancestors\<close> and
  \<open>get_descendants\<close>, against an abstract specification: the nodes joined to the start by a walk of
  bounded length.
\<close>

text \<open>A walk of \<open>k\<close> edges through nodes that are present and outside \<open>V\<close>.\<close>

inductive walk ::
    "(transaction_hash \<times> dag_node) list \<Rightarrow> (dag_node \<Rightarrow> transaction_hash list) \<Rightarrow>
       transaction_hash set \<Rightarrow> nat \<Rightarrow> transaction_hash \<Rightarrow> transaction_hash \<Rightarrow> bool"
  for nodes nxt V where
  walk_here: "map_of nodes x = Some n \<Longrightarrow> x \<notin> V \<Longrightarrow> walk nodes nxt V 0 x x"
| walk_step: "map_of nodes x = Some n \<Longrightarrow> x \<notin> V \<Longrightarrow> y \<in> set (nxt n) \<Longrightarrow> walk nodes nxt V k y z \<Longrightarrow>
    walk nodes nxt V (Suc k) x z"

inductive_cases walkE: "walk nodes nxt V k x z"

lemma walk_antimono: "walk nodes nxt V k x z \<Longrightarrow> W \<subseteq> V \<Longrightarrow> walk nodes nxt W k x z"
  by (induction rule: walk.induct) (auto intro: walk.intros)

lemma walk_start: "walk nodes nxt V k x z \<Longrightarrow> x \<notin> V \<and> map_of nodes x \<noteq> None"
  by (auto elim: walkE)

lemma walk_end: "walk nodes nxt V k x z \<Longrightarrow> z \<notin> V \<and> map_of nodes z \<noteq> None"
  by (induction rule: walk.induct) auto

text \<open>A walk either avoids \<open>c\<close>, or ends in it, or leaves it for the last time.\<close>

lemma walk_split:
  assumes "walk nodes nxt V k x z"
  shows "walk nodes nxt (Set.insert c V) k x z \<or> z = c \<or>
    (\<exists>m n y. m < k \<and> map_of nodes c = Some n \<and> y \<in> set (nxt n) \<and>
       walk nodes nxt (Set.insert c V) m y z)"
  using assms
proof (induction rule: walk.induct)
  case (walk_here x n)
  then show ?case by (cases "x = c") (auto intro: walk.intros)
next
  case (walk_step x n y k z)
  from walk_step.IH consider (avoid) "walk nodes nxt (Set.insert c V) k y z" | (at_end) "z = c"
    | (late) m n' y' where "m < k" "map_of nodes c = Some n'" "y' \<in> set (nxt n')"
      "walk nodes nxt (Set.insert c V) m y' z"
    by blast
  then show ?case
  proof cases
    case avoid
    show ?thesis
    proof (cases "x = c")
      case True
      with avoid walk_step.hyps show ?thesis by blast
    next
      case False
      with avoid walk_step.hyps have "walk nodes nxt (Set.insert c V) (Suc k) x z"
        by (intro walk.walk_step) auto
      then show ?thesis ..
    qed
  next
    case at_end
    then show ?thesis by simp
  next
    case late
    then have "m < Suc k" by simp
    with late show ?thesis by blast
  qed
qed

lemma walk_not_node: "map_of nodes c = None \<Longrightarrow> walk nodes nxt V k x z \<Longrightarrow> walk nodes nxt (Set.insert c V) k x z"
  using walk_split [of nodes nxt V k x z c] walk_end [of nodes nxt V k x z] by auto

text \<open>What a queue can still reach within the level bound.\<close>

definition within ::
    "(transaction_hash \<times> dag_node) list \<Rightarrow> (dag_node \<Rightarrow> transaction_hash list) \<Rightarrow> u64 \<Rightarrow>
       (transaction_hash \<times> u64) list \<Rightarrow> transaction_hash set \<Rightarrow> transaction_hash set" where
  "within nodes nxt L Q V =
     {z. \<exists>(x, l) \<in> set Q. \<exists>k. unat l + k \<le> unat L \<and> walk nodes nxt V k x z}"

definition queue_ok :: "(transaction_hash \<times> u64) list \<Rightarrow> bool" where
  "queue_ok Q \<longleftrightarrow> sorted (map (\<lambda>q. unat (snd q)) Q) \<and> (\<forall>q\<in>set Q. 0 < unat (snd q)) \<and>
     (\<forall>p\<in>set Q. \<forall>q\<in>set Q. unat (snd q) \<le> unat (snd p) + 1)"

lemma queue_ok_tl: "queue_ok (q # Q) \<Longrightarrow> queue_ok Q"
  by (auto simp: queue_ok_def)

lemma queue_ok_levels:
  assumes "queue_ok ((c, l) # Q)" "q \<in> set Q"
  shows "unat l \<le> unat (snd q)" "unat (snd q) \<le> unat l + 1"
  using assms by (auto simp: queue_ok_def)

lemma queue_ok_push:
  assumes "queue_ok ((c, l) # Q)" "unat (l + 1) = unat l + 1"
  shows "queue_ok (Q @ map (\<lambda>h. (h, l + 1)) ys)"
proof -
  let ?Q = "Q @ map (\<lambda>h. (h, l + 1)) ys"
  have lv: "unat l \<le> unat (snd q) \<and> unat (snd q) \<le> unat l + 1" if "q \<in> set ?Q" for q
    using that queue_ok_levels [OF assms(1), of q] assms(2) by auto
  have "sorted (map (\<lambda>q. unat (snd q)) ?Q)"
    using assms queue_ok_levels [OF assms(1)] by (auto simp: queue_ok_def sorted_append comp_def map_replicate_const)
  moreover have "0 < unat (snd q)" if "q \<in> set ?Q" for q
    using that assms by (auto simp: queue_ok_def)
  moreover have "unat (snd q) \<le> unat (snd p) + 1" if "p \<in> set ?Q" "q \<in> set ?Q" for p q
    using lv [OF that(1)] lv [OF that(2)] by linarith
  ultimately show ?thesis unfolding queue_ok_def by blast
qed

text \<open>The three ways the head of the queue is dropped lose nothing that is within reach.\<close>

lemma within_drop:
  assumes "\<not> (unat l \<le> unat L \<and> c \<notin> V \<and> map_of nodes c \<noteq> None)"
  shows "within nodes nxt L ((c, l) # Q) V = within nodes nxt L Q V"
proof -
  have "\<not> (unat l + k \<le> unat L \<and> walk nodes nxt V k c z)" for k z
    using assms walk_start [of nodes nxt V k c z] by auto
  then show ?thesis unfolding within_def by fastforce
qed

lemma within_missing:
  assumes "map_of nodes c = None"
  shows "within nodes nxt L Q (Set.insert c V) = within nodes nxt L Q V"
proof -
  have "walk nodes nxt (Set.insert c V) k x z \<longleftrightarrow> walk nodes nxt V k x z" for k x z
    using walk_not_node [OF assms] walk_antimono [of nodes nxt "Set.insert c V" k x z V] by auto
  then show ?thesis by (simp add: within_def)
qed

text \<open>Visiting the head: what is in reach is the head, and what the rest of the queue and the
  head's successors reach without it; no level in the queue is below the head's.\<close>

lemma within_visit:
  assumes "queue_ok ((c, l) # Q)" "unat l \<le> unat L" "c \<notin> V" "map_of nodes c = Some n"
    "unat (l + 1) = unat l + 1"
  shows "within nodes nxt L ((c, l) # Q) V =
    Set.insert c (within nodes nxt L (Q @ map (\<lambda>h. (h, l + 1)) (nxt n)) (Set.insert c V))"
    (is "?lhs = Set.insert c ?rhs")
proof
  show "Set.insert c ?rhs \<subseteq> ?lhs"
  proof
    fix z assume "z \<in> Set.insert c ?rhs"
    then consider (self) "z = c"
      | (rest) x m k where "(x, m) \<in> set Q" "unat m + k \<le> unat L" "walk nodes nxt (Set.insert c V) k x z"
      | (new) x k where "x \<in> set (nxt n)" "unat (l + 1) + k \<le> unat L" "walk nodes nxt (Set.insert c V) k x z"
      by (auto simp: within_def)
    then show "z \<in> ?lhs"
    proof cases
      case self
      with walk_here [OF assms(4,3), of nxt] assms(2) show ?thesis
        by (auto simp: within_def intro!: exI [of _ 0])
    next
      case rest
      then show ?thesis using walk_antimono [of nodes nxt "Set.insert c V" k x z V]
        by (auto simp: within_def)
    next
      case new
      then have "walk nodes nxt V (Suc k) c z"
        using walk_antimono [of nodes nxt "Set.insert c V" k x z V] assms(3,4)
        by (intro walk_step) auto
      with new(2) assms(5) show ?thesis by (auto simp: within_def intro!: exI [of _ "Suc k"])
    qed
  qed
next
  show "?lhs \<subseteq> Set.insert c ?rhs"
  proof
    fix z assume "z \<in> ?lhs"
    then obtain x m k where x: "(x, m) \<in> set ((c, l) # Q)" "unat m + k \<le> unat L" "walk nodes nxt V k x z"
      by (auto simp: within_def)
    have lm: "unat l \<le> unat m" using x(1) queue_ok_levels(1) [OF assms(1)] by auto
    from walk_split [OF x(3), of c] consider (avoid) "walk nodes nxt (Set.insert c V) k x z" | "z = c"
      | (late) j y where "j < k" "y \<in> set (nxt n)" "walk nodes nxt (Set.insert c V) j y z"
      using assms(4) by auto
    then show "z \<in> Set.insert c ?rhs"
    proof cases
      case avoid
      then have "(x, m) \<in> set Q" using x(1) walk_start [OF avoid] by auto
      with avoid x(2) show ?thesis by (auto simp: within_def)
    next
      case late
      then have "unat (l + 1) + j \<le> unat L" using lm x(2) assms(5) by simp
      with late show ?thesis by (auto simp: within_def)
    qed simp
  qed
qed

text \<open>The loop computes what its queue reaches outside the visited set, each node once.\<close>

lemma bfs_within:
  assumes "queue_ok Q" "unat L + 1 < 2 ^ 64"
  shows "set (bfs nodes nxt L Q V R) = set R \<union> within nodes nxt L Q (set V)"
  using assms
proof (induction nodes nxt L Q V R rule: bfs.induct)
  case (1 nodes nxt L V R)
  show ?case by (simp add: within_def)
next
  case (2 nodes nxt L c l Q V R)
  note tl = queue_ok_tl [OF 2(5)]
  show ?case
  proof (cases "L < l \<or> c \<in> set V")
    case True
    then have "within nodes nxt L ((c, l) # Q) (set V) = within nodes nxt L Q (set V)"
      by (intro within_drop) (auto simp: word_less_unat)
    moreover have "bfs nodes nxt L ((c, l) # Q) V R = bfs nodes nxt L Q V R" using True by auto
    moreover have "set (bfs nodes nxt L Q V R) = set R \<union> within nodes nxt L Q (set V)"
      using True 2(1) [OF _ tl 2(6)] 2(2) [OF _ _ tl 2(6)] by blast
    ultimately show ?thesis by simp
  next
    case False
    then have l: "\<not> L < l" "unat l \<le> unat L" and c: "c \<notin> set V" by (auto simp: word_less_unat)
    have "unat l + unat (1 :: u64) < 2 ^ LENGTH(64)" using l(2) 2(6) by simp
    then have Suc: "unat (l + 1) = unat l + 1" by (simp add: unat_add_no_wrap)
    show ?thesis
    proof (cases "map_of nodes c")
      case None
      from 2(3) [OF l(1) c None tl 2(6)] None show ?thesis
        using False within_drop [of l L c "set V" nodes nxt Q] within_missing [OF None, of nxt L Q "set V"]
        by simp
    next
      case (Some n)
      have pos: "0 < l" using 2(5) by (simp add: queue_ok_def word_less_unat)
      from 2(4) [OF l(1) c Some queue_ok_push [OF 2(5) Suc] 2(6)] Some False pos
        within_visit [OF 2(5) l(2) c Some Suc, of nxt]
      show ?thesis by simp
    qed
  qed
qed

lemma bfs_distinct:
  "distinct R \<Longrightarrow> set R \<subseteq> set V \<Longrightarrow> distinct (bfs nodes nxt L Q V R)"
proof (induction nodes nxt L Q V R rule: bfs.induct)
  case (2 nodes nxt L c l Q V R)
  show ?case
  proof (cases "L < l \<or> c \<in> set V")
    case True
    then have "bfs nodes nxt L ((c, l) # Q) V R = bfs nodes nxt L Q V R" by auto
    with True 2 show ?thesis by auto
  next
    case False
    then have "c \<notin> set R" "set R \<subseteq> Set.insert c (set V)" using 2 by auto
    with False show ?thesis using 2 by (cases "map_of nodes c") auto
  qed
qed simp

text \<open>The first step handles the start, which is visited but not part of the result.\<close>

lemma bfs_start:
  assumes "unat L + 1 < 2 ^ 64"
  shows "set (bfs nodes nxt L [(h, 0)] [] []) =
      {z. z \<noteq> h \<and> (\<exists>k. 1 \<le> k \<and> k \<le> unat L \<and> walk nodes nxt {} k h z)}"
    and "distinct (bfs nodes nxt L [(h, 0)] [] [])"
proof -
  show "distinct (bfs nodes nxt L [(h, 0)] [] [])" by (rule bfs_distinct) simp_all
  show "set (bfs nodes nxt L [(h, 0)] [] []) =
      {z. z \<noteq> h \<and> (\<exists>k. 1 \<le> k \<and> k \<le> unat L \<and> walk nodes nxt {} k h z)}"
  proof (cases "map_of nodes h")
    case None
    then show ?thesis using walk_start by fastforce
  next
    case (Some n)
    let ?Q = "map (\<lambda>x. (x, 1 :: u64)) (nxt n)"
    have "queue_ok ?Q" by (auto simp: queue_ok_def comp_def map_replicate_const)
    then have "set (bfs nodes nxt L [(h, 0)] [] []) = within nodes nxt L ?Q {h}"
      using bfs_within [of ?Q L nodes nxt "[h]" "[]"] assms Some by simp
    also have "\<dots> = {z. z \<noteq> h \<and> (\<exists>k. 1 \<le> k \<and> k \<le> unat L \<and> walk nodes nxt {} k h z)}"
    proof (intro set_eqI iffI)
      fix z assume "z \<in> within nodes nxt L ?Q {h}"
      then obtain y k where y: "y \<in> set (nxt n)" "1 + k \<le> unat L" "walk nodes nxt {h} k y z"
        by (auto simp: within_def)
      then have "walk nodes nxt {} (Suc k) h z"
        using Some walk_antimono [OF y(3), of "{}"] by (intro walk_step) auto
      with y(2) walk_end [OF y(3)]
      show "z \<in> {z. z \<noteq> h \<and> (\<exists>k. 1 \<le> k \<and> k \<le> unat L \<and> walk nodes nxt {} k h z)}"
        by (auto intro!: exI [of _ "Suc k"])
    next
      fix z assume "z \<in> {z. z \<noteq> h \<and> (\<exists>k. 1 \<le> k \<and> k \<le> unat L \<and> walk nodes nxt {} k h z)}"
      then obtain k where k: "z \<noteq> h" "k \<le> unat L" "walk nodes nxt {} k h z" by auto
      from walk_split [OF k(3), of h] k(1) walk_start [of nodes nxt "{h}" k h z] Some
      obtain m y where "m < k" "y \<in> set (nxt n)" "walk nodes nxt {h} m y z" by auto
      with k(2) show "z \<in> within nodes nxt L ?Q {h}"
        by (auto simp: within_def intro!: exI [of _ m])
    qed
    finally show ?thesis .
  qed
qed

section \<open>Properties\<close>

text \<open>\<open>get_ancestors\<close> returns, each once, exactly the nodes other than the start that a walk of
  at most \<open>max_levels\<close> parent links reaches from it through nodes still in memory; it always
  ends, even on a graph with cycles.\<close>

theorem get_ancestors_exact:
  assumes "unat max_levels + 1 < 2 ^ 64"
  shows "distinct (get_ancestors g h max_levels) \<and>
    set (get_ancestors g h max_levels) =
      {z. z \<noteq> h \<and> (\<exists>k. 1 \<le> k \<and> k \<le> unat max_levels \<and> walk (g_nodes g) parent_links {} k h z)}"
  using bfs_start [OF assms, of "g_nodes g" parent_links h] by (simp add: get_ancestors_def)

lemma demo_transfer_node:
  "map_of (g_nodes (accepted demo_crypto 0 (lock_sender demo_graph demo_transfer) demo_transfer))
     (tx_hash demo_crypto demo_transfer) \<noteq> None"
  by (simp add: accepted_def attach_def Let_def map_of_update)

theorem get_ancestors_exact_witness:
  "distinct (get_ancestors demo_graph (tx_hash demo_crypto demo_genesis_tx) 5) \<and>
   tx_hash demo_crypto demo_genesis_tx \<notin>
     set (get_ancestors demo_graph (tx_hash demo_crypto demo_genesis_tx) 5)"
  using get_ancestors_exact [of 5 demo_graph "tx_hash demo_crypto demo_genesis_tx"] by simp

text \<open>\<open>get_descendants\<close> likewise follows the children, each descendant once.\<close>

theorem get_descendants_exact:
  assumes "unat max_levels + 1 < 2 ^ 64"
  shows "distinct (get_descendants g h max_levels) \<and>
    set (get_descendants g h max_levels) =
      {z. z \<noteq> h \<and> (\<exists>k. 1 \<le> k \<and> k \<le> unat max_levels \<and> walk (g_nodes g) dn_children {} k h z)}"
  using bfs_start [OF assms, of "g_nodes g" dn_children h] by (simp add: get_descendants_def)

theorem get_descendants_exact_witness:
  "distinct (get_descendants demo_graph (tx_hash demo_crypto demo_genesis_tx) 5)"
  using get_descendants_exact [of 5 demo_graph "tx_hash demo_crypto demo_genesis_tx"] by simp

end
