(* ===== verification/Utxo.thy ===== *)
theory Utxo
  imports Keys Tokens
begin

text \<open>
  \<open>relyo-core/src/primitives.rs\<close>: the UTXO data model of the protocol.  Hash and key wrappers,
  outputs and inputs, the transaction with its signed bytes and its structural checks, DAG node
  metadata, UTXO entries with coinbase maturity, the emission schedule and peer reputation.

  \<open>blake3\<close> and the size that \<open>bincode\<close> reports are parameters (\<open>B\<close> and \<open>size_of\<close>); hexadecimal
  and Base58 come with the record \<open>crypto\<close>.  \<open>EmissionSchedule::new\<close> computes its first reward
  in \<open>f64\<close>: it is an argument here, and the theorems hold for every first reward.
\<close>

section \<open>Errors\<close>

datatype txh = TxHash (txh_bytes: bytes)
datatype pkh = PubKeyHash (pkh_bytes: bytes)

record utxo_id =
  ui_tx_hash :: txh
  ui_output_index :: u32

datatype utxo_error =
    NoInputs
  | NoOutputs
  | DustOutput u32 u64 u64
  | MemoTooLarge nat nat
  | InsufficientParents nat nat
  | CoinbaseWithInputs
  | TransactionTooLarge nat nat
  | UnsupportedVersion u8
  | InsufficientPow u32 u32
  | UtxoNotFound utxo_id
  | UtxoAlreadySpent utxo_id
  | CoinbaseNotMature u64 u64
  | InsufficientFunds u64 u64 u64
  | DoubleSpendOf utxo_id
  | InvalidSignatureAt nat
  | PubKeyMismatch nat
  | ParentNotFoundHash txh
  | DuplicateTx txh
  | CycleDetectedAt txh
  | InvalidHex string
  | InvalidHashLength nat
  | SerializationFailed string
  | PeerPowFailed
  | PeerBanned string
  | RateLimitedPeer string
  | StorageFailed string
  | OtherError string

section \<open>Hashes and keys\<close>

definition txh_zero :: txh where
  "txh_zero = TxHash (replicate 32 0)"

definition txh_hash :: "(bytes \<Rightarrow> bytes) \<Rightarrow> bytes \<Rightarrow> txh" where
  "txh_hash B data = TxHash (B data)"

definition txh_is_zero :: "txh \<Rightarrow> bool" where
  "txh_is_zero h = (txh_bytes h = replicate 32 0)"

definition txh_to_hex :: "crypto \<Rightarrow> txh \<Rightarrow> string" where
  "txh_to_hex C h = hex_encode C (txh_bytes h)"

definition txh_from_hex :: "crypto \<Rightarrow> string \<Rightarrow> utxo_error + txh" where
  "txh_from_hex C s =
     (case hex_decode C s of
        Inl _ \<Rightarrow> Inl (InvalidHex s)
      | Inr b \<Rightarrow> if length b \<noteq> 32 then Inl (InvalidHashLength (length b)) else Inr (TxHash b))"

text \<open>\<open>u8::leading_zeros\<close>, and the loop over the bytes.\<close>

definition leading_zeros :: "u8 \<Rightarrow> nat" where
  "leading_zeros b = length (takeWhile (\<lambda>i. \<not> bit b i) (rev [0..<8]))"

fun zero_bits_from :: "bytes \<Rightarrow> u32 \<Rightarrow> u32" where
  "zero_bits_from [] zeros = zeros"
| "zero_bits_from (b # bs) zeros =
     (if b = 0 then zero_bits_from bs (zeros + 8) else zeros + of_nat (leading_zeros b))"

definition leading_zero_bits :: "txh \<Rightarrow> u32" where
  "leading_zero_bits h = zero_bits_from (txh_bytes h) 0"

definition from_pubkey_bytes :: "(bytes \<Rightarrow> bytes) \<Rightarrow> bytes \<Rightarrow> pkh" where
  "from_pubkey_bytes B pubkey = PubKeyHash (B pubkey)"

definition pkh_to_hex :: "crypto \<Rightarrow> pkh \<Rightarrow> string" where
  "pkh_to_hex C h = hex_encode C (pkh_bytes h)"

definition pkh_from_hex :: "crypto \<Rightarrow> string \<Rightarrow> utxo_error + pkh" where
  "pkh_from_hex C s =
     (case hex_decode C s of
        Inl _ \<Rightarrow> Inl (InvalidHex s)
      | Inr b \<Rightarrow> if length b \<noteq> 32 then Inl (InvalidHashLength (length b)) else Inr (PubKeyHash b))"

definition matches_pubkey :: "(bytes \<Rightarrow> bytes) \<Rightarrow> pkh \<Rightarrow> bytes \<Rightarrow> bool" where
  "matches_pubkey B h pubkey = (B pubkey = pkh_bytes h)"

definition pkh_display :: "crypto \<Rightarrow> pkh \<Rightarrow> string" where
  "pkh_display C h = ''rly1'' @ b58_encode C (pkh_bytes h)"

section \<open>UTXO identifiers, outputs, inputs\<close>

definition to_key_bytes :: "utxo_id \<Rightarrow> bytes" where
  "to_key_bytes u = txh_bytes (ui_tx_hash u) @ le_bytes 4 (ui_output_index u)"

definition from_key_bytes :: "bytes \<Rightarrow> utxo_id" where
  "from_key_bytes key =
     \<lparr>ui_tx_hash = TxHash (take 32 key),
      ui_output_index = of_le_bytes [key ! 32, key ! 33, key ! 34, key ! 35]\<rparr>"

definition utxo_id_display :: "crypto \<Rightarrow> utxo_id \<Rightarrow> string" where
  "utxo_id_display C u = txh_to_hex C (ui_tx_hash u) @ '':'' @ show_word (ui_output_index u)"

record tx_output =
  to_amount :: u64
  to_pubkey_hash :: pkh

definition is_dust :: "tx_output \<Rightarrow> bool" where
  "is_dust out = (to_amount out < DUST_THRESHOLD)"

record tx_input =
  ti_prev_output :: utxo_id
  ti_signature :: bytes
  ti_pubkey :: bytes

definition pubkey_matches :: "(bytes \<Rightarrow> bytes) \<Rightarrow> tx_input \<Rightarrow> pkh \<Rightarrow> bool" where
  "pubkey_matches B inp expected_hash = matches_pubkey B expected_hash (ti_pubkey inp)"

section \<open>Transactions\<close>

datatype transaction_kind = StandardKind | CoinbaseKind | GenesisKind

text \<open>\<open>self.kind as u8\<close>.\<close>

fun kind_tag :: "transaction_kind \<Rightarrow> u8" where
  "kind_tag StandardKind = 0"
| "kind_tag CoinbaseKind = 1"
| "kind_tag GenesisKind = 2"

record utxo_transaction =
  ux_version :: u8
  ux_kind :: transaction_kind
  ux_inputs :: "tx_input list"
  ux_outputs :: "tx_output list"
  ux_dag_parents :: "txh list"
  ux_timestamp :: u64
  ux_fee :: u64
  ux_memo :: bytes

definition input_bytes :: "tx_input \<Rightarrow> bytes" where
  "input_bytes inp =
     txh_bytes (ui_tx_hash (ti_prev_output inp)) @ le_bytes 4 (ui_output_index (ti_prev_output inp)) @
     ti_pubkey inp"

definition output_bytes :: "tx_output \<Rightarrow> bytes" where
  "output_bytes out = le_bytes 8 (to_amount out) @ pkh_bytes (to_pubkey_hash out)"

text \<open>\<open>(v.len() as u32).to_le_bytes()\<close>: the length modulo \<open>2 ^ 32\<close>.\<close>

definition len_bytes :: "'a list \<Rightarrow> bytes" where
  "len_bytes xs = le_bytes 4 (of_nat (length xs) :: u32)"

definition utxo_signable_bytes :: "utxo_transaction \<Rightarrow> bytes" where
  "utxo_signable_bytes tx =
     [ux_version tx, kind_tag (ux_kind tx)] @
     len_bytes (ux_inputs tx) @ concat (map input_bytes (ux_inputs tx)) @
     len_bytes (ux_outputs tx) @ concat (map output_bytes (ux_outputs tx)) @
     len_bytes (ux_dag_parents tx) @ concat (map txh_bytes (ux_dag_parents tx)) @
     le_bytes 8 (ux_timestamp tx) @ le_bytes 8 (ux_fee tx) @
     len_bytes (ux_memo tx) @ ux_memo tx"

definition utxo_tx_hash :: "(bytes \<Rightarrow> bytes) \<Rightarrow> utxo_transaction \<Rightarrow> txh" where
  "utxo_tx_hash B tx = txh_hash B (utxo_signable_bytes tx)"

definition total_output :: "utxo_transaction \<Rightarrow> u64" where
  "total_output tx = foldl sat_add 0 (map to_amount (ux_outputs tx))"

definition utxo_is_genesis :: "utxo_transaction \<Rightarrow> bool" where
  "utxo_is_genesis tx = (ux_kind tx = GenesisKind)"

definition utxo_is_coinbase :: "utxo_transaction \<Rightarrow> bool" where
  "utxo_is_coinbase tx = (ux_kind tx = CoinbaseKind)"

text \<open>The dust check runs over the outputs with their index, the first dust output is reported.\<close>

fun dust_check :: "nat \<Rightarrow> tx_output list \<Rightarrow> utxo_error option" where
  "dust_check i [] = None"
| "dust_check i (out # outs) =
     (if is_dust out then Some (DustOutput (of_nat i) (to_amount out) DUST_THRESHOLD)
      else dust_check (Suc i) outs)"

definition kind_check :: "utxo_transaction \<Rightarrow> utxo_error option" where
  "kind_check tx =
     (let parents =
        (if length (ux_dag_parents tx) < MIN_DAG_PARENTS
         then Some (InsufficientParents (length (ux_dag_parents tx)) MIN_DAG_PARENTS) else None)
      in case ux_kind tx of
           StandardKind \<Rightarrow> if ux_inputs tx = [] then Some NoInputs else parents
         | CoinbaseKind \<Rightarrow> if ux_inputs tx \<noteq> [] then Some CoinbaseWithInputs else parents
         | GenesisKind \<Rightarrow> if ux_inputs tx \<noteq> [] then Some CoinbaseWithInputs else None)"

definition validate_structure ::
    "(utxo_transaction \<Rightarrow> string + u64) \<Rightarrow> utxo_transaction \<Rightarrow> utxo_error + unit" where
  "validate_structure size_of tx =
     (if ux_version tx \<noteq> PROTOCOL_VERSION then Inl (UnsupportedVersion (ux_version tx))
      else if ux_outputs tx = [] then Inl NoOutputs
      else case dust_check 0 (ux_outputs tx) of
        Some e \<Rightarrow> Inl e
      | None \<Rightarrow>
          if length (ux_memo tx) > MAX_MEMO_BYTES
          then Inl (MemoTooLarge (length (ux_memo tx)) MAX_MEMO_BYTES)
          else case kind_check tx of
            Some e \<Rightarrow> Inl e
          | None \<Rightarrow>
              (case size_of tx of
                 Inl e \<Rightarrow> Inl (SerializationFailed e)
               | Inr size_u64 \<Rightarrow>
                   let sz = unat size_u64 in
                   if sz > MAX_TX_SIZE then Inl (TransactionTooLarge sz MAX_TX_SIZE) else Inr ()))"

section \<open>Node metadata and UTXO entries\<close>

datatype utxo_status = UPending | UConfirming | UConfirmed | URejected | UOrphaned

fun utxo_status_display :: "utxo_status \<Rightarrow> string" where
  "utxo_status_display UPending = ''pending''"
| "utxo_status_display UConfirming = ''confirming''"
| "utxo_status_display UConfirmed = ''confirmed''"
| "utxo_status_display URejected = ''rejected''"
| "utxo_status_display UOrphaned = ''orphaned''"

record utxo_node =
  un_tx :: utxo_transaction
  un_hash :: txh
  un_blue_score :: u64
  un_cumulative_weight :: u64
  un_children :: "txh list"
  un_is_blue :: bool
  un_status :: utxo_status
  un_depth :: u64

definition utxo_node_new :: "(bytes \<Rightarrow> bytes) \<Rightarrow> utxo_transaction \<Rightarrow> u64 \<Rightarrow> u64 \<Rightarrow> utxo_node" where
  "utxo_node_new B tx depth blue_score =
     \<lparr>un_tx = tx, un_hash = utxo_tx_hash B tx, un_blue_score = blue_score, un_cumulative_weight = 1,
      un_children = [], un_is_blue = True, un_status = UPending, un_depth = depth\<rparr>"

definition utxo_confirmation_depth :: "utxo_node \<Rightarrow> u64 \<Rightarrow> u64" where
  "utxo_confirmation_depth n current_max_depth = sat_sub current_max_depth (un_depth n)"

record utxo_entry =
  ue_id :: utxo_id
  ue_output :: tx_output
  ue_created_at_depth :: u64
  ue_is_coinbase :: bool

definition is_spendable_at_depth :: "utxo_entry \<Rightarrow> u64 \<Rightarrow> bool" where
  "is_spendable_at_depth u current_depth =
     (if ue_is_coinbase u then current_depth \<ge> ue_created_at_depth u + COINBASE_MATURITY else True)"

definition ue_amount :: "utxo_entry \<Rightarrow> u64" where
  "ue_amount u = to_amount (ue_output u)"

section \<open>Emission\<close>

record emission_schedule =
  es_total_supply :: u64
  es_initial_reward :: u64
  es_decay_factor_bps :: u64
  es_epoch_depth :: u64

definition schedule_new :: "u64 \<Rightarrow> emission_schedule" where
  "schedule_new initial =
     \<lparr>es_total_supply = TOTAL_SUPPLY, es_initial_reward = initial,
      es_decay_factor_bps = DECAY_FACTOR_BPS, es_epoch_depth = EPOCH_DEPTH\<rparr>"

text \<open>\<open>for _ in 0..epoch\<close>, with its early return.\<close>

fun decay_loop :: "nat \<Rightarrow> u64 \<Rightarrow> u128 \<Rightarrow> u64" where
  "decay_loop 0 bps reward = ucast reward"
| "decay_loop (Suc n) bps reward =
     (let reward' = reward * ucast bps div 10000 in
      if reward' = 0 then 0 else decay_loop n bps reward')"

definition reward_at_epoch :: "emission_schedule \<Rightarrow> u64 \<Rightarrow> u64" where
  "reward_at_epoch s epoch =
     (if epoch = 0 then es_initial_reward s
      else decay_loop (unat epoch) (es_decay_factor_bps s) (ucast (es_initial_reward s)))"

definition total_emitted_through_epoch :: "emission_schedule \<Rightarrow> u64 \<Rightarrow> u64" where
  "total_emitted_through_epoch s epoch =
     (let total =
        foldl (\<lambda>total e. sat_add total (reward_at_epoch s (of_nat e))) 0 [0..<Suc (unat epoch)]
      in min total (es_total_supply s))"

text \<open>A division by an epoch depth of zero panics.\<close>

definition schedule_epoch_at_depth :: "emission_schedule \<Rightarrow> u64 \<Rightarrow> u64 option" where
  "schedule_epoch_at_depth s depth =
     (if es_epoch_depth s = 0 then None else Some (depth div es_epoch_depth s))"

definition reward_at_depth :: "emission_schedule \<Rightarrow> u64 \<Rightarrow> u64 option" where
  "reward_at_depth s depth = map_option (reward_at_epoch s) (schedule_epoch_at_depth s depth)"

section \<open>Peers\<close>

text \<open>\<open>reputation\<close> is an \<open>i64\<close>, read with \<open>sint\<close>.\<close>

record utxo_peer_info =
  up_peer_id :: string
  up_addresses :: "string list"
  up_pow_challenge :: bytes
  up_pow_solution :: u64
  up_last_seen :: u64
  up_reputation :: u64
  up_version :: string
  up_bytes_relayed :: u64
  up_valid_tx_relayed :: u64
  up_invalid_tx_relayed :: u64

definition is_banned :: "utxo_peer_info \<Rightarrow> bool" where
  "is_banned p = (sint (up_reputation p) \<le> - 50)"

section \<open>Keys and hashes: facts\<close>

lemma bit_of_le_bytes:
  "bit (of_le_bytes bs :: 'a::len word) j \<longleftrightarrow>
     j < LENGTH('a) \<and> j < 8 * length bs \<and> bit (bs ! (j div 8)) (j mod 8)"
proof (induction bs arbitrary: j)
  case (Cons b bs)
  have small: "bit b i \<Longrightarrow> i < 8" for i using bit_imp_le_length [of b i] by simp
  have "(of_le_bytes (b # bs) :: 'a word) = ucast b + push_bit 8 (of_le_bytes bs)"
    by (simp add: push_bit_eq_mult mult.commute)
  also have "\<dots> = or (ucast b) (push_bit 8 (of_le_bytes bs))"
    by (rule disjunctive_add_eq_or) (auto intro!: bit_word_eqI simp: bit_simps dest!: small)
  finally have "bit (of_le_bytes (b # bs) :: 'a word) j
      \<longleftrightarrow> j < LENGTH('a) \<and> (bit b j \<or> 8 \<le> j \<and> bit (of_le_bytes bs :: 'a word) (j - 8))"
    by (auto simp: bit_simps)
  moreover have "j < 8 \<Longrightarrow> j div 8 = 0 \<and> j mod 8 = j" by simp
  moreover have "8 \<le> j \<Longrightarrow> j div 8 = Suc ((j - 8) div 8) \<and> j mod 8 = (j - 8) mod 8"
    by (simp add: div_if le_mod_geq)
  ultimately show ?case by (cases "j < 8") (auto simp: Cons.IH dest: small)
qed simp

lemma le_bytes_of_le_bytes:
  assumes "8 * length bs \<le> LENGTH('a)" "n = length bs"
  shows "le_bytes n (of_le_bytes bs :: 'a::len word) = bs"
proof (rule nth_equalityI)
  fix i assume "i < length (le_bytes n (of_le_bytes bs :: 'a word))"
  then have i: "i < length bs" using assms(2) by simp
  show "le_bytes n (of_le_bytes bs :: 'a word) ! i = bs ! i"
  proof (rule bit_word_eqI)
    fix k assume k: "k < LENGTH(8)"
    have "8 * i + k < 8 * length bs" using i k by simp
    with k assms show "bit (le_bytes n (of_le_bytes bs :: 'a word) ! i) k \<longleftrightarrow> bit (bs ! i) k"
      using le_bytes_nth_bit [of "8 * i + k" n "of_le_bytes bs :: 'a word"]
      by (simp add: bit_of_le_bytes)
  qed
qed (simp add: assms)

text \<open>\<open>to_key_bytes\<close> and \<open>from_key_bytes\<close> are inverse to each other between UTXO identifiers with a 32-byte hash and 36-byte keys, so distinct outputs never share a storage key.\<close>

theorem utxo_key_roundtrip:
  assumes "length (txh_bytes (ui_tx_hash u)) = 32" "length key = 36"
  shows "length (to_key_bytes u) = 36 \<and> from_key_bytes (to_key_bytes u) = u \<and>
    to_key_bytes (from_key_bytes key) = key"
proof -
  have four: "[b ! 0, b ! 1, b ! 2, b ! 3] = b" if "length b = 4" for b :: bytes
  proof -
    have "map ((!) b) [0..<4] = b" using that map_nth [of b] by simp
    then show ?thesis by (simp add: upt_rec numeral_2_eq_2 numeral_3_eq_3)
  qed
  let ?h = "txh_bytes (ui_tx_hash u)" and ?i = "le_bytes 4 (ui_output_index u)"
  have "[(?h @ ?i) ! 32, (?h @ ?i) ! 33, (?h @ ?i) ! 34, (?h @ ?i) ! 35] = ?i"
    using assms(1) four [of ?i] by (simp add: nth_append)
  then have "from_key_bytes (to_key_bytes u) = u"
    using assms(1) by (simp add: from_key_bytes_def to_key_bytes_def)
  moreover have "le_bytes 4 (of_le_bytes [key ! 32, key ! 33, key ! 34, key ! 35] :: u32)
      = [key ! 32, key ! 33, key ! 34, key ! 35]"
    by (rule le_bytes_of_le_bytes) simp_all
  moreover have "[key ! 32, key ! 33, key ! 34, key ! 35] = drop 32 key"
    using four [of "drop 32 key"] assms(2) by simp
  ultimately show ?thesis
    using assms by (simp add: from_key_bytes_def to_key_bytes_def)
qed

theorem utxo_key_roundtrip_witness:
  "length (to_key_bytes \<lparr>ui_tx_hash = txh_zero, ui_output_index = 7\<rparr>) = 36 \<and>
   from_key_bytes (to_key_bytes \<lparr>ui_tx_hash = txh_zero, ui_output_index = 7\<rparr>)
     = \<lparr>ui_tx_hash = txh_zero, ui_output_index = 7\<rparr> \<and>
   to_key_bytes (from_key_bytes (replicate 36 5)) = replicate 36 5"
  by (rule utxo_key_roundtrip) (simp_all add: txh_zero_def)

text \<open>The leading zero bits of a byte string against its value as a big-endian number.\<close>

fun be_value :: "bytes \<Rightarrow> nat" where
  "be_value [] = 0"
| "be_value (b # bs) = unat b * 256 ^ length bs + be_value bs"

fun zero_bits :: "bytes \<Rightarrow> nat" where
  "zero_bits [] = 0"
| "zero_bits (b # bs) = (if b = 0 then 8 + zero_bits bs else leading_zeros b)"

lemma zero_bits_from: "zero_bits_from bs z = z + of_nat (zero_bits bs)"
  by (induction bs z rule: zero_bits_from.induct) (simp_all add: add.assoc)

lemma leading_zeros_iff:
  assumes "n \<le> 8"
  shows "n \<le> leading_zeros b \<longleftrightarrow> unat b < 2 ^ (8 - n)"
proof -
  let ?xs = "rev [0..<8] :: nat list"
  have nth: "i < 8 \<Longrightarrow> ?xs ! i = 7 - i" for i by (simp add: rev_nth)
  have "n \<le> leading_zeros b \<longleftrightarrow> (\<forall>i<n. \<not> bit b (7 - i))"
  proof
    assume n: "n \<le> leading_zeros b"
    show "\<forall>i<n. \<not> bit b (7 - i)"
    proof (intro allI impI)
      fix i assume "i < n"
      with n have i: "i < length (takeWhile (\<lambda>i. \<not> bit b i) ?xs)" by (simp add: leading_zeros_def)
      then have "takeWhile (\<lambda>i. \<not> bit b i) ?xs ! i \<in> set (takeWhile (\<lambda>i. \<not> bit b i) ?xs)" by simp
      then have "\<not> bit b (takeWhile (\<lambda>i. \<not> bit b i) ?xs ! i)" by (blast dest: set_takeWhileD)
      then show "\<not> bit b (7 - i)"
        using i nth [of i] \<open>i < n\<close> assms by (simp add: takeWhile_nth)
    qed
  next
    assume *: "\<forall>i<n. \<not> bit b (7 - i)"
    show "n \<le> leading_zeros b"
      unfolding leading_zeros_def
      using * nth assms by (intro length_takeWhile_less_P_nth) simp_all
  qed
  also have "\<dots> \<longleftrightarrow> (\<forall>j. 8 - n \<le> j \<and> j < 8 \<longrightarrow> \<not> bit b j)"
  proof (intro iffI allI impI)
    fix j assume "\<forall>i<n. \<not> bit b (7 - i)" "8 - n \<le> j \<and> j < 8"
    then show "\<not> bit b j" by (auto dest: spec [of _ "7 - j"])
  next
    fix i assume "\<forall>j. 8 - n \<le> j \<and> j < 8 \<longrightarrow> \<not> bit b j" "i < n"
    moreover from this(2) assms have "8 - n \<le> 7 - i \<and> 7 - i < 8" by auto
    ultimately show "\<not> bit b (7 - i)" by blast
  qed
  also have "\<dots> \<longleftrightarrow> take_bit (8 - n) b = b"
    by (auto simp: bit_eq_iff bit_simps) (meson not_le)
  also have "\<dots> \<longleftrightarrow> unat b < 2 ^ (8 - n)"
    by (simp add: word_unat_eq_iff unsigned_take_bit_eq take_bit_nat_eq_self_iff)
  finally show ?thesis .
qed

lemma be_value_bound: "be_value bs < 256 ^ length bs"
proof (induction bs)
  case (Cons b bs)
  have "unat b < 256" using unsigned_less [of b, where ?'a = nat] by simp
  then have le: "(unat b + 1) * 256 ^ length bs \<le> 256 * 256 ^ length bs" by (intro mult_right_mono) simp_all
  have "unat b * 256 ^ length bs + be_value bs < unat b * 256 ^ length bs + 256 ^ length bs" using Cons by simp
  also have "\<dots> = (unat b + 1) * 256 ^ length bs" by simp
  also note le
  finally show ?case by simp
qed simp

lemma zero_bits_iff:
  "n \<le> 8 * length bs \<Longrightarrow> n \<le> zero_bits bs \<longleftrightarrow> be_value bs < 2 ^ (8 * length bs - n)"
proof (induction bs arbitrary: n)
  case (Cons b bs)
  let ?B = "256 ^ length bs :: nat"
  have B: "?B = 2 ^ (8 * length bs)" by (simp add: power_mult)
  show ?case
  proof (cases "b = 0")
    case True
    show ?thesis
    proof (cases "n \<le> 8")
      case True
      have "(2::nat) ^ (8 * length bs) \<le> 2 ^ (8 * length (b # bs) - n)"
        using True by (intro power_increasing) simp_all
      with be_value_bound [of bs] have "be_value bs < 2 ^ (8 * length (b # bs) - n)" by (simp only: B)
      with \<open>b = 0\<close> True show ?thesis by simp
    next
      case False
      then have "8 * length (b # bs) - n = 8 * length bs - (n - 8)" by simp
      moreover have "(n - 8 \<le> zero_bits bs) = (be_value bs < 2 ^ (8 * length bs - (n - 8)))"
        using Cons.prems by (intro Cons.IH) simp
      moreover have "n \<le> 8 + zero_bits bs \<longleftrightarrow> n - 8 \<le> zero_bits bs" by auto
      ultimately show ?thesis using \<open>b = 0\<close> by (simp del: list.size)
    qed
  next
    case False
    then have pos: "0 < unat b" by (simp add: unat_gt_0)
    show ?thesis
    proof (cases "n \<le> 8")
      case True
      then have exp: "(2::nat) ^ (8 * length (b # bs) - n) = 2 ^ (8 - n) * ?B"
        by (simp add: B flip: power_add)
      have "unat b * ?B + be_value bs < m * ?B \<longleftrightarrow> unat b < m" for m
      proof
        assume "unat b * ?B + be_value bs < m * ?B"
        then have "unat b * ?B < m * ?B" by (rule le_less_trans [rotated]) simp
        then show "unat b < m" by simp
      next
        assume "unat b < m"
        then have "(unat b + 1) * ?B \<le> m * ?B" by (intro mult_right_mono) simp_all
        with be_value_bound [of bs] show "unat b * ?B + be_value bs < m * ?B" by simp
      qed
      with leading_zeros_iff [OF True, of b] False show ?thesis by (simp add: exp del: list.size)
    next
      case n: False
      have "\<not> n \<le> leading_zeros b"
        using n leading_zeros_iff [of 8 b] pos by auto
      moreover have "(2::nat) ^ (8 * length (b # bs) - n) \<le> ?B"
        using n by (simp add: B)
      moreover have "?B \<le> be_value (b # bs)" using pos by (cases "unat b") simp_all
      ultimately show ?thesis using False by simp
    qed
  qed
qed simp

lemma zero_bits_le: "zero_bits bs \<le> 8 * length bs"
proof (induction bs)
  case (Cons b bs)
  have "leading_zeros b \<le> 8"
    using length_takeWhile_le [of "\<lambda>i. \<not> bit b i" "rev [0..<8]"] by (simp add: leading_zeros_def)
  with Cons show ?case by simp
qed simp

text \<open>The leading zero bits of a hash measure proof of work: a 32-byte hash has at least n of them exactly when it is below `2^(256-n)` as a big-endian number.\<close>

theorem leading_zero_bits_pow:
  assumes "length (txh_bytes h) = 32" "n \<le> 256"
  shows "n \<le> unat (leading_zero_bits h) \<longleftrightarrow> be_value (txh_bytes h) < 2 ^ (256 - n)"
proof -
  have "zero_bits (txh_bytes h) \<le> 256" using zero_bits_le [of "txh_bytes h"] assms(1) by simp
  then have "unat (leading_zero_bits h) = zero_bits (txh_bytes h)"
    by (simp add: leading_zero_bits_def zero_bits_from unsigned_of_nat take_bit_nat_eq_self)
  with zero_bits_iff [of n "txh_bytes h"] assms show ?thesis by simp
qed

theorem leading_zero_bits_pow_witness:
  "7 \<le> unat (leading_zero_bits (TxHash (1 # replicate 31 0))) \<longleftrightarrow>
     be_value (txh_bytes (TxHash (1 # replicate 31 0))) < 2 ^ (256 - 7)"
  by (rule leading_zero_bits_pow) simp_all

section \<open>Transactions: facts\<close>

lemma concat_fixed_width:
  assumes "concat (map f xs) @ r = concat (map f ys) @ s" "length xs = length ys"
    and "\<And>x. x \<in> set xs \<union> set ys \<Longrightarrow> length (f x) = k"
  shows "map f xs = map f ys \<and> r = s"
  using assms
proof (induction xs arbitrary: ys)
  case (Cons x xs)
  then obtain y zs where ys: "ys = y # zs" by (cases ys) auto
  have len: "length (f x) = length (f y)" using Cons.prems(3) by (simp add: ys)
  with Cons.prems(1) have "f x = f y" "concat (map f xs) @ r = concat (map f zs) @ s"
    by (simp_all add: ys)
  with Cons.IH [of zs] Cons.prems(2,3) show ?case by (simp add: ys)
qed simp

text \<open>A counted section of fixed-width items can be split off in one way only.\<close>

lemma counted_section:
  assumes "len_bytes xs @ concat (map f xs) @ r = len_bytes ys @ concat (map f ys) @ s"
    and "length xs < 2 ^ 32" "length ys < 2 ^ 32" "\<And>x. x \<in> set xs \<union> set ys \<Longrightarrow> length (f x) = k"
  shows "map f xs = map f ys \<and> r = s"
proof -
  have "len_bytes xs = len_bytes ys" and tail: "concat (map f xs) @ r = concat (map f ys) @ s"
    using assms(1) by (simp_all add: len_bytes_def)
  then have "(of_nat (length xs) :: u32) = of_nat (length ys)" by (simp add: len_bytes_def le_bytes_inj)
  then have "unat (of_nat (length xs) :: u32) = unat (of_nat (length ys) :: u32)" by simp
  with assms(2,3) have "length xs = length ys" by (simp add: unsigned_of_nat take_bit_nat_eq_self)
  from concat_fixed_width [OF tail this assms(4)] show ?thesis .
qed

text \<open>What the Rust types guarantee: 32-byte hashes and keys, lengths that fit a \<open>u32\<close>.\<close>

definition wf_tx :: "utxo_transaction \<Rightarrow> bool" where
  "wf_tx tx \<longleftrightarrow>
     (\<forall>i\<in>set (ux_inputs tx). length (txh_bytes (ui_tx_hash (ti_prev_output i))) = 32 \<and> length (ti_pubkey i) = 32) \<and>
     (\<forall>out\<in>set (ux_outputs tx). length (pkh_bytes (to_pubkey_hash out)) = 32) \<and>
     (\<forall>p\<in>set (ux_dag_parents tx). length (txh_bytes p) = 32) \<and>
     length (ux_inputs tx) < 2 ^ 32 \<and> length (ux_outputs tx) < 2 ^ 32 \<and>
     length (ux_dag_parents tx) < 2 ^ 32 \<and> length (ux_memo tx) < 2 ^ 32"

definition unsigned_tx :: "utxo_transaction \<Rightarrow> utxo_transaction" where
  "unsigned_tx tx = tx\<lparr>ux_inputs := map (\<lambda>i. i\<lparr>ti_signature := []\<rparr>) (ux_inputs tx)\<rparr>"

lemma wf_tx_widths:
  assumes "wf_tx tx"
  shows "i \<in> set (ux_inputs tx) \<Longrightarrow> length (input_bytes i) = 68"
    "out \<in> set (ux_outputs tx) \<Longrightarrow> length (output_bytes out) = 40"
    "p \<in> set (ux_dag_parents tx) \<Longrightarrow> length (txh_bytes p) = 32"
    "i \<in> set (ux_inputs tx) \<Longrightarrow> length (txh_bytes (ui_tx_hash (ti_prev_output i))) = 32"
    "length (ux_inputs tx) < 2 ^ 32" "length (ux_outputs tx) < 2 ^ 32"
    "length (ux_dag_parents tx) < 2 ^ 32" "length (ux_memo tx) < 2 ^ 32"
  using assms by (simp_all add: wf_tx_def input_bytes_def output_bytes_def)

lemma kind_tag_inj [simp]: "kind_tag a = kind_tag b \<longleftrightarrow> a = b"
  by (cases a; cases b) simp_all

lemma input_bytes_inj:
  assumes "length (txh_bytes (ui_tx_hash (ti_prev_output i))) = 32"
    "length (txh_bytes (ui_tx_hash (ti_prev_output j))) = 32" "input_bytes i = input_bytes j"
  shows "i\<lparr>ti_signature := []\<rparr> = j\<lparr>ti_signature := []\<rparr>"
  using assms by (auto simp: input_bytes_def le_bytes_inj intro!: tx_input.equality utxo_id.equality txh.expand)

lemma output_bytes_inj: "output_bytes p = output_bytes q \<Longrightarrow> p = q"
  by (auto simp: output_bytes_def le_bytes_inj intro!: tx_output.equality pkh.expand)

lemma map_eq_inj_on:
  assumes "map f xs = map f ys" "\<And>x y. x \<in> set xs \<Longrightarrow> y \<in> set ys \<Longrightarrow> f x = f y \<Longrightarrow> g x = g y"
  shows "map g xs = map g ys"
  using assms
proof (induction xs arbitrary: ys)
  case (Cons x xs)
  then show ?case by (cases ys) auto
qed simp

text \<open>The signed bytes of a UTXO transaction are unambiguous: two transactions of the Rust types with the same signable bytes agree in every field except the input signatures, so a signature never covers two different transfers.\<close>

theorem utxo_signable_binding:
  assumes "wf_tx t" "wf_tx u" "utxo_signable_bytes t = utxo_signable_bytes u"
  shows "unsigned_tx t = unsigned_tx u"
proof -
  note w = wf_tx_widths [OF assms(1)] wf_tx_widths [OF assms(2)]
  let ?tail = "\<lambda>v. le_bytes 8 (ux_timestamp v) @ le_bytes 8 (ux_fee v) @ len_bytes (ux_memo v) @
    concat (map (\<lambda>b. [b]) (ux_memo v)) @ []"
  let ?pars = "\<lambda>v. len_bytes (ux_dag_parents v) @ concat (map txh_bytes (ux_dag_parents v)) @ ?tail v"
  let ?outs = "\<lambda>v. len_bytes (ux_outputs v) @ concat (map output_bytes (ux_outputs v)) @ ?pars v"
  let ?ins = "\<lambda>v. len_bytes (ux_inputs v) @ concat (map input_bytes (ux_inputs v)) @ ?outs v"
  have "utxo_signable_bytes v = [ux_version v, kind_tag (ux_kind v)] @ ?ins v" for v
    by (simp add: utxo_signable_bytes_def)
  with assms(3) have head: "ux_version t = ux_version u" "ux_kind t = ux_kind u" and ins: "?ins t = ?ins u"
    by (simp_all only: append.simps list.inject kind_tag_inj)
  have 1: "map input_bytes (ux_inputs t) = map input_bytes (ux_inputs u) \<and> ?outs t = ?outs u"
    using w by (intro counted_section [OF ins, of 68]) auto
  have 2: "map output_bytes (ux_outputs t) = map output_bytes (ux_outputs u) \<and> ?pars t = ?pars u"
    using w by (intro counted_section [OF 1 [THEN conjunct2], of 40]) auto
  have 3: "map txh_bytes (ux_dag_parents t) = map txh_bytes (ux_dag_parents u) \<and> ?tail t = ?tail u"
    using w by (intro counted_section [OF 2 [THEN conjunct2], of 32]) auto
  then have tail: "?tail t = ?tail u" by blast
  have split: "le_bytes 8 a @ r = le_bytes 8 b @ s \<longleftrightarrow> a = b \<and> r = s" for a b :: u64 and r s
    using le_bytes_inj [of 8 a b] by simp
  have memo: "len_bytes (ux_memo t) @ concat (map (\<lambda>b. [b]) (ux_memo t)) @ []
      = len_bytes (ux_memo u) @ concat (map (\<lambda>b. [b]) (ux_memo u)) @ []"
    and times: "ux_timestamp t = ux_timestamp u" "ux_fee t = ux_fee u"
    using tail unfolding split by blast+
  have "map (\<lambda>b. [b]) (ux_memo t) = map (\<lambda>b. [b]) (ux_memo u) \<and> ([] :: bytes) = []"
    using w by (intro counted_section [OF memo, of 1]) auto
  then have "ux_memo t = ux_memo u" using map_eq_inj_on [of "\<lambda>b. [b]" "ux_memo t" "ux_memo u" "\<lambda>x. x"] by simp
  have "map (\<lambda>i. i\<lparr>ti_signature := []\<rparr>) (ux_inputs t) = map (\<lambda>i. i\<lparr>ti_signature := []\<rparr>) (ux_inputs u)"
    by (rule map_eq_inj_on [OF 1 [THEN conjunct1]], rule input_bytes_inj, erule w(4), erule w(12), assumption)
  moreover have "ux_outputs t = ux_outputs u"
    using map_eq_inj_on [OF 2 [THEN conjunct1], of "\<lambda>x. x"] output_bytes_inj by simp
  moreover have "ux_dag_parents t = ux_dag_parents u"
    using map_eq_inj_on [OF 3 [THEN conjunct1], of "\<lambda>x. x"] by (simp add: txh.expand)
  ultimately show ?thesis using head times \<open>ux_memo t = ux_memo u\<close> by (simp add: unsigned_tx_def)
qed

definition demo_utxo_tx :: "bytes \<Rightarrow> utxo_transaction" where
  "demo_utxo_tx sig =
     \<lparr>ux_version = 1, ux_kind = StandardKind,
      ux_inputs = [\<lparr>ti_prev_output = \<lparr>ui_tx_hash = txh_zero, ui_output_index = 0\<rparr>, ti_signature = sig,
                    ti_pubkey = replicate 32 1\<rparr>],
      ux_outputs = [\<lparr>to_amount = 5000, to_pubkey_hash = PubKeyHash (replicate 32 2)\<rparr>],
      ux_dag_parents = [txh_zero, txh_zero], ux_timestamp = 9, ux_fee = 0, ux_memo = []\<rparr>"

theorem utxo_signable_binding_witness:
  "unsigned_tx (demo_utxo_tx []) = unsigned_tx (demo_utxo_tx (replicate 64 7))"
  by (rule utxo_signable_binding)
    (simp_all add: wf_tx_def demo_utxo_tx_def txh_zero_def utxo_signable_bytes_def input_bytes_def
      len_bytes_def)

lemma is_dust_unat: "is_dust out \<longleftrightarrow> unat (to_amount out) < 1000"
  by (simp add: is_dust_def DUST_THRESHOLD_def word_less_unat)

lemma dust_check_None [simp]: "dust_check i outs = None \<longleftrightarrow> (\<forall>out\<in>set outs. \<not> is_dust out)"
  by (induction i outs rule: dust_check.induct) auto

lemma dust_check_first:
  "\<forall>out\<in>set pre. \<not> is_dust out \<Longrightarrow> is_dust out \<Longrightarrow>
     dust_check i (pre @ out # post) = Some (DustOutput (of_nat (i + length pre)) (to_amount out) DUST_THRESHOLD)"
  by (induction pre arbitrary: i) auto

lemma kind_check_None:
  "kind_check tx = None \<longleftrightarrow>
     (ux_inputs tx \<noteq> [] \<longleftrightarrow> ux_kind tx = StandardKind) \<and> (ux_kind tx = GenesisKind \<or> 2 \<le> length (ux_dag_parents tx))"
  by (auto simp: kind_check_def Let_def MIN_DAG_PARENTS_def split: transaction_kind.splits)

text \<open>`validate_structure` accepts a transaction exactly when its version is 1, it has outputs, none below 1000 base units, a memo of at most 256 bytes, inputs exactly for the standard kind, two parents unless it is a genesis, and a serialized size of at most 100000.\<close>

theorem validate_structure_exact:
  "validate_structure size_of tx = Inr () \<longleftrightarrow>
    ux_version tx = 1 \<and> ux_outputs tx \<noteq> [] \<and> (\<forall>out\<in>set (ux_outputs tx). 1000 \<le> unat (to_amount out)) \<and>
    length (ux_memo tx) \<le> 256 \<and> (ux_inputs tx \<noteq> [] \<longleftrightarrow> ux_kind tx = StandardKind) \<and>
    (ux_kind tx = GenesisKind \<or> 2 \<le> length (ux_dag_parents tx)) \<and>
    (\<exists>n. size_of tx = Inr n \<and> unat n \<le> 100000)"
proof -
  have "(\<forall>out\<in>set (ux_outputs tx). 1000 \<le> unat (to_amount out)) \<longleftrightarrow> dust_check 0 (ux_outputs tx) = None"
    by (simp add: is_dust_unat not_less)
  moreover have "validate_structure size_of tx = Inr () \<longleftrightarrow>
      ux_version tx = 1 \<and> ux_outputs tx \<noteq> [] \<and> dust_check 0 (ux_outputs tx) = None \<and>
      length (ux_memo tx) \<le> 256 \<and> kind_check tx = None \<and> (\<exists>n. size_of tx = Inr n \<and> unat n \<le> 100000)"
    by (auto simp: validate_structure_def PROTOCOL_VERSION_def MAX_MEMO_BYTES_def MAX_TX_SIZE_def Let_def
        simp del: dust_check_None split: option.splits sum.splits if_splits)
  ultimately show ?thesis by (simp only: kind_check_None) blast
qed

theorem validate_structure_exact_witness:
  "validate_structure (\<lambda>_. Inr 300) (demo_utxo_tx []) = Inr ()"
  using validate_structure_exact [of "\<lambda>_. Inr 300" "demo_utxo_tx []"] by (simp add: demo_utxo_tx_def)

text \<open>The first dust output is the one reported, with its index.\<close>

theorem first_dust_reported:
  assumes "ux_version tx = 1" "ux_outputs tx = pre @ out # post"
    and "\<forall>o'\<in>set pre. 1000 \<le> unat (to_amount o')" "unat (to_amount out) < 1000"
  shows "validate_structure size_of tx = Inl (DustOutput (of_nat (length pre)) (to_amount out) 1000)"
proof -
  have "dust_check 0 (ux_outputs tx) = Some (DustOutput (of_nat (length pre)) (to_amount out) 1000)"
    using dust_check_first [of pre out 0 post] assms(2-4) by (simp add: is_dust_unat not_less DUST_THRESHOLD_def)
  then show ?thesis by (simp add: validate_structure_def PROTOCOL_VERSION_def assms(1,2))
qed

theorem first_dust_reported_witness:
  "validate_structure (\<lambda>_. Inr 300) ((demo_utxo_tx [])\<lparr>ux_outputs :=
     ux_outputs (demo_utxo_tx []) @ [\<lparr>to_amount = 999, to_pubkey_hash = PubKeyHash []\<rparr>]\<rparr>)
   = Inl (DustOutput (of_nat (length (ux_outputs (demo_utxo_tx [])))) 999 1000)"
  using first_dust_reported [of "(demo_utxo_tx [])\<lparr>ux_outputs :=
      ux_outputs (demo_utxo_tx []) @ [\<lparr>to_amount = 999, to_pubkey_hash = PubKeyHash []\<rparr>]\<rparr>"
      "ux_outputs (demo_utxo_tx [])" "\<lparr>to_amount = 999, to_pubkey_hash = PubKeyHash []\<rparr>" "[]"]
  by (simp add: demo_utxo_tx_def)

section \<open>Emission: facts\<close>

lemma unat_foldl_sat_add:
  "unat (foldl (\<lambda>t x. sat_add t (f x)) (a :: 'a::len word) xs)
    = min (unat a + sum_list (map (\<lambda>x. unat (f x)) xs)) (2 ^ LENGTH('a) - 1)"
proof (induction xs arbitrary: a)
  case Nil
  have "unat a \<le> 2 ^ LENGTH('a) - 1" using unsigned_less [of a, where ?'a = nat] by arith
  then show ?case by (simp add: min_absorb1)
next
  case (Cons x xs)
  then show ?case by (simp add: unat_sat_add min_add_min add.assoc)
qed

text \<open>The schedule in natural numbers: one decay step after another.\<close>

definition decayed :: "nat \<Rightarrow> nat \<Rightarrow> nat \<Rightarrow> nat" where
  "decayed bps initial n = ((\<lambda>r. r * bps div 10000) ^^ n) initial"

lemma decayed_simps [simp]:
  "decayed bps r 0 = r" "decayed bps r (Suc n) = decayed bps r n * bps div 10000"
  by (simp_all add: decayed_def)

lemma decayed_shift: "decayed bps r (Suc n) = decayed bps (r * bps div 10000) n"
  by (simp add: decayed_def funpow_Suc_right del: funpow.simps)

lemma decayed_0 [simp]: "decayed bps 0 n = 0"
  by (induction n) simp_all

lemma decayed_le: "bps \<le> 10000 \<Longrightarrow> decayed bps r n \<le> r"
proof (induction n)
  case (Suc n)
  have "decayed bps r n * bps div 10000 \<le> decayed bps r n * 10000 div 10000"
    using Suc.prems by (intro div_le_mono mult_le_mono2)
  with Suc show ?case by simp
qed simp

lemma decay_loop_exact:
  assumes "unat bps \<le> 10000" "unat r < 2 ^ 64"
  shows "unat (decay_loop n bps r) = decayed (unat bps) (unat r) n"
  using assms(2)
proof (induction n arbitrary: r)
  case 0
  then show ?case by (simp add: unat_ucast_mod)
next
  case (Suc n)
  have bps: "unat (ucast bps :: u128) = unat bps"
    using unat_u64_bound [of bps] by (simp add: unat_ucast_mod)
  have "unat r * unat bps \<le> 2 ^ 64 * 10000" using Suc.prems assms(1) by (intro mult_le_mono) simp_all
  then have "unat (r * ucast bps) = unat r * unat bps" by (subst unat_mult_no_wrap) (simp_all add: bps)
  then have step: "unat (r * ucast bps div 10000) = unat r * unat bps div 10000" by (simp add: unat_div)
  have "unat r * unat bps div 10000 \<le> unat r"
    using decayed_le [OF assms(1), of "unat r" 1] by simp
  with Suc.prems step have small: "unat (r * ucast bps div 10000) < 2 ^ 64" by simp
  show ?case
  proof (cases "r * ucast bps div 10000 = 0")
    case True
    with step have "unat r * unat bps div 10000 = 0" by simp
    with True show ?thesis by (simp add: decayed_shift Let_def del: decayed_simps(2))
  next
    case False
    with Suc.IH [OF small] step show ?thesis by (simp add: decayed_shift Let_def del: decayed_simps(2))
  qed
qed

lemma reward_exact:
  assumes "unat (es_decay_factor_bps s) \<le> 10000"
  shows "unat (reward_at_epoch s e) = decayed (unat (es_decay_factor_bps s)) (unat (es_initial_reward s)) (unat e)"
proof -
  have "unat (ucast (es_initial_reward s) :: u128) = unat (es_initial_reward s)"
    using unat_u64_bound [of "es_initial_reward s"] by (simp add: unat_ucast_mod)
  with decay_loop_exact [OF assms, of "ucast (es_initial_reward s)" "unat e"] unat_u64_bound [of "es_initial_reward s"]
  show ?thesis by (simp add: reward_at_epoch_def)
qed

lemma decayed_sum:
  "bps \<le> 10000 \<Longrightarrow>
     (10000 - bps) * (\<Sum>e\<leftarrow>[0..<n]. decayed bps r e) + 10000 * decayed bps r n \<le> 10000 * r"
proof (induction n)
  case (Suc n)
  have "10000 * decayed bps r (Suc n) \<le> decayed bps r n * bps" by simp
  moreover have "(10000 - bps) * decayed bps r n + decayed bps r n * bps = 10000 * decayed bps r n"
    using Suc.prems by (simp add: algebra_simps flip: distrib_left)
  ultimately show ?case using Suc by (simp add: distrib_left del: decayed_simps(2))
qed simp

text \<open>The emission schedule with a decay of at most 10000 basis points is exact: the reward of an epoch is the first reward decayed once per epoch with the fraction dropped at every step, the total through an epoch is the sum of the rewards capped at the total supply, it never exceeds the limit `10000 * initial / (10000 - bps)` of the geometric series, and no intermediate product overflows.\<close>

theorem emission_exact:
  assumes "unat (es_decay_factor_bps s) \<le> 10000"
  defines "bps \<equiv> unat (es_decay_factor_bps s)" and "r \<equiv> unat (es_initial_reward s)"
  shows "unat (reward_at_epoch s e) = decayed bps r (unat e) \<and>
    unat (total_emitted_through_epoch s e)
      = min (\<Sum>i\<leftarrow>[0..<Suc (unat e)]. decayed bps r i) (unat (es_total_supply s)) \<and>
    (10000 - bps) * unat (total_emitted_through_epoch s e) \<le> 10000 * r"
proof -
  let ?sum = "\<Sum>i\<leftarrow>[0..<Suc (unat e)]. decayed bps r i"
  have reward: "unat (reward_at_epoch s (of_nat i)) = decayed bps r i" if "i < Suc (unat e)" for i
    using that unat_u64_bound [of e] reward_exact [OF assms(1), of "of_nat i"]
    by (simp add: bps_def r_def unsigned_of_nat take_bit_nat_eq_self)
  have sum: "(\<Sum>i\<leftarrow>[0..<Suc (unat e)]. unat (reward_at_epoch s (of_nat i))) = ?sum"
    by (intro arg_cong [where f = sum_list] map_cong refl reward) (simp only: set_upt atLeastLessThan_iff)
  have "unat (total_emitted_through_epoch s e) = min (min ?sum (2 ^ 64 - 1)) (unat (es_total_supply s))"
    unfolding total_emitted_through_epoch_def Let_def unat_word_min unat_foldl_sat_add sum by simp
  also have "\<dots> = min ?sum (unat (es_total_supply s))"
    using unat_u64_bound [of "es_total_supply s"] by (simp add: min_def)
  finally have total: "unat (total_emitted_through_epoch s e) = min ?sum (unat (es_total_supply s))" .
  have "(10000 - bps) * ?sum \<le> 10000 * r"
    using decayed_sum [of bps r "Suc (unat e)"] assms(1) unfolding bps_def by (blast dest: add_leD1)
  then have "(10000 - bps) * min ?sum (unat (es_total_supply s)) \<le> 10000 * r"
    by (rule le_trans [rotated]) (intro mult_le_mono2 min.cobounded1)
  with reward_exact [OF assms(1), of e] show ?thesis unfolding total bps_def r_def by blast
qed

theorem emission_exact_witness:
  "unat (total_emitted_through_epoch (schedule_new 1000000) 2) = 2997001"
proof -
  let ?s = "schedule_new 1000000"
  have parts: "unat (es_decay_factor_bps ?s) = 9990" "unat (es_initial_reward ?s) = 1000000"
    "unat (es_total_supply ?s) = 2500000000000000000" "unat (2 :: u64) = 2"
    by (simp_all add: schedule_new_def DECAY_FACTOR_BPS_def)
  have sum: "(\<Sum>i\<leftarrow>[0..<Suc 2]. decayed 9990 1000000 i) = 2997001"
    unfolding numeral_2_eq_2 by (simp del: One_nat_def)
  have "(9990 :: nat) \<le> 10000" by simp
  from emission_exact [of ?s 2, unfolded parts sum, OF this] show ?thesis by simp
qed

text \<open>A coinbase output becomes spendable exactly 100 levels after its creation and stays so, any other output is spendable at once, as long as the maturity depth fits in 64 bits.\<close>

theorem coinbase_maturity_exact:
  assumes "unat (ue_created_at_depth u) + 100 < 2 ^ 64"
  shows "is_spendable_at_depth u d \<longleftrightarrow>
    (ue_is_coinbase u \<longrightarrow> unat (ue_created_at_depth u) + 100 \<le> unat d)"
proof -
  have "unat (ue_created_at_depth u + COINBASE_MATURITY) = unat (ue_created_at_depth u) + 100"
    using assms by (subst unat_add_no_wrap) (simp_all add: COINBASE_MATURITY_def)
  then show ?thesis by (simp add: is_spendable_at_depth_def word_le_unat)
qed

theorem coinbase_maturity_exact_witness:
  "\<not> is_spendable_at_depth \<lparr>ue_id = \<lparr>ui_tx_hash = txh_zero, ui_output_index = 0\<rparr>,
     ue_output = \<lparr>to_amount = 1, to_pubkey_hash = PubKeyHash []\<rparr>, ue_created_at_depth = 50,
     ue_is_coinbase = True\<rparr> 149"
  by (simp add: coinbase_maturity_exact)

lemma txh_hex_roundtrip:
  "crypto_ok C \<Longrightarrow> length (txh_bytes h) = 32 \<Longrightarrow> txh_from_hex C (txh_to_hex C h) = Inr h"
  by (simp add: txh_from_hex_def txh_to_hex_def crypto_okD)

lemma pkh_hex_roundtrip:
  "crypto_ok C \<Longrightarrow> length (pkh_bytes h) = 32 \<Longrightarrow> pkh_from_hex C (pkh_to_hex C h) = Inr h"
  by (simp add: pkh_from_hex_def pkh_to_hex_def crypto_okD)

lemma matches_derived: "matches_pubkey B (from_pubkey_bytes B key) key"
  by (simp add: matches_pubkey_def from_pubkey_bytes_def)

end
