(* ===== verification/UtxoMeta.thy ===== *)
theory UtxoMeta
  imports Utxo
begin

text \<open>
  The rest of \<open>relyo-core/src/primitives.rs\<close>: debug texts, error texts, the records that describe
  rewards, genesis and token, and the printing of amounts, which \<open>token.rs\<close> has a second time. The
  printed amounts are related to \<open>read_amount\<close>, the value that a reader gives to them.
\<close>

section \<open>Definitions\<close>

definition txh_default :: txh where
  "txh_default = txh_zero"

text \<open>The ellipsis of the debug texts, in UTF-8.\<close>

definition ellipsis :: string where
  "ellipsis = [CHR 0xE2, CHR 0x80, CHR 0xA6]"

definition txh_debug :: "crypto \<Rightarrow> txh \<Rightarrow> string" where
  "txh_debug C h = ''TxHash('' @ take 12 (txh_to_hex C h) @ ellipsis @ '')''"

definition txh_display :: "crypto \<Rightarrow> txh \<Rightarrow> string" where
  "txh_display C h = txh_to_hex C h"

definition pkh_debug :: "crypto \<Rightarrow> pkh \<Rightarrow> string" where
  "pkh_debug C h = ''PKH('' @ take 12 (pkh_to_hex C h) @ ellipsis @ '')''"

definition tx_output_new :: "u64 \<Rightarrow> pkh \<Rightarrow> tx_output" where
  "tx_output_new amount h = \<lparr>to_amount = amount, to_pubkey_hash = h\<rparr>"

record node_reward_info =
  ri_node_pubkey_hash :: pkh
  ri_epoch :: u64
  ri_amount :: u64
  ri_txs_validated :: u64
  ri_txs_propagated :: u64

record genesis_data =
  gd_message :: string
  gd_genesis_hash :: txh
  gd_timestamp :: u64
  gd_total_supply :: u64
  gd_emission :: emission_schedule
  gd_protocol_version :: u8
  gd_chain_id :: u32
  gd_dust_threshold :: u64

record token_metadata =
  tm_name :: string
  tm_ticker :: string
  tm_total_supply :: u64
  tm_decimals :: u8
  tm_dust_threshold :: u64

definition TOKEN_CONFIG :: token_metadata where
  "TOKEN_CONFIG =
     \<lparr>tm_name = ''Relyo'', tm_ticker = ''RLY'', tm_total_supply = TOTAL_SUPPLY, tm_decimals = RLY_DECIMALS,
      tm_dust_threshold = DUST_THRESHOLD\<rparr>"

definition utxo_format_rly :: "u64 \<Rightarrow> string" where
  "utxo_format_rly base =
     (let whole = base div RLY_UNIT; frac = base mod RLY_UNIT in
      if frac = 0 then show_word whole @ '' RLY''
      else let s = show_word whole @ ''.'' @ pad_zeros 8 (show_word frac)
           in trim_end_matches (CHR ''.'') (trim_end_matches (CHR ''0'') s) @ '' RLY'')"

definition utxo_rly_to_base :: "u64 \<Rightarrow> u64" where
  "utxo_rly_to_base rly = sat_mul rly RLY_UNIT"

fun utxo_error_text :: "crypto \<Rightarrow> utxo_error \<Rightarrow> string" where
  "utxo_error_text C NoInputs = ''transaction has no inputs''"
| "utxo_error_text C NoOutputs = ''transaction has no outputs''"
| "utxo_error_text C (DustOutput i amount threshold) =
     ''dust output at index '' @ show_word i @ '': '' @ show_word amount @ '' < threshold '' @ show_word threshold"
| "utxo_error_text C (MemoTooLarge s m) =
     ''memo too large: '' @ show_nat s @ '' bytes (max '' @ show_nat m @ '')''"
| "utxo_error_text C (InsufficientParents have need) =
     ''insufficient DAG parents: have '' @ show_nat have @ '', need '' @ show_nat need"
| "utxo_error_text C CoinbaseWithInputs = ''coinbase transaction must not have inputs''"
| "utxo_error_text C (TransactionTooLarge s m) =
     ''transaction too large: '' @ show_nat s @ '' bytes (max '' @ show_nat m @ '')''"
| "utxo_error_text C (UnsupportedVersion v) = ''unsupported protocol version: '' @ show_word v"
| "utxo_error_text C (InsufficientPow have need) =
     ''proof-of-work insufficient: '' @ show_word have @ '' leading zeros (need '' @ show_word need @ '')''"
| "utxo_error_text C (UtxoNotFound u) = ''UTXO not found: '' @ utxo_id_display C u"
| "utxo_error_text C (UtxoAlreadySpent u) = ''UTXO already spent: '' @ utxo_id_display C u"
| "utxo_error_text C (CoinbaseNotMature need current) =
     ''coinbase UTXO not mature: need '' @ show_word need @ '' depth, currently at '' @ show_word current"
| "utxo_error_text C (InsufficientFunds input_total output_total fee) =
     ''input total '' @ show_word input_total @ '' < output total '' @ show_word output_total @ '' + fee '' @ show_word fee"
| "utxo_error_text C (DoubleSpendOf u) =
     ''double spend detected: UTXO '' @ utxo_id_display C u @ '' spent by conflicting transactions''"
| "utxo_error_text C (InvalidSignatureAt i) = ''invalid signature on input '' @ show_nat i"
| "utxo_error_text C (PubKeyMismatch i) =
     ''public key does not match UTXO pubkey hash on input '' @ show_nat i"
| "utxo_error_text C (ParentNotFoundHash h) = ''parent transaction not found: '' @ txh_display C h"
| "utxo_error_text C (DuplicateTx h) = ''duplicate transaction: '' @ txh_display C h"
| "utxo_error_text C (CycleDetectedAt h) = ''DAG cycle detected involving '' @ txh_display C h"
| "utxo_error_text C (InvalidHex s) = ''invalid hex string: '' @ s"
| "utxo_error_text C (InvalidHashLength n) = ''invalid hash length: expected 32 bytes, got '' @ show_nat n"
| "utxo_error_text C (SerializationFailed s) = ''serialization error: '' @ s"
| "utxo_error_text C PeerPowFailed = ''peer PoW challenge failed''"
| "utxo_error_text C (PeerBanned s) = ''peer is banned: '' @ s"
| "utxo_error_text C (RateLimitedPeer s) = ''rate limit exceeded for '' @ s"
| "utxo_error_text C (StorageFailed s) = ''storage error: '' @ s"
| "utxo_error_text C (OtherError s) = s"

text \<open>The two \<open>From\<close> conversions, on the text of the other error.\<close>

definition utxo_error_of_bincode :: "string \<Rightarrow> utxo_error" where
  "utxo_error_of_bincode e = SerializationFailed e"

definition utxo_error_of_json :: "string \<Rightarrow> utxo_error" where
  "utxo_error_of_json e = SerializationFailed e"

section \<open>What a printed amount says\<close>

definition digit_value :: "char \<Rightarrow> nat" where
  "digit_value c = of_char c - 48"

definition read_nat :: "string \<Rightarrow> nat" where
  "read_nat s = foldl (\<lambda>n c. 10 * n + digit_value c) 0 s"

text \<open>The value in base units of a decimal fraction of RLY followed by the ticker.\<close>

definition read_amount :: "string \<Rightarrow> nat" where
  "read_amount s =
     (let t = take (length s - 4) s;
          whole = takeWhile (\<lambda>c. c \<noteq> CHR ''.'') t;
          frac = drop 1 (dropWhile (\<lambda>c. c \<noteq> CHR ''.'') t)
      in read_nat whole * 10 ^ 8 + read_nat frac * 10 ^ (8 - length frac))"

definition digits :: "char set" where
  "digits = digit ` {..<10}"

lemma digit_in [simp]: "d < 10 \<Longrightarrow> digit d \<in> digits"
  by (simp add: digits_def)

lemma digit_value [simp]: "d < 10 \<Longrightarrow> digit_value (digit d) = d"
  by (simp add: digit_value_def digit_def)

lemma zero_digit: "CHR ''0'' = digit 0"
  by (simp add: digit_def char_of_def bit_0)

lemma dot_no_digit: "CHR ''.'' \<notin> digits"
proof
  assume "CHR ''.'' \<in> digits"
  then obtain d :: nat where "d < 10" "CHR ''.'' = char_of (48 + d)" unfolding digits_def digit_def by blast
  then have "of_char (CHR ''.'') = (of_char (char_of (48 + d)) :: nat)" by simp
  with \<open>d < 10\<close> show False by simp
qed

lemma show_nat_digits: "set (show_nat n) \<subseteq> digits"
  by (induction n rule: show_nat.induct) (subst show_nat.simps, auto)

lemma read_nat_snoc [simp]: "read_nat (s @ [c]) = 10 * read_nat s + digit_value c"
  by (simp add: read_nat_def)

lemma read_show [simp]: "read_nat (show_nat n) = n"
proof (induction n rule: show_nat.induct)
  case (1 n)
  then show ?case by (subst show_nat.simps) (simp, simp add: read_nat_def)
qed

lemma show_nat_length: "n < 10 ^ k \<Longrightarrow> 0 < k \<Longrightarrow> length (show_nat n) \<le> k"
proof (induction n arbitrary: k rule: show_nat.induct)
  case (1 n)
  show ?case
  proof (cases "n < 10")
    case True
    then show ?thesis using 1(3) by (subst show_nat.simps) simp
  next
    case False
    with 1(2) have k: "1 < k" by (cases k) (auto intro: Nat.gr0I)
    with 1(2) have "n div 10 < 10 ^ (k - 1)" by (cases k) auto
    with 1(1) [OF False, of "k - 1"] k have "length (show_nat (n div 10)) \<le> k - 1" by simp
    with False k show ?thesis by (subst show_nat.simps) simp
  qed
qed

lemma read_zeros [simp]: "read_nat (replicate m (CHR ''0'') @ s) = read_nat s"
  by (induction m) (simp_all add: read_nat_def zero_digit)

lemma read_zeros_end: "read_nat (s @ replicate m (CHR ''0'')) = read_nat s * 10 ^ m"
proof (induction m)
  case (Suc m)
  have "read_nat (s @ replicate (Suc m) (CHR ''0'')) = read_nat ((s @ replicate m (CHR ''0'')) @ [CHR ''0''])"
    by (simp add: replicate_append_same)
  also have "\<dots> = 10 * read_nat (s @ replicate m (CHR ''0''))"
    by (simp add: zero_digit del: append_assoc)
  finally show ?case using Suc by simp
qed simp

lemma trim_append: "\<exists>y \<in> set ys. y \<noteq> c \<Longrightarrow> trim_end_matches c (xs @ ys) = xs @ trim_end_matches c ys"
  by (auto simp: trim_end_matches_def dropWhile_append1)

lemma trim_split: "s = trim_end_matches c s @ replicate (length s - length (trim_end_matches c s)) c"
proof -
  let ?r = "rev s" and ?n = "length s - length (trim_end_matches c s)"
  have "length (takeWhile (\<lambda>d. d = c) ?r) + length (dropWhile (\<lambda>d. d = c) ?r) = length ?r"
    by (metis length_append takeWhile_dropWhile_id)
  then have "length (takeWhile (\<lambda>d. d = c) ?r) = ?n" by (simp add: trim_end_matches_def)
  moreover have "takeWhile (\<lambda>d. d = c) ?r = replicate (length (takeWhile (\<lambda>d. d = c) ?r)) c"
    by (rule replicate_length_same [symmetric]) (auto dest: set_takeWhileD)
  ultimately have "takeWhile (\<lambda>d. d = c) ?r = replicate ?n c" by simp
  then have "?r = replicate ?n c @ dropWhile (\<lambda>d. d = c) ?r" by (metis takeWhile_dropWhile_id)
  then have "rev ?r = rev (replicate ?n c @ dropWhile (\<lambda>d. d = c) ?r)" by simp
  then show ?thesis by (simp add: trim_end_matches_def)
qed

lemma trim_id: "s \<noteq> [] \<Longrightarrow> last s \<noteq> c \<Longrightarrow> trim_end_matches c s = s"
  by (cases s rule: rev_cases) (simp_all add: trim_end_matches_def)

lemma trim_subset: "set (trim_end_matches c s) \<subseteq> set s"
  by (auto simp: trim_end_matches_def dest: set_dropWhileD)

section \<open>Properties\<close>

text \<open>Printed amounts say what they stand for: reading the digits before and after the point of the
  text that \<open>format_rly\<close> gives yields the amount in base units, for every 64-bit amount, so different
  amounts print differently; the copy of the function in \<open>primitives.rs\<close> prints the same.\<close>

theorem printed_amount_exact:
  "read_amount (format_rly n) = unat n \<and> utxo_format_rly n = format_rly n \<and>
    (format_rly m = format_rly n \<longleftrightarrow> m = n)"
proof -
  have read: "read_amount (format_rly n) = unat n" for n
  proof -
    let ?w = "unat n div 10 ^ 8" and ?f = "unat n mod 10 ^ 8"
    have w: "show_word (n div RLY_UNIT) = show_nat ?w" and f: "show_word (n mod RLY_UNIT) = show_nat ?f"
      by (simp_all add: show_word_def unat_div unat_mod)
    have zero: "n mod RLY_UNIT = 0 \<longleftrightarrow> ?f = 0" by (simp add: unat_mod flip: unat_eq_0)
    have dotless: "CHR ''.'' \<notin> set (show_nat k)" for k using show_nat_digits dot_no_digit by blast
    have tw: "takeWhile (\<lambda>c. c \<noteq> CHR ''.'') (show_nat k @ CHR ''.'' # r) = show_nat k"
      "dropWhile (\<lambda>c. c \<noteq> CHR ''.'') (show_nat k @ CHR ''.'' # r) = CHR ''.'' # r"
      "takeWhile (\<lambda>c. c \<noteq> CHR ''.'') (show_nat k) = show_nat k"
      "dropWhile (\<lambda>c. c \<noteq> CHR ''.'') (show_nat k) = []" for k r
      using dotless [of k] by (auto intro!: takeWhile_append2 [THEN trans] dropWhile_append2 [THEN trans]
        simp: takeWhile_eq_all_conv dropWhile_eq_Nil_conv)
    show ?thesis
    proof (cases "?f = 0")
      case True
      have "unat n = ?w * 10 ^ 8" using div_mult_mod_eq [of "unat n" "10 ^ 8"] True by (metis add.right_neutral)
      then show ?thesis
        using True zero w by (simp add: format_rly_def read_amount_def Let_def tw) (simp add: read_nat_def)
    next
      case False
      let ?p = "pad_zeros 8 (show_nat ?f)"
      let ?q = "trim_end_matches (CHR ''0'') ?p"
      have p: "length ?p = 8" "set ?p \<subseteq> digits" "read_nat ?p = ?f"
        using show_nat_length [of ?f 8] show_nat_digits [of ?f]
        by (simp add: pad_zeros_def, auto simp: pad_zeros_def zero_digit) (simp add: pad_zeros_def flip: zero_digit)
      have nz: "\<exists>y \<in> set ?p. y \<noteq> CHR ''0''"
      proof (rule ccontr)
        assume "\<not> ?thesis"
        then have "?p = [] @ replicate (length ?p) (CHR ''0'')" by (auto simp: replicate_length_same)
        then have "read_nat ?p = 0" by (metis mult_0 read_nat_def foldl_Nil read_zeros_end)
        with p(3) False show False by simp
      qed
      have q: "?q \<noteq> []" using nz by (auto simp: trim_end_matches_def dropWhile_eq_Nil_conv)
      have "last ?q \<in> digits" using q trim_subset [of "CHR ''0''" ?p] p(2) by (meson last_in_set subsetD)
      then have dot: "last ?q \<noteq> CHR ''.''" using dot_no_digit by metis
      have shown: "format_rly n = show_nat ?w @ CHR ''.'' # ?q @ '' RLY''"
        using False zero w f nz q dot
        by (simp add: format_rly_def Let_def trim_append [of _ _ "_ @ [_]", simplified] trim_id)
      have qlen: "length ?q \<le> 8" using p(1) by (metis trim_split length_append le_add1)
      have "?f = read_nat ?q * 10 ^ (8 - length ?q)"
        using trim_split [of ?p "CHR ''0''"] p(1,3) by (metis read_zeros_end)
      then show ?thesis by (simp add: shown read_amount_def Let_def tw)
    qed
  qed
  have "format_rly m = format_rly n \<longleftrightarrow> m = n" by (metis read word_unat_eq_iff)
  with read show ?thesis by (simp add: utxo_format_rly_def format_rly_def)
qed

end
