(* ===== verification/Peers.thy ===== *)
theory Peers
  imports Prelude
begin

text \<open>
  \<open>relyo-network/src/peer_manager.rs\<close>: the connected peers, their statistics, and the limits on
  connections in total and per network bucket.  \<open>libp2p\<close>'s peer identifiers are a type variable;
  an \<open>Instant\<close> is an integer and comes from the caller, as does the order a shuffle produces.
\<close>

section \<open>Network buckets\<close>

text \<open>\<open>split(c)\<close>, \<open>join(sep)\<close>, and \<open>position\<close> as the code uses them.\<close>

fun split_on :: "char \<Rightarrow> string \<Rightarrow> string list" where
  "split_on c [] = [[]]"
| "split_on c (x # xs) =
     (if x = c then [] # split_on c xs
      else case split_on c xs of [] \<Rightarrow> [[x]] | p # ps \<Rightarrow> (x # p) # ps)"

fun join_with :: "string \<Rightarrow> string list \<Rightarrow> string" where
  "join_with sep [] = []"
| "join_with sep [s] = s"
| "join_with sep (s # ss) = s @ sep @ join_with sep ss"

fun after_tag :: "string \<Rightarrow> string list \<Rightarrow> string option option" where
  "after_tag tag [] = None"
| "after_tag tag (p # ps) =
     (if p = tag then Some (case ps of [] \<Rightarrow> None | q # _ \<Rightarrow> Some q) else after_tag tag ps)"

definition ip_of_address :: "string \<Rightarrow> string" where
  "ip_of_address address =
     (let parts = split_on (CHR ''/'') address in
      case after_tag ''ip4'' parts of
        Some q \<Rightarrow> (case q of Some ip \<Rightarrow> ip | None \<Rightarrow> address)
      | None \<Rightarrow>
          (case after_tag ''ip6'' parts of
             Some q \<Rightarrow> (case q of Some ip \<Rightarrow> ip | None \<Rightarrow> address)
           | None \<Rightarrow> address))"

definition bucket_for_address :: "string \<Rightarrow> string" where
  "bucket_for_address address =
     (let ip = ip_of_address address in
      if CHR '':'' \<in> set ip then join_with '':'' (take 4 (split_on (CHR '':'') ip))
      else case split_on (CHR ''.'') ip of
        a # b # c # _ \<Rightarrow> a @ ''.'' @ b @ ''.'' @ c
      | _ \<Rightarrow> ip)"

section \<open>State\<close>

record 'p peer_info =
  pi_peer_id :: 'p
  pi_connected_at :: int
  pi_last_seen :: int
  pi_address :: string
  pi_bytes_sent :: u64
  pi_bytes_received :: u64
  pi_messages_sent :: u64
  pi_messages_received :: u64

record 'p peer_manager =
  pm_peers :: "('p \<times> 'p peer_info) list"
  pm_buckets :: "(string \<times> nat) list"
  pm_max_peers :: nat
  pm_max_per_bucket :: nat

definition with_limits :: "nat \<Rightarrow> nat \<Rightarrow> 'p peer_manager" where
  "with_limits max_peers max_peers_per_bucket =
     \<lparr>pm_peers = [], pm_buckets = [], pm_max_peers = max_peers,
      pm_max_per_bucket = max max_peers_per_bucket 1\<rparr>"

definition manager_new :: "nat \<Rightarrow> 'p peer_manager" where
  "manager_new max_peers = with_limits max_peers (min (max (max_peers div 5) 2) 16)"

section \<open>Operations\<close>

definition fresh_peer :: "int \<Rightarrow> 'p \<Rightarrow> string \<Rightarrow> 'p peer_info" where
  "fresh_peer now p address =
     \<lparr>pi_peer_id = p, pi_connected_at = now, pi_last_seen = now, pi_address = address, pi_bytes_sent = 0,
      pi_bytes_received = 0, pi_messages_sent = 0, pi_messages_received = 0\<rparr>"

definition add_peer :: "int \<Rightarrow> 'p peer_manager \<Rightarrow> 'p \<Rightarrow> string \<Rightarrow> bool \<times> 'p peer_manager" where
  "add_peer now pm p address =
     (if has_key (pm_peers pm) p then (True, pm)
      else if length (pm_peers pm) \<ge> pm_max_peers pm then (False, pm)
      else
        let bucket = bucket_for_address address;
            bucket_count = get_or 0 (pm_buckets pm) bucket
        in if bucket_count \<ge> pm_max_per_bucket pm then (False, pm)
           else
             (True,
              pm\<lparr>pm_peers := AList.update p (fresh_peer now p address) (pm_peers pm),
                 pm_buckets := AList.update bucket
                   (case map_of (pm_buckets pm) bucket of Some v \<Rightarrow> v + 1 | None \<Rightarrow> 1)
                   (pm_buckets pm)\<rparr>))"

definition remove_peer :: "'p peer_manager \<Rightarrow> 'p \<Rightarrow> 'p peer_manager" where
  "remove_peer pm p =
     (case map_of (pm_peers pm) p of
        None \<Rightarrow> pm
      | Some info \<Rightarrow>
          let pm' = pm\<lparr>pm_peers := AList.delete p (pm_peers pm)\<rparr>;
              bucket = bucket_for_address (pi_address info)
          in case map_of (pm_buckets pm) bucket of
               None \<Rightarrow> pm'
             | Some n \<Rightarrow>
                 if n \<le> 1 then pm'\<lparr>pm_buckets := AList.delete bucket (pm_buckets pm)\<rparr>
                 else pm'\<lparr>pm_buckets := AList.update bucket (n - 1) (pm_buckets pm)\<rparr>)"

definition touch :: "int \<Rightarrow> 'p peer_manager \<Rightarrow> 'p \<Rightarrow> 'p peer_manager" where
  "touch now pm p = pm\<lparr>pm_peers := AList.map_entry p (\<lambda>i. i\<lparr>pi_last_seen := now\<rparr>) (pm_peers pm)\<rparr>"

definition record_sent :: "'p peer_manager \<Rightarrow> 'p \<Rightarrow> u64 \<Rightarrow> 'p peer_manager" where
  "record_sent pm p n =
     pm\<lparr>pm_peers := AList.map_entry p
          (\<lambda>i. i\<lparr>pi_bytes_sent := pi_bytes_sent i + n, pi_messages_sent := pi_messages_sent i + 1\<rparr>)
          (pm_peers pm)\<rparr>"

definition record_received :: "int \<Rightarrow> 'p peer_manager \<Rightarrow> 'p \<Rightarrow> u64 \<Rightarrow> 'p peer_manager" where
  "record_received now pm p n =
     pm\<lparr>pm_peers := AList.map_entry p
          (\<lambda>i. i\<lparr>pi_bytes_received := pi_bytes_received i + n,
                 pi_messages_received := pi_messages_received i + 1, pi_last_seen := now\<rparr>)
          (pm_peers pm)\<rparr>"

definition connected_peers :: "'p peer_manager \<Rightarrow> 'p list" where
  "connected_peers pm = keys (pm_peers pm)"

definition peer_count :: "'p peer_manager \<Rightarrow> nat" where
  "peer_count pm = length (pm_peers pm)"

definition is_connected :: "'p peer_manager \<Rightarrow> 'p \<Rightarrow> bool" where
  "is_connected pm p = has_key (pm_peers pm) p"

definition get_peer :: "'p peer_manager \<Rightarrow> 'p \<Rightarrow> 'p peer_info option" where
  "get_peer pm p = map_of (pm_peers pm) p"

definition total_bandwidth :: "'p peer_manager \<Rightarrow> u64" where
  "total_bandwidth pm = vsum (\<lambda>i. pi_bytes_sent i + pi_bytes_received i) (pm_peers pm)"

text \<open>\<open>shuffle\<close> is the permutation the random generator chooses.\<close>

definition sample_peers :: "('p list \<Rightarrow> 'p list) \<Rightarrow> 'p peer_manager \<Rightarrow> nat \<Rightarrow> 'p list" where
  "sample_peers shuffle pm n =
     (let all = connected_peers pm in if length all \<le> n then all else take n (shuffle all))"

section \<open>Bookkeeping\<close>

definition in_bucket :: "string \<Rightarrow> ('p \<times> 'p peer_info) list \<Rightarrow> nat" where
  "in_bucket b m = vsum (\<lambda>i. if bucket_for_address (pi_address i) = b then 1 else 0) m"

definition manager_ok :: "'p peer_manager \<Rightarrow> bool" where
  "manager_ok pm \<longleftrightarrow>
     distinct (keys (pm_peers pm)) \<and> distinct (keys (pm_buckets pm)) \<and>
     length (pm_peers pm) \<le> pm_max_peers pm \<and>
     (\<forall>b. get_or 0 (pm_buckets pm) b = in_bucket b (pm_peers pm) \<and>
          in_bucket b (pm_peers pm) \<le> pm_max_per_bucket pm \<and>
          map_of (pm_buckets pm) b \<noteq> Some 0)"

lemma in_bucket_update:
  "map_of m p = None \<Longrightarrow>
     in_bucket b (AList.update p i m) = in_bucket b m + (if bucket_for_address (pi_address i) = b then 1 else 0)"
  unfolding in_bucket_def
  using vsum_update [of "\<lambda>i. if bucket_for_address (pi_address i) = b then 1 else 0" p i m] by simp

lemma in_bucket_delete:
  "distinct (keys m) \<Longrightarrow> map_of m p = Some i \<Longrightarrow>
     in_bucket b m = in_bucket b (AList.delete p m) + (if bucket_for_address (pi_address i) = b then 1 else 0)"
  unfolding in_bucket_def by (subst vsum_delete [of m _ p]) simp_all

lemma in_bucket_entry:
  "(\<And>i. pi_address (f i) = pi_address i) \<Longrightarrow> in_bucket b (AList.map_entry p f m) = in_bucket b m"
  unfolding in_bucket_def by (induction m) auto

lemma in_bucket_length: "in_bucket b m \<le> length m"
  unfolding in_bucket_def by (induction m) auto

lemma manager_okD:
  assumes "manager_ok pm"
  shows "distinct (keys (pm_peers pm))" "distinct (keys (pm_buckets pm))"
    "length (pm_peers pm) \<le> pm_max_peers pm"
    "get_or 0 (pm_buckets pm) b = in_bucket b (pm_peers pm)"
    "in_bucket b (pm_peers pm) \<le> pm_max_per_bucket pm" "map_of (pm_buckets pm) b \<noteq> Some 0"
  using assms by (simp_all add: manager_ok_def)

lemma add_peer_ok:
  assumes ok: "manager_ok pm" and add: "add_peer now pm p address = (acc, pm')"
  shows "manager_ok pm'"
proof (cases "pm' = pm")
  case False
  let ?b = "bucket_for_address address" and ?i = "fresh_peer now p address"
  from False add have new: "map_of (pm_peers pm) p = None" "length (pm_peers pm) < pm_max_peers pm"
      "get_or 0 (pm_buckets pm) ?b < pm_max_per_bucket pm"
    and eq: "pm' = pm\<lparr>pm_peers := AList.update p ?i (pm_peers pm),
      pm_buckets := AList.update ?b (get_or 0 (pm_buckets pm) ?b + 1) (pm_buckets pm)\<rparr>"
    by (auto simp: add_peer_def Let_def has_key_def get_or_def not_le split: if_splits option.splits)
  have "length (AList.update p ?i (pm_peers pm)) = Suc (length (pm_peers pm))"
    using new(1) by (simp add: length_update has_key_def)
  with new manager_okD [OF ok] show ?thesis
    by (auto simp: manager_ok_def eq in_bucket_update amaps fresh_peer_def)
qed (use ok in simp)

lemma remove_peer_ok:
  assumes ok: "manager_ok pm"
  shows "manager_ok (remove_peer pm p)"
proof (cases "map_of (pm_peers pm) p")
  case None
  with ok show ?thesis by (simp add: remove_peer_def)
next
  case (Some i)
  let ?b = "bucket_for_address (pi_address i)"
  let ?peers = "AList.delete p (pm_peers pm)"
  note del = in_bucket_delete [OF manager_okD(1) [OF ok] Some]
  have pos: "get_or 0 (pm_buckets pm) ?b = Suc (in_bucket ?b ?peers)"
    using del [of ?b] manager_okD(4) [OF ok, of ?b] by simp
  then obtain n where n: "map_of (pm_buckets pm) ?b = Some n" "n = Suc (in_bucket ?b ?peers)"
    by (auto simp: get_or_def split: option.splits)
  define buckets where "buckets = (if n \<le> 1 then AList.delete ?b (pm_buckets pm)
     else AList.update ?b (n - 1) (pm_buckets pm))"
  have eq: "remove_peer pm p = pm\<lparr>pm_peers := ?peers, pm_buckets := buckets\<rparr>"
    by (simp add: remove_peer_def Some n(1) buckets_def)
  have "get_or 0 buckets b = in_bucket b ?peers \<and> map_of buckets b \<noteq> Some 0" for b
    using n manager_okD(4) [OF ok, of b] manager_okD(6) [OF ok, of b] del [of b]
    by (auto simp: buckets_def amaps)
  moreover have "in_bucket b ?peers \<le> pm_max_per_bucket pm" for b
    using manager_okD(5) [OF ok, of b] del [of b] by simp
  moreover have "length ?peers \<le> pm_max_peers pm"
    using manager_okD(3) [OF ok] AList.length_delete_le [of p "pm_peers pm"] by (rule le_trans [rotated])
  moreover have "distinct (keys buckets)" using manager_okD(2) [OF ok] by (simp add: buckets_def)
  ultimately show ?thesis
    using manager_okD(1) [OF ok] by (simp add: manager_ok_def eq)
qed

lemma entry_ok:
  assumes "manager_ok pm" "\<And>i. pi_address (f i) = pi_address i"
  shows "manager_ok (pm\<lparr>pm_peers := AList.map_entry p f (pm_peers pm)\<rparr>)"
  using assms by (simp add: manager_ok_def in_bucket_entry)

text \<open>Every sequence of operations on a new manager.\<close>

inductive manager_run :: "nat \<Rightarrow> nat \<Rightarrow> 'p peer_manager \<Rightarrow> bool" for m k where
  run_new: "manager_run m k (with_limits m k)"
| run_add: "manager_run m k pm \<Longrightarrow> manager_run m k (snd (add_peer now pm p address))"
| run_remove: "manager_run m k pm \<Longrightarrow> manager_run m k (remove_peer pm p)"
| run_touch: "manager_run m k pm \<Longrightarrow> manager_run m k (touch now pm p)"
| run_sent: "manager_run m k pm \<Longrightarrow> manager_run m k (record_sent pm p n)"
| run_received: "manager_run m k pm \<Longrightarrow> manager_run m k (record_received now pm p n)"

declare manager_run.intros [intro]

lemma limits_frame [simp]:
  "pm_max_peers (snd (add_peer now pm p address)) = pm_max_peers pm"
  "pm_max_per_bucket (snd (add_peer now pm p address)) = pm_max_per_bucket pm"
  "pm_max_peers (remove_peer pm p) = pm_max_peers pm"
  "pm_max_per_bucket (remove_peer pm p) = pm_max_per_bucket pm"
  "pm_max_peers (touch now pm p) = pm_max_peers pm" "pm_max_per_bucket (touch now pm p) = pm_max_per_bucket pm"
  "pm_max_peers (record_sent pm p n) = pm_max_peers pm"
  "pm_max_per_bucket (record_sent pm p n) = pm_max_per_bucket pm"
  "pm_max_peers (record_received now pm p n) = pm_max_peers pm"
  "pm_max_per_bucket (record_received now pm p n) = pm_max_per_bucket pm"
  by (simp_all add: add_peer_def remove_peer_def touch_def record_sent_def record_received_def Let_def
      split: option.split)

lemma manager_run_ok:
  "manager_run m k pm \<Longrightarrow> manager_ok pm \<and> pm_max_peers pm = m \<and> pm_max_per_bucket pm = max k 1"
proof (induction rule: manager_run.induct)
  case run_new
  then show ?case by (simp add: manager_ok_def with_limits_def in_bucket_def)
next
  case (run_add pm now p address)
  then show ?case using add_peer_ok [of pm now p address] by (simp add: prod_eq_iff)
next
  case (run_remove pm p)
  then show ?case by (simp add: remove_peer_ok)
qed (simp_all add: touch_def record_sent_def record_received_def entry_ok)

text \<open>The connection limits hold in every reachable state: at most `max_peers` peers are connected, at most `max(max_peers_per_bucket, 1)` of them from any network bucket, and the counter of every bucket is exactly the number of its connected peers, however connects, disconnects and traffic interleave.\<close>

theorem peer_limits:
  assumes "manager_run m k pm"
  shows "peer_count pm \<le> m \<and> distinct (connected_peers pm) \<and>
    get_or 0 (pm_buckets pm) b
      = length (filter (\<lambda>e. bucket_for_address (pi_address (snd e)) = b) (pm_peers pm)) \<and>
    get_or 0 (pm_buckets pm) b \<le> max k 1"
proof -
  have "in_bucket b w = length (filter (\<lambda>e. bucket_for_address (pi_address (snd e)) = b) w)"
    for w :: "('p \<times> 'p peer_info) list"
    unfolding in_bucket_def by (induction w) auto
  then show ?thesis
    using manager_run_ok [OF assms] manager_okD [of pm]
    by (auto simp: peer_count_def connected_peers_def)
qed

definition demo_peers :: "nat peer_manager" where
  "demo_peers = snd (add_peer 1 (with_limits 10 1) 7 ''/ip4/10.1.2.3/tcp/9001'')"

theorem peer_limits_witness:
  "peer_count demo_peers \<le> 10 \<and> distinct (connected_peers demo_peers) \<and>
   get_or 0 (pm_buckets demo_peers) ''10.1.2''
     = length (filter (\<lambda>e. bucket_for_address (pi_address (snd e)) = ''10.1.2'') (pm_peers demo_peers)) \<and>
   get_or 0 (pm_buckets demo_peers) ''10.1.2'' \<le> max 1 1"
  by (rule peer_limits) (auto simp: demo_peers_def)

text \<open>A second peer of the same network is refused by the demo manager.\<close>

lemma demo_peers_bucket:
  "fst (add_peer 2 demo_peers 8 ''/ip4/10.1.2.99/tcp/9003'') = False \<and>
   fst (add_peer 2 demo_peers 8 ''/ip4/10.1.3.99/tcp/9003'') = True"
  by code_simp

text \<open>Sampling for gossip returns the requested number of distinct connected peers, all of them when fewer are connected, whatever permutation the shuffle chooses.\<close>

theorem sample_peers_distinct:
  assumes "manager_run m k pm" "\<And>xs. mset (shuffle xs) = mset xs"
  shows "length (sample_peers shuffle pm n) = min n (peer_count pm) \<and> distinct (sample_peers shuffle pm n) \<and>
    (\<forall>p\<in>set (sample_peers shuffle pm n). is_connected pm p)"
proof -
  let ?all = "connected_peers pm"
  have all: "distinct ?all" "\<forall>p\<in>set ?all. is_connected pm p" "length ?all = peer_count pm"
    using manager_run_ok [OF assms(1)]
    by (auto simp: manager_ok_def connected_peers_def is_connected_def has_key_iff peer_count_def)
  have sh: "distinct (shuffle ?all)" "set (shuffle ?all) = set ?all" "length (shuffle ?all) = length ?all"
    using assms(2) [of ?all] all(1)
    by (auto dest: mset_eq_imp_distinct_iff mset_eq_setD mset_eq_length)
  have "\<forall>p\<in>set (take n (shuffle ?all)). is_connected pm p"
    using all(2) sh(2) by (auto dest: in_set_takeD)
  with all sh show ?thesis by (auto simp: sample_peers_def Let_def distinct_take)
qed

theorem sample_peers_distinct_witness:
  "length (sample_peers rev demo_peers 3) = min 3 (peer_count demo_peers) \<and>
   distinct (sample_peers rev demo_peers 3) \<and> (\<forall>p\<in>set (sample_peers rev demo_peers 3). is_connected demo_peers p)"
  by (rule sample_peers_distinct [of 10 1]) (auto simp: demo_peers_def)

end
