(* ===== verification/GraphShape.thy ===== *)
theory GraphShape
  imports Graph
begin

text \<open>
  The shape of the transaction graph: an invariant that ties nodes, parents, children, weights,
  depths, tips and the counter together, its preservation by every insertion, and the fact that
  no nonce is accepted twice along any sequence of operations.
\<close>

section \<open>The nodes after an insertion\<close>

lemma is_zero_iff: "is_zero h \<longleftrightarrow> h = zero_hash"
  by (cases h) (simp add: is_zero_def zero_hash_def)

text \<open>The entries a new node adds to the children of \<open>x\<close>.\<close>

definition slots :: "transaction \<Rightarrow> transaction_hash \<Rightarrow> transaction_hash \<Rightarrow> transaction_hash list" where
  "slots tx h x =
     (if is_genesis tx then []
      else (if x = tx_parent_1 tx then [h] else []) @ (if x = tx_parent_2 tx then [h] else []))"

definition link :: "transaction \<Rightarrow> transaction_hash \<Rightarrow> transaction_hash \<Rightarrow> dag_node \<Rightarrow> dag_node" where
  "link tx h x n = n\<lparr>dn_children := dn_children n @ slots tx h x,
     dn_weight := dn_weight n + of_nat (length (slots tx h x))\<rparr>"

definition new_depth :: "dag_graph \<Rightarrow> transaction \<Rightarrow> u64" where
  "new_depth g tx =
     (if is_genesis tx then 0
      else max (node_depth g (tx_parent_1 tx)) (node_depth g (tx_parent_2 tx)) + 1)"

lemma link_frame [simp]:
  "dn_tx (link tx h x n) = dn_tx n" "dn_hash (link tx h x n) = dn_hash n"
  "dn_depth (link tx h x n) = dn_depth n"
  "dn_children (link tx h x n) = dn_children n @ slots tx h x"
  "dn_weight (link tx h x n) = dn_weight n + of_nat (length (slots tx h x))"
  by (simp_all add: link_def)

lemma attach_nodes:
  "map_of (g_nodes (attach now g tx h)) x =
    (if x = h then Some \<lparr>dn_tx = tx, dn_hash = h, dn_status = Pending, dn_children = [],
        dn_weight = 1, dn_depth = new_depth g tx\<rparr>
     else map_option (link tx h x) (map_of (g_nodes g) x))"
  by (cases "map_of (g_nodes g) x")
    (auto simp: attach_def Let_def add_child_def propagate_weight_def map_of_update map_of_entry
      new_depth_def link_def slots_def)

lemma attach_keys:
  "keys (g_nodes (attach now g tx h)) =
     (if has_key (g_nodes g) h then keys (g_nodes g) else keys (g_nodes g) @ [h])"
proof -
  have "keys (AList.update h v m) = (if has_key m h then keys m else keys m @ [h])"
    for v and m :: "(transaction_hash \<times> dag_node) list"
    by (induction m) (auto simp: has_key_def)
  moreover have "has_key m h = has_key m' h" if "keys m = keys m'"
    for m m' :: "(transaction_hash \<times> dag_node) list"
    using that by (simp add: has_key_iff del: set_map)
  ultimately show ?thesis
    by (simp add: attach_def Let_def add_child_def propagate_weight_def has_key_iff del: set_map)
qed

lemma attach_tips:
  "has_tip (g_tips (attach now g tx h)) x \<longleftrightarrow>
     x = h \<or> x \<noteq> tx_parent_1 tx \<and> x \<noteq> tx_parent_2 tx \<and> has_tip (g_tips g) x"
proof -
  have eq: "g_tips (attach now g tx h)
      = add_tip now (foldl remove_tip (g_tips g) [tx_parent_1 tx, tx_parent_2 tx]) h"
    by (simp add: attach_def Let_def add_child_def propagate_weight_def)
  show ?thesis unfolding eq tip_pool.mem_replace by simp
qed

lemma attach_tips_ok: "tips_ok (g_tips g) \<Longrightarrow> tips_ok (g_tips (attach now g tx h))"
  by (simp add: attach_def Let_def add_child_def propagate_weight_def)

lemma attach_max_depth: "g_max_depth (attach now g tx h) = max (g_max_depth g) (new_depth g tx)"
  by (auto simp: attach_def Let_def add_child_def propagate_weight_def new_depth_def max_def)

section \<open>The invariant\<close>

definition parent_slots :: "dag_graph \<Rightarrow> transaction_hash \<Rightarrow> transaction_hash \<Rightarrow> nat" where
  "parent_slots g p c =
     (case map_of (g_nodes g) c of None \<Rightarrow> 0 | Some n \<Rightarrow> length (slots (dn_tx n) c p))"

text \<open>One node is well formed: it is filed under its own hash, its weight counts its children, its
  children are the nodes that name it as a parent, its parents are present and less deep.\<close>

definition node_ok :: "crypto \<Rightarrow> dag_graph \<Rightarrow> transaction_hash \<Rightarrow> dag_node \<Rightarrow> bool" where
  "node_ok C g h n \<longleftrightarrow>
     dn_hash n = h \<and> tx_hash C (dn_tx n) = h \<and>
     dn_weight n = 1 + of_nat (length (dn_children n)) \<and>
     dn_depth n \<le> g_max_depth g \<and>
     (\<forall>c. count_list (dn_children n) c = parent_slots g h c) \<and>
     (if is_genesis (dn_tx n) then dn_depth n = 0
      else has_key (g_nodes g) (tx_parent_1 (dn_tx n)) \<and> has_key (g_nodes g) (tx_parent_2 (dn_tx n)) \<and>
        unat (dn_depth n) = max (unat (node_depth g (tx_parent_1 (dn_tx n))))
          (unat (node_depth g (tx_parent_2 (dn_tx n)))) + 1)"

definition graph_ok :: "crypto \<Rightarrow> dag_graph \<Rightarrow> bool" where
  "graph_ok C g \<longleftrightarrow>
     distinct (keys (g_nodes g)) \<and> \<not> has_key (g_nodes g) zero_hash \<and>
     (\<forall>h n. map_of (g_nodes g) h = Some n \<longrightarrow> node_ok C g h n) \<and>
     (\<forall>h. has_tip (g_tips g) h \<longleftrightarrow> (\<exists>n. map_of (g_nodes g) h = Some n \<and> dn_children n = [])) \<and>
     tips_ok (g_tips g) \<and> ledger_ok (g_state g) \<and>
     g_total_count g = of_nat (length (g_nodes g))"

lemma graph_okD:
  assumes "graph_ok C g"
  shows "distinct (keys (g_nodes g))" "\<not> has_key (g_nodes g) zero_hash"
    "map_of (g_nodes g) h = Some n \<Longrightarrow> node_ok C g h n"
    "has_tip (g_tips g) h \<longleftrightarrow> (\<exists>n. map_of (g_nodes g) h = Some n \<and> dn_children n = [])"
    "tips_ok (g_tips g)" "ledger_ok (g_state g)" "g_total_count g = of_nat (length (g_nodes g))"
  using assms by (auto simp: graph_ok_def)

lemma node_depth_le: "graph_ok C g \<Longrightarrow> node_depth g h \<le> g_max_depth g"
  by (auto simp: node_depth_def node_ok_def dest: graph_okD(3) split: option.split)

lemma node_depth_Some: "map_of (g_nodes g) h = Some n \<Longrightarrow> node_depth g h = dn_depth n"
  by (simp add: node_depth_def)

lemma graph_ok_new: "ledger_ok st \<Longrightarrow> graph_ok C (graph_new st tips_new conflicts_new)"
  by (simp add: graph_ok_def graph_new_def has_tip_def) (simp add: tips_new_def)

text \<open>The invariant only reads these parts of the graph.\<close>

lemma graph_ok_cong:
  assumes "g_nodes g = g_nodes g'" "has_tip (g_tips g) = has_tip (g_tips g')"
    "g_max_depth g = g_max_depth g'" "g_total_count g = g_total_count g'" "tips_ok (g_tips g')"
    "ledger_ok (g_state g')" "graph_ok C g"
  shows "graph_ok C g'"
proof -
  have "node_depth g' = node_depth g" "parent_slots g' = parent_slots g"
    using assms(1) by (simp_all add: node_depth_def parent_slots_def fun_eq_iff)
  then have "node_ok C g' = node_ok C g"
    using assms(1,3) by (simp add: node_ok_def fun_eq_iff)
  with assms show ?thesis by (simp add: graph_ok_def)
qed

lemma set_status_nodes:
  "map_of (g_nodes (set_status g h st)) x =
     map_option (\<lambda>n. if x = h then n\<lparr>dn_status := st\<rparr> else n) (map_of (g_nodes g) x)"
  by (cases "map_of (g_nodes g) x") (auto simp: set_status_def map_of_entry)

lemma set_status_frame [simp]:
  "g_tips (set_status g h st) = g_tips g" "g_state (set_status g h st) = g_state g"
  "g_conflicts (set_status g h st) = g_conflicts g" "g_max_depth (set_status g h st) = g_max_depth g"
  "g_total_count (set_status g h st) = g_total_count g"
  "keys (g_nodes (set_status g h st)) = keys (g_nodes g)"
  "length (g_nodes (set_status g h st)) = length (g_nodes g)"
  by (simp_all add: set_status_def)

lemma set_status_ok:
  assumes "graph_ok C g"
  shows "graph_ok C (set_status g h st)"
proof -
  let ?g = "set_status g h st"
  have keys: "has_key (g_nodes ?g) x = has_key (g_nodes g) x" for x
    by (simp add: has_key_iff del: set_map)
  have d: "node_depth ?g = node_depth g" "parent_slots ?g = parent_slots g"
    by (auto simp: node_depth_def parent_slots_def set_status_nodes fun_eq_iff split: option.split)
  have "node_ok C ?g x n" if "map_of (g_nodes ?g) x = Some n" for x n
    using that graph_okD(3) [OF assms, of x] keys d
    by (auto simp: set_status_nodes node_ok_def split: if_splits)
  moreover have "(\<exists>n. map_of (g_nodes ?g) x = Some n \<and> dn_children n = []) \<longleftrightarrow>
      (\<exists>n. map_of (g_nodes g) x = Some n \<and> dn_children n = [])" for x
    by (cases "map_of (g_nodes g) x") (auto simp: set_status_nodes)
  ultimately show ?thesis using assms keys by (simp add: graph_ok_def)
qed

section \<open>Preservation\<close>

lemma new_depth_unat:
  assumes "graph_ok C g" "unat (g_max_depth g) + 1 < 2 ^ 64"
  shows "unat (new_depth g tx) =
    (if is_genesis tx then 0
     else max (unat (node_depth g (tx_parent_1 tx))) (unat (node_depth g (tx_parent_2 tx))) + 1)"
proof -
  let ?d = "max (node_depth g (tx_parent_1 tx)) (node_depth g (tx_parent_2 tx))"
  have "unat ?d \<le> unat (g_max_depth g)"
    using node_depth_le [OF assms(1)] by (simp add: unat_word_max word_le_unat)
  then have "unat ?d + unat (1 :: u64) < 2 ^ LENGTH(64)" using assms(2) by simp
  then have "unat (?d + 1) = unat ?d + 1" by (simp add: unat_add_no_wrap)
  then show ?thesis by (simp add: new_depth_def unat_word_max)
qed

text \<open>A transaction whose node can be attached: the part of the checks the shape depends on.\<close>

definition attachable :: "crypto \<Rightarrow> dag_graph \<Rightarrow> transaction \<Rightarrow> transaction_hash \<Rightarrow> bool" where
  "attachable C g tx h \<longleftrightarrow>
     graph_ok C g \<and> \<not> has_key (g_nodes g) h \<and> h \<noteq> zero_hash \<and> tx_hash C tx = h \<and>
     unat (g_max_depth g) + 1 < 2 ^ 64 \<and>
     (is_genesis tx \<or> has_key (g_nodes g) (tx_parent_1 tx) \<and> has_key (g_nodes g) (tx_parent_2 tx))"

lemma attach_has_key:
  "has_key (g_nodes (attach now g tx h)) x \<longleftrightarrow> x = h \<or> has_key (g_nodes g) x"
  by (auto simp: has_key_def attach_nodes)

lemma attach_node_depth:
  "node_depth (attach now g tx h) x = (if x = h then new_depth g tx else node_depth g x)"
  by (auto simp: node_depth_def attach_nodes split: option.split)

lemma attach_parent_slots:
  "parent_slots (attach now g tx h) p c =
     (if c = h then length (slots tx h p) else parent_slots g p c)"
  by (auto simp: parent_slots_def attach_nodes split: option.split)

lemma count_list_same:
  "set xs \<subseteq> {h} \<Longrightarrow> count_list xs c = (if c = h then length xs else 0)"
  by (induction xs) auto

lemma slots_count: "count_list (slots tx h x) c = (if c = h then length (slots tx h x) else 0)"
proof (rule count_list_same)
  show "set (slots tx h x) \<subseteq> {h}"
    by (cases "is_genesis tx"; cases "x = tx_parent_1 tx"; cases "x = tx_parent_2 tx";
        simp add: slots_def split del: if_split)
qed

lemma slots_not_parent:
  "is_genesis tx \<or> tx_parent_1 tx \<noteq> x \<and> tx_parent_2 tx \<noteq> x \<Longrightarrow> slots tx h x = []"
  by (auto simp: slots_def)

lemma attach_old_node:
  assumes "attachable C g tx h" "map_of (g_nodes g) x = Some n" "x \<noteq> h"
  shows "node_ok C (attach now g tx h) x (link tx h x n)"
proof -
  have ok: "node_ok C g x n" and fresh: "\<not> has_key (g_nodes g) h"
    using assms by (auto simp: attachable_def dest: graph_okD(3))
  have "parent_slots g x h = 0" using fresh by (simp add: parent_slots_def has_key_def)
  moreover have "tx_parent_1 (dn_tx n) \<noteq> h \<and> tx_parent_2 (dn_tx n) \<noteq> h" if "\<not> is_genesis (dn_tx n)"
    using that ok fresh by (auto simp: node_ok_def)
  moreover have "dn_depth n \<le> max (g_max_depth g) (new_depth g tx)"
    using ok by (simp add: node_ok_def le_max_iff_disj)
  ultimately show ?thesis
    using ok
    by (simp add: node_ok_def attach_has_key attach_node_depth attach_parent_slots attach_max_depth
        slots_count)
qed

lemma attach_new_node:
  assumes "attachable C g tx h"
  shows "node_ok C (attach now g tx h) h
    \<lparr>dn_tx = tx, dn_hash = h, dn_status = Pending, dn_children = [], dn_weight = 1,
     dn_depth = new_depth g tx\<rparr>"
proof -
  from assms have ok: "graph_ok C g" and fresh: "\<not> has_key (g_nodes g) h" and hash: "tx_hash C tx = h"
    and room: "unat (g_max_depth g) + 1 < 2 ^ 64"
    and par: "is_genesis tx \<or> has_key (g_nodes g) (tx_parent_1 tx) \<and> has_key (g_nodes g) (tx_parent_2 tx)"
    by (simp_all add: attachable_def)
  have self: "slots tx h h = []" using par fresh by (intro slots_not_parent) auto
  have "parent_slots g h c = 0" for c
  proof (cases "map_of (g_nodes g) c")
    case (Some n)
    with ok have "node_ok C g c n" by (rule graph_okD(3))
    with fresh have "slots (dn_tx n) c h = []"
      by (intro slots_not_parent) (auto simp: node_ok_def split: if_splits)
    with Some show ?thesis by (simp add: parent_slots_def)
  qed (simp add: parent_slots_def)
  moreover have "\<not> is_genesis tx \<Longrightarrow> tx_parent_1 tx \<noteq> h \<and> tx_parent_2 tx \<noteq> h"
    using par fresh by auto
  ultimately show ?thesis
    using self hash par new_depth_unat [OF ok room, of tx]
    by (simp add: node_ok_def attach_has_key attach_node_depth attach_parent_slots attach_max_depth)
      (auto simp: new_depth_def)
qed

lemma attach_ok:
  assumes "attachable C g tx h"
  shows "graph_ok C (attach now g tx h)"
proof -
  let ?g = "attach now g tx h"
  from assms have ok: "graph_ok C g" and fresh: "\<not> has_key (g_nodes g) h" and nz: "h \<noteq> zero_hash"
    and par: "is_genesis tx \<or> has_key (g_nodes g) (tx_parent_1 tx) \<and> has_key (g_nodes g) (tx_parent_2 tx)"
    by (simp_all add: attachable_def)
  have keys: "keys (g_nodes ?g) = keys (g_nodes g) @ [h]" using fresh by (simp add: attach_keys)
  have "node_ok C ?g x n" if "map_of (g_nodes ?g) x = Some n" for x n
    using that attach_old_node [OF assms, of x _ now] attach_new_node [OF assms, of now]
    by (auto simp: attach_nodes split: if_splits)
  moreover have "has_tip (g_tips ?g) x \<longleftrightarrow> (\<exists>n. map_of (g_nodes ?g) x = Some n \<and> dn_children n = [])" for x
  proof (cases "x = h")
    case True
    then show ?thesis by (simp add: attach_tips attach_nodes)
  next
    case False
    have "x \<noteq> zero_hash" if "map_of (g_nodes g) x = Some n" for n
      using that graph_okD(2) [OF ok] by (auto simp: has_key_def)
    moreover have "is_genesis tx \<Longrightarrow> tx_parent_1 tx = zero_hash \<and> tx_parent_2 tx = zero_hash"
      by (simp add: is_genesis_def is_zero_iff)
    ultimately show ?thesis using False graph_okD(4) [OF ok, of x]
      by (cases "map_of (g_nodes g) x") (auto simp: attach_tips attach_nodes slots_def)
  qed
  moreover have "length (g_nodes ?g) = Suc (length (g_nodes g))"
    using keys by (metis length_append_singleton length_map)
  ultimately show ?thesis
    using ok keys fresh nz graph_okD(7) [OF ok]
    by (simp add: graph_ok_def attach_has_key attach_tips_ok add.commute)
      (simp add: has_key_iff)
qed

section \<open>Every insertion keeps the shape\<close>

lemma dag_insert_ok:
  assumes "graph_ok C g" "unat (g_max_depth g) + 1 < 2 ^ 64" "tx_hash C tx \<noteq> zero_hash"
  shows "graph_ok C (snd (dag_insert C now g tx))"
proof (cases "acceptable C g tx")
  case True
  let ?g = "(lock_sender g tx)\<lparr>g_state := pay (g_state g) tx,
    g_conflicts := commit_transaction C (g_conflicts g) tx\<rparr>"
  have "graph_ok C ?g"
    using graph_okD(5,6) [OF assms(1)] by (intro graph_ok_cong [OF _ _ _ _ _ _ assms(1)])
      (simp_all add: pay_ledger_ok)
  then have "attachable C ?g tx (tx_hash C tx)"
    using True assms(2,3) by (auto simp: attachable_def acceptable_def)
  then show ?thesis
    by (simp add: dag_insert_acceptable [OF True] accepted_def attach_ok)
next
  case False
  have "graph_ok C (lock_sender g tx)"
    using graph_okD(5,6) [OF assms(1)] by (intro graph_ok_cong [OF _ _ _ _ _ _ assms(1)]) simp_all
  with False assms(1) dag_insert_result [of C g tx now] show ?thesis by auto
qed

lemma dag_insert_max_depth:
  assumes "graph_ok C g" "unat (g_max_depth g) + 1 < 2 ^ 64"
  shows "unat (g_max_depth (snd (dag_insert C now g tx))) \<le> unat (g_max_depth g) + 1"
proof (cases "acceptable C g tx")
  case True
  let ?g = "(lock_sender g tx)\<lparr>g_state := pay (g_state g) tx,
    g_conflicts := commit_transaction C (g_conflicts g) tx\<rparr>"
  have nd: "new_depth ?g tx = new_depth g tx" by (simp add: new_depth_def node_depth_def)
  have "unat (node_depth g h) \<le> unat (g_max_depth g)" for h
    using node_depth_le [OF assms(1), of h] by (simp add: word_le_unat)
  then have "unat (new_depth g tx) \<le> unat (g_max_depth g) + 1"
    by (simp add: new_depth_unat [OF assms])
  then show ?thesis
    by (simp add: dag_insert_acceptable [OF True] accepted_def attach_max_depth nd unat_word_max)
next
  case False
  with dag_insert_result [of C g tx now] show ?thesis by auto
qed

lemma insert_genesis_as_attach:
  assumes "is_genesis tx" "\<not> has_key (g_nodes g) (tx_hash C tx)"
  shows "g_nodes (snd (insert_genesis C now g tx))
      = g_nodes (set_status (attach now g tx (tx_hash C tx)) (tx_hash C tx) Confirmed)"
proof -
  let ?h = "tx_hash C tx"
  have None: "map_of (g_nodes g) ?h = None" using assms(2) by (simp add: has_key_def)
  have app: "AList.map_entry k f (m @ [(k, v)]) = m @ [(k, f v)]" if "map_of m k = None"
    for k f v and m :: "(transaction_hash \<times> dag_node) list"
    using that by (induction m) (auto split: if_splits)
  show ?thesis
    using assms(1) None
    by (simp add: insert_genesis_def attach_def set_status_def Let_def update_new app)
qed

lemma insert_genesis_ok:
  assumes "graph_ok C g" "\<not> has_key (g_nodes g) (tx_hash C tx)" "tx_hash C tx \<noteq> zero_hash"
    "unat (g_max_depth g) + 1 < 2 ^ 64"
  shows "graph_ok C (snd (insert_genesis C now g tx))"
proof (cases "is_genesis tx")
  case True
  let ?h = "tx_hash C tx"
  let ?a = "set_status (attach now g tx ?h) ?h Confirmed"
  have "attachable C g tx ?h" using assms True by (simp add: attachable_def)
  then have "graph_ok C ?a" by (intro set_status_ok attach_ok)
  moreover have "has_tip (g_tips ?a) = has_tip (g_tips (snd (insert_genesis C now g tx)))"
  proof
    fix x
    have "\<not> has_tip (g_tips g) zero_hash"
      using graph_okD(2,4) [OF assms(1)] by (auto simp: has_key_def)
    moreover have "tx_parent_1 tx = zero_hash" "tx_parent_2 tx = zero_hash"
      using True by (simp_all add: is_genesis_def is_zero_iff)
    ultimately show "has_tip (g_tips ?a) x = has_tip (g_tips (snd (insert_genesis C now g tx))) x"
      using True tip_pool.mem_ins [of now "g_tips g" ?h x]
      by (auto simp: attach_tips insert_genesis_def Let_def)
  qed
  moreover have "g_nodes ?a = g_nodes (snd (insert_genesis C now g tx))"
    by (rule insert_genesis_as_attach [OF True assms(2), symmetric])
  moreover have "g_max_depth ?a = g_max_depth (snd (insert_genesis C now g tx))"
    using True by (simp add: attach_max_depth new_depth_def insert_genesis_def Let_def)
  moreover have "g_total_count ?a = g_total_count (snd (insert_genesis C now g tx))"
    using True by (simp add: insert_genesis_def Let_def)
  moreover have "tips_ok (g_tips (snd (insert_genesis C now g tx)))"
    "ledger_ok (g_state (snd (insert_genesis C now g tx)))"
    using True graph_okD(5,6) [OF assms(1)] by (simp_all add: insert_genesis_def Let_def)
  ultimately show ?thesis by (metis graph_ok_cong)
next
  case False
  with assms(1) show ?thesis by (simp add: insert_genesis_def)
qed

text \<open>The graphs that grow from an empty one by insertions (accepted or refused), insertions of
  genesis transactions not yet present, and status changes; \<open>n\<close> counts the steps.  The zero hash
  is the code's "no parent": no transaction hashes to it here.\<close>

inductive grown :: "crypto \<Rightarrow> nat \<Rightarrow> dag_graph \<Rightarrow> bool" for C where
  grown_new: "ledger_ok st \<Longrightarrow> grown C 0 (graph_new st tips_new conflicts_new)"
| grown_insert: "grown C n g \<Longrightarrow> tx_hash C tx \<noteq> zero_hash \<Longrightarrow>
    grown C (Suc n) (snd (dag_insert C now g tx))"
| grown_genesis: "grown C n g \<Longrightarrow> tx_hash C tx \<noteq> zero_hash \<Longrightarrow>
    \<not> has_key (g_nodes g) (tx_hash C tx) \<Longrightarrow> grown C (Suc n) (snd (insert_genesis C now g tx))"
| grown_status: "grown C n g \<Longrightarrow> grown C (Suc n) (set_status g h st)"

lemma grown_ok: "grown C n g \<Longrightarrow> n < 2 ^ 64 \<Longrightarrow> graph_ok C g \<and> unat (g_max_depth g) \<le> n"
proof (induction rule: grown.induct)
  case (grown_new st)
  then show ?case using graph_ok_new [of st C] by (simp add: graph_new_def)
next
  case (grown_insert n g tx now)
  then have IH: "graph_ok C g" "unat (g_max_depth g) \<le> n" and lt: "unat (g_max_depth g) + 1 < 2 ^ 64"
    by simp_all
  from dag_insert_ok [OF IH(1) lt grown_insert(2), of now] dag_insert_max_depth [OF IH(1) lt, of now tx] IH(2)
  show ?case by simp
next
  case (grown_genesis n g tx now)
  then have IH: "graph_ok C g" "unat (g_max_depth g) \<le> n" and lt: "unat (g_max_depth g) + 1 < 2 ^ 64"
    by simp_all
  have "g_max_depth (snd (insert_genesis C now g tx)) = g_max_depth g"
    by (simp add: insert_genesis_def Let_def)
  with insert_genesis_ok [OF IH(1) grown_genesis(3,2) lt, of now] IH(2) show ?case by simp
next
  case (grown_status n g h st)
  then show ?case by (simp add: set_status_ok)
qed

text \<open>The edges from a node to its parents.\<close>

definition parent_rel :: "dag_graph \<Rightarrow> (transaction_hash \<times> transaction_hash) set" where
  "parent_rel g = {(p, h). \<exists>n. map_of (g_nodes g) h = Some n \<and> \<not> is_genesis (dn_tx n) \<and>
     (p = tx_parent_1 (dn_tx n) \<or> p = tx_parent_2 (dn_tx n))}"

lemma parent_deeper:
  assumes "graph_ok C g" "(p, h) \<in> parent_rel g"
  shows "unat (node_depth g p) < unat (node_depth g h)"
proof -
  from assms(2) obtain n where n: "map_of (g_nodes g) h = Some n" "\<not> is_genesis (dn_tx n)"
    "p = tx_parent_1 (dn_tx n) \<or> p = tx_parent_2 (dn_tx n)" by (auto simp: parent_rel_def)
  with graph_okD(3) [OF assms(1) n(1)] show ?thesis
    by (auto simp: node_ok_def node_depth_Some)
qed

lemma parent_rel_acyclic:
  assumes "graph_ok C g"
  shows "acyclic (parent_rel g)"
proof (rule acyclicI_order [where f = "\<lambda>h. - int (unat (node_depth g h))"])
  fix a b assume "(a, b) \<in> parent_rel g"
  from parent_deeper [OF assms this]
  show "- int (unat (node_depth g b)) < - int (unat (node_depth g a))"
    by (simp only: neg_less_iff_less of_nat_less_iff)
qed

section \<open>Every later state\<close>

text \<open>
  One step of a graph in use. The ledger and the tips are shared with other parts of the node and may
  be set to anything; of the conflict detector, shared as well, every operation is a step except that
  nobody reverts the nonce \<open>k\<close>.
\<close>

inductive graph_step :: "crypto \<Rightarrow> string \<times> u64 \<Rightarrow> dag_graph \<Rightarrow> dag_graph \<Rightarrow> bool" for C k where
  step_insert: "graph_step C k g (snd (dag_insert C now g tx))"
| step_genesis: "graph_step C k g (snd (insert_genesis C now g tx))"
| step_status: "graph_step C k g (set_status g h st)"
| step_prune: "graph_step C k g (snd (prune_confirmed g d))"
| step_ledger: "graph_step C k g (g\<lparr>g_state := st\<rparr>)"
| step_tips: "graph_step C k g (g\<lparr>g_tips := ts\<rparr>)"
| step_commit: "graph_step C k g (g\<lparr>g_conflicts := commit_transaction C (g_conflicts g) tx\<rparr>)"
| step_register: "graph_step C k g (g\<lparr>g_conflicts := register_conflict (g_conflicts g) h h'\<rparr>)"
| step_resolve: "graph_step C k g (g\<lparr>g_conflicts := snd (resolve_conflict (g_conflicts g) h)\<rparr>)"
| step_revert: "nonce_key tx \<noteq> k \<Longrightarrow> graph_step C k g (g\<lparr>g_conflicts := revert_transaction (g_conflicts g) tx\<rparr>)"

definition nonce_spent :: "dag_graph \<Rightarrow> string \<times> u64 \<Rightarrow> bool" where
  "nonce_spent g k = has_key (committed_nonces (g_conflicts g)) k"

lemma detector_frame [simp]:
  "committed_nonces (register_conflict cd h h') = committed_nonces cd"
  "committed_nonces (snd (resolve_conflict cd h)) = committed_nonces cd"
  by (simp_all add: register_conflict_def resolve_conflict_def Let_def split: option.split)

lemma committed_step: "graph_step C k g g' \<Longrightarrow> nonce_spent g k \<Longrightarrow> nonce_spent g' k"
proof (induction rule: graph_step.induct)
  case (step_insert g now tx)
  with dag_insert_result [of C g tx now] show ?case
    by (auto simp: nonce_spent_def split: if_splits)
qed (auto simp: nonce_spent_def insert_genesis_def prune_confirmed_def Let_def)

lemma committed_steps: "(graph_step C k)\<^sup>*\<^sup>* g g' \<Longrightarrow> nonce_spent g k \<Longrightarrow> nonce_spent g' k"
  by (induction rule: rtranclp_induct) (auto intro: committed_step)

section \<open>Properties\<close>

text \<open>C14: A graph grown from an empty one by fewer than \<open>2 ^ 64\<close> calls of \<open>insert\<close>, of \<open>insert_genesis\<close> with
  a hash that is new, and of status changes, none with a transaction that hashes to zero, has its shape:
  each node is filed under its hash, its parents are present and less deep (depth is one more than the
  deeper parent), its children are exactly the nodes that name it, its weight is one more than their
  number, the tips are exactly the childless nodes, and the counter is the number of nodes; so the graph
  has no cycle. Pruning, and a genesis transaction inserted again (which resets its children), are left
  out: they break the shape.\<close>

theorem grown_graph_shape:
  assumes "grown C n g" "n < 2 ^ 64"
  shows "graph_ok C g \<and> acyclic (parent_rel g) \<and> unat (g_max_depth g) \<le> n"
  using grown_ok [OF assms] parent_rel_acyclic [of C g] by simp

lemma demo_genesis_hash:
  "tx_hash demo_crypto demo_genesis_tx \<noteq> zero_hash" "tx_hash demo_crypto demo_transfer \<noteq> zero_hash"
  by code_simp+

lemma demo_grown: "grown demo_crypto 1 demo_graph"
  using grown.grown_genesis [OF grown.grown_new [OF ledger_ok_new, of demo_crypto] demo_genesis_hash(1), of 0]
  by (simp add: demo_graph_def graph_new_def)

theorem grown_graph_shape_witness:
  "graph_ok demo_crypto (snd (dag_insert demo_crypto 0 demo_graph demo_transfer)) \<and>
   acyclic (parent_rel (snd (dag_insert demo_crypto 0 demo_graph demo_transfer)))"
  using grown_graph_shape [OF grown.grown_insert [OF demo_grown demo_genesis_hash(2), of 0]] by simp

text \<open>C15: No replay: once a transaction is accepted, no transaction of the same sender with the same nonce (in
  particular not itself) is accepted after any sequence of insertions, genesis insertions, status changes
  and prunings, of replacements of the ledger and the tips by anything, and of operations of the conflict
  detector (commits, conflicts registered and resolved, commits of other nonces reverted). The one
  operation that is excluded is \<open>revert_transaction\<close> on this very nonce, which would allow the nonce
  again; no code of the repository calls it.\<close>

theorem no_replay:
  assumes "dag_insert C now g tx = (Inr h, g1)" "(graph_step C (nonce_key tx))\<^sup>*\<^sup>* g1 g2"
    and "nonce_key tx' = nonce_key tx"
  shows "\<exists>e. fst (dag_insert C now' g2 tx') = Inl e"
proof -
  from assms(1) have "nonce_spent g1 (nonce_key tx)" by (simp add: dag_insert_Inr nonce_spent_def)
  with assms(2) have "nonce_spent g2 (nonce_key tx)" by (rule committed_steps)
  with assms(3) have "\<not> acceptable C g2 tx'" by (simp add: acceptable_def nonce_spent_def)
  with dag_insert_result [of C g2 tx' now'] show ?thesis by auto
qed

theorem no_replay_witness:
  "\<exists>e. fst (dag_insert demo_crypto 9
     (snd (prune_confirmed (accepted demo_crypto 0 (lock_sender demo_graph demo_transfer) demo_transfer) 0))
     demo_transfer) = Inl e"
proof -
  let ?g = "accepted demo_crypto 0 (lock_sender demo_graph demo_transfer) demo_transfer"
  have "(graph_step demo_crypto (nonce_key demo_transfer))\<^sup>*\<^sup>* ?g (snd (prune_confirmed ?g 0))"
    by (intro r_into_rtranclp graph_step.step_prune)
  from no_replay [OF demo_insert this refl] show ?thesis .
qed

end
