(* ===== verification/Voting.thy ===== *)
theory Voting
  imports GraphShape "HOL-Library.Sublist"
begin

text \<open>
  \<open>relyo-consensus/src/vote.rs\<close> and \<open>engine.rs\<close>: vote tallies with a vote quorum, a weight quorum
  and an acceptance threshold, and the engine that checks incoming votes, tallies them and sets
  the status of the graph's nodes.

  A tally's voter set is a distinct list.  The engine's event channel is the list of the events
  sent; the graph it shares is a field.  \<open>now\<close> is the clock in milliseconds.
\<close>

datatype node_id = NodeId (node_str: string)

record vote =
  vt_voter :: node_id
  vt_tx_hash :: transaction_hash
  vt_accept :: bool
  vt_timestamp :: u64

datatype vote_outcome = OutcomePending | OutcomeAccepted | OutcomeRejected

record vote_tally =
  tl_accept :: u64
  tl_reject :: u64
  tl_accept_weight :: u128
  tl_reject_weight :: u128
  tl_voters :: "node_id list"

record vote_aggregator =
  va_tallies :: "(transaction_hash \<times> vote_tally) list"
  va_quorum :: u64
  va_quorum_weight :: u128
  va_threshold_bps :: u64

definition empty_tally :: vote_tally where
  "empty_tally = \<lparr>tl_accept = 0, tl_reject = 0, tl_accept_weight = 0, tl_reject_weight = 0,
     tl_voters = []\<rparr>"

definition with_weighted_quorum :: "u64 \<Rightarrow> u128 \<Rightarrow> u64 \<Rightarrow> vote_aggregator" where
  "with_weighted_quorum quorum quorum_weight threshold_bps =
     \<lparr>va_tallies = [], va_quorum = quorum, va_quorum_weight = quorum_weight,
      va_threshold_bps = threshold_bps\<rparr>"

definition aggregator_new :: "u64 \<Rightarrow> u64 \<Rightarrow> vote_aggregator" where
  "aggregator_new quorum threshold_bps = with_weighted_quorum quorum (ucast quorum) threshold_bps"

definition evaluate :: "vote_aggregator \<Rightarrow> vote_tally \<Rightarrow> vote_outcome" where
  "evaluate va t =
     (let total_votes = tl_accept t + tl_reject t in
      if total_votes < va_quorum va then OutcomePending
      else
        let total_weight = sat_add (tl_accept_weight t) (tl_reject_weight t) in
        if total_weight < va_quorum_weight va then OutcomePending
        else
          let accept_bps = (if total_weight = 0 then 0
                            else ucast (tl_accept_weight t * 10000 div total_weight) :: u64)
          in if accept_bps \<ge> va_threshold_bps va then OutcomeAccepted else OutcomeRejected)"

definition count_vote :: "vote \<Rightarrow> u64 \<Rightarrow> vote_tally \<Rightarrow> vote_tally" where
  "count_vote v pw t =
     (if vt_voter v \<in> set (tl_voters t) then t
      else
        let t' = t\<lparr>tl_voters := vt_voter v # tl_voters t\<rparr>; voting_power = (ucast (max pw 1) :: u128)
        in if vt_accept v
           then t'\<lparr>tl_accept := tl_accept t + 1,
                   tl_accept_weight := sat_add (tl_accept_weight t) voting_power\<rparr>
           else t'\<lparr>tl_reject := tl_reject t + 1,
                   tl_reject_weight := sat_add (tl_reject_weight t) voting_power\<rparr>)"

definition record_vote_weighted ::
    "vote_aggregator \<Rightarrow> vote \<Rightarrow> u64 \<Rightarrow> vote_outcome \<times> vote_aggregator" where
  "record_vote_weighted va v pw =
     (let tally = count_vote v pw (get_or empty_tally (va_tallies va) (vt_tx_hash v))
      in (evaluate va tally,
          va\<lparr>va_tallies := AList.update (vt_tx_hash v) tally (va_tallies va)\<rparr>))"

definition record_vote :: "vote_aggregator \<Rightarrow> vote \<Rightarrow> vote_outcome \<times> vote_aggregator" where
  "record_vote va v = record_vote_weighted va v 1"

definition outcome :: "vote_aggregator \<Rightarrow> transaction_hash \<Rightarrow> vote_outcome" where
  "outcome va h =
     (case map_of (va_tallies va) h of None \<Rightarrow> OutcomePending | Some t \<Rightarrow> evaluate va t)"

definition vote_counts :: "vote_aggregator \<Rightarrow> transaction_hash \<Rightarrow> u64 \<times> u64" where
  "vote_counts va h =
     (case map_of (va_tallies va) h of None \<Rightarrow> (0, 0) | Some t \<Rightarrow> (tl_accept t, tl_reject t))"

definition finalize :: "vote_aggregator \<Rightarrow> transaction_hash \<Rightarrow> vote_aggregator" where
  "finalize va h = va\<lparr>va_tallies := AList.delete h (va_tallies va)\<rparr>"

definition pending_count :: "vote_aggregator \<Rightarrow> nat" where
  "pending_count va = length (va_tallies va)"

section \<open>The engine\<close>

datatype consensus_event = Finalized transaction_hash bool

record consensus_config =
  cc_sample_size :: nat
  cc_quorum :: u64
  cc_threshold_bps :: u64
  cc_max_rounds :: u32
  cc_round_interval_ms :: u64
  cc_vote_max_age_ms :: u64
  cc_min_validator_voting_power :: u64
  cc_min_total_voting_power :: u64

definition default_consensus_config :: consensus_config where
  "default_consensus_config =
     \<lparr>cc_sample_size = 20, cc_quorum = 14, cc_threshold_bps = 6667, cc_max_rounds = 10,
      cc_round_interval_ms = 100, cc_vote_max_age_ms = 15000, cc_min_validator_voting_power = 1,
      cc_min_total_voting_power = 14\<rparr>"

record consensus_engine =
  ce_dag :: dag_graph
  ce_aggregator :: vote_aggregator
  ce_config :: consensus_config
  ce_validators :: "(node_id \<times> u64) list"
  ce_total_voting_power :: u64
  ce_events :: "consensus_event list"
  ce_receiver_taken :: bool
  ce_local_node :: node_id

definition engine_new :: "dag_graph \<Rightarrow> consensus_config \<Rightarrow> node_id \<Rightarrow> consensus_engine" where
  "engine_new dag cfg local_node =
     \<lparr>ce_dag = dag,
      ce_aggregator = with_weighted_quorum (cc_quorum cfg) (ucast (cc_min_total_voting_power cfg))
        (cc_threshold_bps cfg),
      ce_config = cfg, ce_validators = [(local_node, 1)], ce_total_voting_power = 1,
      ce_events = [], ce_receiver_taken = False, ce_local_node = local_node\<rparr>"

text \<open>\<open>take_event_receiver\<close>: \<open>Some\<close> the first time.\<close>

definition take_event_receiver :: "consensus_engine \<Rightarrow> unit option \<times> consensus_engine" where
  "take_event_receiver e =
     (if ce_receiver_taken e then None else Some (), e\<lparr>ce_receiver_taken := True\<rparr>)"

definition pending_votes :: "consensus_engine \<Rightarrow> nat" where
  "pending_votes e = pending_count (ce_aggregator e)"

definition local_vote :: "u64 \<Rightarrow> consensus_engine \<Rightarrow> transaction_hash \<Rightarrow> vote" where
  "local_vote now e h =
     \<lparr>vt_voter = ce_local_node e, vt_tx_hash = h, vt_accept = contains (ce_dag e) h,
      vt_timestamp = now\<rparr>"

definition apply_outcome ::
    "transaction_hash \<Rightarrow> vote_outcome \<Rightarrow> consensus_engine \<Rightarrow> consensus_engine" where
  "apply_outcome h oc e =
     (case oc of
        OutcomeAccepted \<Rightarrow>
          e\<lparr>ce_dag := set_status (ce_dag e) h Confirmed,
            ce_aggregator := finalize (ce_aggregator e) h,
            ce_events := ce_events e @ [Finalized h True]\<rparr>
      | OutcomeRejected \<Rightarrow>
          e\<lparr>ce_dag := set_status (ce_dag e) h Rejected,
            ce_aggregator := finalize (ce_aggregator e) h,
            ce_events := ce_events e @ [Finalized h False]\<rparr>
      | OutcomePending \<Rightarrow> e\<lparr>ce_dag := set_status (ce_dag e) h Voting\<rparr>)"

definition receive_vote :: "u64 \<Rightarrow> consensus_engine \<Rightarrow> vote \<Rightarrow> consensus_engine" where
  "receive_vote now e v =
     (let age_ms = sat_sub now (vt_timestamp v) in
      if age_ms > cc_vote_max_age_ms (ce_config e) then e
      else case map_of (ce_validators e) (vt_voter v) of
        None \<Rightarrow> e
      | Some voting_power \<Rightarrow>
          if voting_power < cc_min_validator_voting_power (ce_config e) then e
          else
            let (oc, va) = record_vote_weighted (ce_aggregator e) v voting_power
            in apply_outcome (vt_tx_hash v) oc (e\<lparr>ce_aggregator := va\<rparr>))"

definition process_remote_vote ::
    "u64 \<Rightarrow> consensus_engine \<Rightarrow> transaction_hash \<Rightarrow> node_id \<Rightarrow> bool \<Rightarrow> consensus_engine" where
  "process_remote_vote now e h voter accept =
     receive_vote now e \<lparr>vt_voter = voter, vt_tx_hash = h, vt_accept = accept, vt_timestamp = now\<rparr>"

definition register_validator :: "consensus_engine \<Rightarrow> node_id \<Rightarrow> u64 \<Rightarrow> consensus_engine" where
  "register_validator e n pw =
     (let voting_power = max pw 1; previous = get_or 0 (ce_validators e) n
      in e\<lparr>ce_validators := AList.update n voting_power (ce_validators e),
           ce_total_voting_power := ce_total_voting_power e - previous + voting_power\<rparr>)"

definition set_validator_set :: "consensus_engine \<Rightarrow> (node_id \<times> u64) list \<Rightarrow> consensus_engine" where
  "set_validator_set e vs =
     (let (validators, total_power) =
        foldl (\<lambda>(m, t) (n, pw). (AList.update n (max pw 1) m, sat_add t (max pw 1))) ([], 0) vs
      in if has_key validators (ce_local_node e)
         then e\<lparr>ce_validators := validators, ce_total_voting_power := total_power\<rparr>
         else e\<lparr>ce_validators := AList.update (ce_local_node e) 1 validators,
                ce_total_voting_power := sat_add total_power 1\<rparr>)"

section \<open>Tallies against their specification\<close>

text \<open>The specification of a tally: only each voter's first vote counts.\<close>

fun first_votes :: "node_id set \<Rightarrow> (vote \<times> u64) list \<Rightarrow> (vote \<times> u64) list" where
  "first_votes seen [] = []"
| "first_votes seen ((v, p) # vs) =
     (if vt_voter v \<in> seen then first_votes seen vs
      else (v, p) # first_votes (Set.insert (vt_voter v) seen) vs)"

definition cast_all :: "(vote \<times> u64) list \<Rightarrow> vote_tally" where
  "cast_all vs = foldl (\<lambda>t (v, p). count_vote v p t) empty_tally vs"

definition accepting :: "(vote \<times> u64) list \<Rightarrow> (vote \<times> u64) list" where
  "accepting = filter (\<lambda>(v, p). vt_accept v)"

definition rejecting :: "(vote \<times> u64) list \<Rightarrow> (vote \<times> u64) list" where
  "rejecting = filter (\<lambda>(v, p). \<not> vt_accept v)"

definition powers :: "(vote \<times> u64) list \<Rightarrow> nat" where
  "powers vs = sum_list (map (\<lambda>(v, p). max (unat p) 1) vs)"

lemma vote_lists_simps [simp]:
  "accepting [] = []" "rejecting [] = []" "powers [] = 0"
  "accepting ((v, p) # vs) = (if vt_accept v then (v, p) # accepting vs else accepting vs)"
  "rejecting ((v, p) # vs) = (if vt_accept v then rejecting vs else (v, p) # rejecting vs)"
  "powers ((v, p) # vs) = max (unat p) 1 + powers vs"
  by (simp_all add: accepting_def rejecting_def powers_def)

lemma unat_vote_weight: "unat (ucast (max p 1 :: u64) :: u128) = max (unat p) 1"
proof -
  have "unat (max p 1) < 2 ^ 128" using unat_u64_bound [of "max p 1"] by simp
  then show ?thesis by (simp add: unat_ucast_mod unat_word_max)
qed

lemma count_vote_voters [simp]:
  "set (tl_voters (count_vote v p t)) = Set.insert (vt_voter v) (set (tl_voters t))"
  by (auto simp: count_vote_def Let_def)

lemma fold_first_votes:
  "foldl (\<lambda>t (v, p). count_vote v p t) t vs =
     foldl (\<lambda>t (v, p). count_vote v p t) t (first_votes (set (tl_voters t)) vs)"
proof (induction vs arbitrary: t)
  case (Cons vp vs)
  obtain v p where vp: "vp = (v, p)" by (cases vp)
  have "vt_voter v \<in> set (tl_voters t) \<Longrightarrow> count_vote v p t = t" by (simp add: count_vote_def)
  with Cons.IH [of t] Cons.IH [of "count_vote v p t"] show ?case by (auto simp: vp insert_absorb)
qed simp

lemma first_votes_distinct:
  "distinct (map (\<lambda>(v, p). vt_voter v) (first_votes seen vs)) \<and>
   (\<forall>vp\<in>set (first_votes seen vs). vt_voter (fst vp) \<notin> seen)"
  by (induction seen vs rule: first_votes.induct) (auto, force)

lemma first_votes_id:
  "distinct (map (\<lambda>(v, p). vt_voter v) vs) \<Longrightarrow> \<forall>vp\<in>set vs. vt_voter (fst vp) \<notin> seen \<Longrightarrow>
     first_votes seen vs = vs"
  by (induction seen vs rule: first_votes.induct) force+

lemma fold_counts:
  fixes vs :: "(vote \<times> u64) list" and t :: vote_tally
  assumes "distinct (map (\<lambda>(v, p). vt_voter v) vs)" "\<forall>vp\<in>set vs. vt_voter (fst vp) \<notin> set (tl_voters t)"
  defines "t' \<equiv> foldl (\<lambda>t (v, p). count_vote v p t) t vs"
  shows "tl_accept t' = tl_accept t + of_nat (length (accepting vs)) \<and>
    tl_reject t' = tl_reject t + of_nat (length (rejecting vs)) \<and>
    unat (tl_accept_weight t') = min (unat (tl_accept_weight t) + powers (accepting vs)) (2 ^ 128 - 1) \<and>
    unat (tl_reject_weight t') = min (unat (tl_reject_weight t) + powers (rejecting vs)) (2 ^ 128 - 1)"
  using assms(1,2) unfolding t'_def
proof (induction vs arbitrary: t)
  case Nil
  have "unat (w :: u128) \<le> 2 ^ 128 - 1" for w using unsigned_less [of w, where ?'a = nat] by simp
  then show ?case by (simp add: min_absorb1)
next
  case (Cons vp vs)
  obtain v p where vp: "vp = (v, p)" by (cases vp)
  let ?t = "count_vote v p t"
  have "\<forall>vp\<in>set vs. vt_voter (fst vp) \<notin> set (tl_voters ?t)"
    using Cons.prems by (force simp: vp)
  with Cons.IH [of ?t] Cons.prems(1) have IH:
    "tl_accept (foldl (\<lambda>t (v, p). count_vote v p t) ?t vs) = tl_accept ?t + of_nat (length (accepting vs))"
    "tl_reject (foldl (\<lambda>t (v, p). count_vote v p t) ?t vs) = tl_reject ?t + of_nat (length (rejecting vs))"
    "unat (tl_accept_weight (foldl (\<lambda>t (v, p). count_vote v p t) ?t vs))
      = min (unat (tl_accept_weight ?t) + powers (accepting vs)) (2 ^ 128 - 1)"
    "unat (tl_reject_weight (foldl (\<lambda>t (v, p). count_vote v p t) ?t vs))
      = min (unat (tl_reject_weight ?t) + powers (rejecting vs)) (2 ^ 128 - 1)"
    by (simp_all add: vp)
  have new: "vt_voter v \<notin> set (tl_voters t)" using Cons.prems(2) by (simp add: vp)
  show ?case
  proof (cases "vt_accept v")
    case True
    then have "?t = t\<lparr>tl_voters := vt_voter v # tl_voters t, tl_accept := tl_accept t + 1,
        tl_accept_weight := sat_add (tl_accept_weight t) (ucast (max p 1))\<rparr>"
      using new by (simp add: count_vote_def Let_def)
    with IH True show ?thesis
      by (simp add: vp unat_sat_add unat_vote_weight min_add_min add.assoc)
  next
    case False
    then have "?t = t\<lparr>tl_voters := vt_voter v # tl_voters t, tl_reject := tl_reject t + 1,
        tl_reject_weight := sat_add (tl_reject_weight t) (ucast (max p 1))\<rparr>"
      using new by (simp add: count_vote_def Let_def)
    with IH False show ?thesis
      by (simp add: vp unat_sat_add unat_vote_weight min_add_min add.assoc)
  qed
qed

lemma cast_all_counts:
  fixes vs :: "(vote \<times> u64) list"
  defines "F \<equiv> first_votes {} vs"
  shows "tl_accept (cast_all vs) = of_nat (length (accepting F))"
    "tl_reject (cast_all vs) = of_nat (length (rejecting F))"
    "unat (tl_accept_weight (cast_all vs)) = min (powers (accepting F)) (2 ^ 128 - 1)"
    "unat (tl_reject_weight (cast_all vs)) = min (powers (rejecting F)) (2 ^ 128 - 1)"
proof -
  have "cast_all vs = foldl (\<lambda>t (v, p). count_vote v p t) empty_tally F"
    using fold_first_votes [of empty_tally vs]
    by (simp add: cast_all_def F_def) (simp add: empty_tally_def)
  moreover have "set (tl_voters empty_tally) = {}" "tl_accept empty_tally = 0" "tl_reject empty_tally = 0"
    "tl_accept_weight empty_tally = 0" "tl_reject_weight empty_tally = 0"
    by (simp_all add: empty_tally_def)
  ultimately show "tl_accept (cast_all vs) = of_nat (length (accepting F))"
    "tl_reject (cast_all vs) = of_nat (length (rejecting F))"
    "unat (tl_accept_weight (cast_all vs)) = min (powers (accepting F)) (2 ^ 128 - 1)"
    "unat (tl_reject_weight (cast_all vs)) = min (powers (rejecting F)) (2 ^ 128 - 1)"
    using fold_counts [of F empty_tally] first_votes_distinct [of "{}" vs] by (simp_all add: F_def)
qed

lemma accepting_rejecting: "length (accepting vs) + length (rejecting vs) = length vs"
  "powers (accepting vs) + powers (rejecting vs) = powers vs"
  by (induction vs) (auto simp: accepting_def rejecting_def powers_def)

text \<open>\<open>evaluate\<close> in exact arithmetic, while nothing overflows.\<close>

lemma evaluate_exact:
  assumes "unat (tl_accept t) + unat (tl_reject t) < 2 ^ 64"
    and "(unat (tl_accept_weight t) + unat (tl_reject_weight t)) * 10000 < 2 ^ 128"
  shows "evaluate va t =
    (let n = unat (tl_accept t) + unat (tl_reject t);
         w = unat (tl_accept_weight t) + unat (tl_reject_weight t)
     in if n < unat (va_quorum va) \<or> w < unat (va_quorum_weight va) then OutcomePending
        else if (if w = 0 then va_threshold_bps va = 0
                 else unat (va_threshold_bps va) * w \<le> unat (tl_accept_weight t) * 10000)
        then OutcomeAccepted else OutcomeRejected)"
proof -
  let ?a = "tl_accept_weight t" and ?w = "sat_add (tl_accept_weight t) (tl_reject_weight t)"
  have n: "unat (tl_accept t + tl_reject t) = unat (tl_accept t) + unat (tl_reject t)"
    using assms(1) by (intro unat_add_no_wrap) simp
  have w: "unat ?w = unat ?a + unat (tl_reject_weight t)"
    using assms(2) by (simp add: unat_sat_add)
  have mul: "unat (?a * 10000) = unat ?a * 10000"
    using assms(2) by (subst unat_mult_no_wrap) simp_all
  have div_eq: "unat (?a * 10000 div ?w) = unat ?a * 10000 div unat ?w"
    by (simp add: unat_div mul)
  have small: "unat ?a * 10000 div unat ?w < 2 ^ 64"
  proof (cases "unat ?w = 0")
    case False
    have "unat ?a * 10000 div unat ?w \<le> unat ?w * 10000 div unat ?w"
      using w by (intro div_le_mono) simp
    with False show ?thesis by simp
  qed simp
  have bps: "unat (ucast (?a * 10000 div ?w) :: u64) = unat ?a * 10000 div unat ?w"
    using small by (simp add: unat_ucast_mod div_eq)
  have zero: "?w = 0 \<longleftrightarrow> unat ?w = 0" by (simp add: unat_eq_0)
  show ?thesis
  proof (cases "unat ?w = 0")
    case True
    then have "?w = 0" "unat ?a = 0" "unat (tl_reject_weight t) = 0" by (simp_all add: zero w)
    then show ?thesis
      unfolding evaluate_def Let_def by (simp add: word_less_unat word_le_unat n unat_eq_0)
  next
    case False
    then have "?w \<noteq> 0" by (simp add: zero)
    with False less_eq_div_iff_mult_less_eq [of "unat ?w" "unat (va_threshold_bps va)" "unat ?a * 10000"]
    show ?thesis
      unfolding evaluate_def Let_def by (auto simp: word_less_unat word_le_unat n w bps)
  qed
qed

text \<open>\<open>evaluate\<close> on a list of votes of distinct voters, in exact arithmetic.\<close>

definition verdict :: "vote_aggregator \<Rightarrow> (vote \<times> u64) list \<Rightarrow> vote_outcome" where
  "verdict va F =
     (if length F < unat (va_quorum va) \<or> powers F < unat (va_quorum_weight va) then OutcomePending
      else if (if F = [] then va_threshold_bps va = 0
               else unat (va_threshold_bps va) * powers F \<le> powers (accepting F) * 10000)
      then OutcomeAccepted else OutcomeRejected)"

lemma powers_ge_length: "length vs \<le> powers vs"
  by (induction vs) (auto simp: powers_def)

lemma powers_accepting_le: "powers (accepting vs) \<le> powers vs" "powers (rejecting vs) \<le> powers vs"
  using accepting_rejecting(2) [of vs] by simp_all

lemma powers_zero [simp]: "powers vs = 0 \<longleftrightarrow> vs = []"
  using powers_ge_length [of vs] by auto

lemma evaluate_cast_all:
  assumes len: "length (first_votes {} vs) < 2 ^ 64" and pw: "powers (first_votes {} vs) * 10000 < 2 ^ 128"
  shows "evaluate va (cast_all vs) = verdict va (first_votes {} vs)"
proof -
  let ?F = "first_votes {} vs" and ?t = "cast_all vs"
  have counts: "unat (tl_accept ?t) = length (accepting ?F)" "unat (tl_reject ?t) = length (rejecting ?F)"
    using accepting_rejecting(1) [of ?F] len
    by (simp_all add: cast_all_counts unsigned_of_nat take_bit_nat_eq_self)
  have weights: "unat (tl_accept_weight ?t) = powers (accepting ?F)"
    "unat (tl_reject_weight ?t) = powers (rejecting ?F)"
    using powers_accepting_le [of ?F] pw by (simp_all add: cast_all_counts)
  have sums: "unat (tl_accept ?t) + unat (tl_reject ?t) = length ?F"
    "unat (tl_accept_weight ?t) + unat (tl_reject_weight ?t) = powers ?F"
    by (simp_all add: counts weights accepting_rejecting)
  show ?thesis
    using evaluate_exact [of ?t va, unfolded sums, OF len pw]
    by (simp only: weights(1) verdict_def Let_def powers_zero)
qed

section \<open>The ballot box\<close>

text \<open>
  What the engine relies on when it tallies: a recorded vote reaches the tally of its own
  transaction and no other, and closing a ballot forgets that tally alone.
\<close>

locale ballot_box =
  fixes tally_of :: "'s \<Rightarrow> 'h \<Rightarrow> 't" and put :: "'s \<Rightarrow> 'v \<Rightarrow> 's" and close :: "'s \<Rightarrow> 'h \<Rightarrow> 's"
    and key :: "'v \<Rightarrow> 'h" and blank :: 't and tick :: "'t \<Rightarrow> 'v \<Rightarrow> 't"
  assumes tally_put: "tally_of (put s v) h = (if h = key v then tick (tally_of s h) v else tally_of s h)"
    and tally_close: "tally_of (close s k) h = (if h = k then blank else tally_of s h)"
begin

lemma tally_put_all:
  "tally_of (foldl put s vs) h = foldl tick (tally_of s h) (filter (\<lambda>v. key v = h) vs)"
  by (induction vs arbitrary: s) (auto simp: tally_put)

lemma tally_reopened:
  "tally_of (foldl put (close s h) vs) h = foldl tick blank (filter (\<lambda>v. key v = h) vs)"
  by (simp add: tally_put_all tally_close)

end

definition tally_at :: "vote_aggregator \<Rightarrow> transaction_hash \<Rightarrow> vote_tally" where
  "tally_at va h = get_or empty_tally (va_tallies va) h"

definition put_vote :: "vote_aggregator \<Rightarrow> vote \<times> u64 \<Rightarrow> vote_aggregator" where
  "put_vote va vp = snd (record_vote_weighted va (fst vp) (snd vp))"

interpretation box: ballot_box tally_at put_vote finalize "\<lambda>vp. vt_tx_hash (fst vp)" empty_tally
    "\<lambda>t (v, p). count_vote v p t"
  by unfold_locales
    (auto simp: tally_at_def put_vote_def record_vote_weighted_def finalize_def Let_def amaps split_beta)

lemma put_vote_params [simp]:
  "va_quorum (put_vote va vp) = va_quorum va" "va_quorum_weight (put_vote va vp) = va_quorum_weight va"
  "va_threshold_bps (put_vote va vp) = va_threshold_bps va"
  by (simp_all add: put_vote_def record_vote_weighted_def Let_def)

lemma evaluate_params:
  "va_quorum va = va_quorum vb \<Longrightarrow> va_quorum_weight va = va_quorum_weight vb \<Longrightarrow>
     va_threshold_bps va = va_threshold_bps vb \<Longrightarrow> evaluate va = evaluate vb"
  by (simp add: evaluate_def fun_eq_iff Let_def)

lemma tally_at_fresh [simp]: "tally_at (with_weighted_quorum q w t) h = empty_tally"
  by (simp add: tally_at_def with_weighted_quorum_def)

lemma fold_put_params:
  "va_quorum (foldl put_vote va vs) = va_quorum va \<and>
   va_quorum_weight (foldl put_vote va vs) = va_quorum_weight va \<and>
   va_threshold_bps (foldl put_vote va vs) = va_threshold_bps va"
  by (induction vs arbitrary: va) simp_all

lemma fold_put_keys:
  "has_key (va_tallies (foldl put_vote va vs)) h \<longleftrightarrow>
     has_key (va_tallies va) h \<or> (\<exists>vp\<in>set vs. vt_tx_hash (fst vp) = h)"
  by (induction vs arbitrary: va) (auto simp: put_vote_def record_vote_weighted_def Let_def amaps)

lemma outcome_fold:
  "outcome (foldl put_vote (with_weighted_quorum q w t) vs) h =
    (if filter (\<lambda>vp. vt_tx_hash (fst vp) = h) vs = [] then OutcomePending
     else evaluate (with_weighted_quorum q w t) (cast_all (filter (\<lambda>vp. vt_tx_hash (fst vp) = h) vs)))"
proof -
  let ?va = "with_weighted_quorum q w t" and ?vs = "filter (\<lambda>vp. vt_tx_hash (fst vp) = h) vs"
  let ?vb = "foldl put_vote ?va vs"
  have "evaluate ?vb = evaluate ?va"
    using fold_put_params by (intro evaluate_params) blast+
  moreover have "tally_at ?vb h = cast_all ?vs"
    using box.tally_put_all [of ?va vs h] by (simp add: cast_all_def)
  moreover have "has_key (va_tallies ?vb) h \<longleftrightarrow> ?vs \<noteq> []"
    by (simp add: fold_put_keys with_weighted_quorum_def filter_empty_conv)
  ultimately show ?thesis
    by (auto simp: outcome_def tally_at_def get_or_def has_key_def split: option.splits)
qed

text \<open>For votes recorded on a fresh aggregator in any interleaving over transactions, the outcome of a transaction is exactly the verdict over the first vote of each voter for it: fewer than `quorum` voters or less than the weight quorum is pending, otherwise accepting votes decide against `threshold_bps`, without division, as long as the counters do not overflow.\<close>

theorem tally_exact:
  fixes vs :: "(vote \<times> u64) list" and h :: transaction_hash
  defines "F \<equiv> first_votes {} (filter (\<lambda>vp. vt_tx_hash (fst vp) = h) vs)"
  assumes "length F < 2 ^ 64" "powers F * 10000 < 2 ^ 128"
  shows "outcome (foldl put_vote (with_weighted_quorum q w t) vs) h =
    (if filter (\<lambda>vp. vt_tx_hash (fst vp) = h) vs = [] then OutcomePending
     else verdict (with_weighted_quorum q w t) F)"
  using assms by (simp add: outcome_fold evaluate_cast_all)

definition demo_vote :: "string \<Rightarrow> bool \<Rightarrow> vote \<times> u64" where
  "demo_vote n acc =
     (\<lparr>vt_voter = NodeId n, vt_tx_hash = zero_hash, vt_accept = acc, vt_timestamp = 0\<rparr>, 5)"

theorem tally_exact_witness:
  "outcome (foldl put_vote (with_weighted_quorum 2 2 6667) [demo_vote ''a'' True, demo_vote ''a'' False, demo_vote ''b'' True])
     zero_hash = OutcomeAccepted"
  using tally_exact [of zero_hash "[demo_vote ''a'' True, demo_vote ''a'' False, demo_vote ''b'' True]" 2 2 6667]
  by (simp add: demo_vote_def verdict_def with_weighted_quorum_def powers_def accepting_def)

text \<open>Counting does not look at the order: the totals of distinct voters are sums.\<close>

lemma powers_mset: "mset vs = mset ws \<Longrightarrow> powers vs = powers ws"
proof -
  have "powers us = sum_mset (image_mset (\<lambda>(v, p). max (unat p) 1) (mset us))" for us
    by (simp add: powers_def flip: sum_mset_sum_list)
  then show "mset vs = mset ws \<Longrightarrow> powers vs = powers ws" by simp
qed

lemma accepting_mset: "mset vs = mset ws \<Longrightarrow> mset (accepting vs) = mset (accepting ws)"
  "mset vs = mset ws \<Longrightarrow> mset (rejecting vs) = mset (rejecting ws)"
  by (simp_all add: accepting_def rejecting_def mset_filter)

lemma evaluate_totals:
  "tl_accept s = tl_accept t \<Longrightarrow> tl_reject s = tl_reject t \<Longrightarrow> tl_accept_weight s = tl_accept_weight t \<Longrightarrow>
     tl_reject_weight s = tl_reject_weight t \<Longrightarrow> evaluate va s = evaluate va t"
  by (simp only: evaluate_def)

lemma evaluate_order:
  assumes vs: "distinct (map (\<lambda>(v, p). vt_voter v) vs)" and eq: "mset vs = mset ws"
  shows "evaluate va (cast_all vs) = evaluate va (cast_all ws)"
proof (rule evaluate_totals)
  have "mset (map (\<lambda>(v, p). vt_voter v) vs) = mset (map (\<lambda>(v, p). vt_voter v) ws)"
    by (simp only: mset_map eq)
  from mset_eq_imp_distinct_iff [OF this] vs have "distinct (map (\<lambda>(v, p). vt_voter v) ws)" by blast
  with vs have F: "first_votes {} vs = vs" "first_votes {} ws = ws"
    by (simp_all add: first_votes_id)
  have len: "length (accepting vs) = length (accepting ws)" "length (rejecting vs) = length (rejecting ws)"
    by (rule accepting_mset [OF eq, THEN mset_eq_length])+
  have pw: "powers (accepting vs) = powers (accepting ws)" "powers (rejecting vs) = powers (rejecting ws)"
    by (rule accepting_mset [OF eq, THEN powers_mset])+
  show "tl_accept (cast_all vs) = tl_accept (cast_all ws)" "tl_reject (cast_all vs) = tl_reject (cast_all ws)"
    using cast_all_counts(1,2) [of vs] cast_all_counts(1,2) [of ws] by (simp_all add: F len)
  show "tl_accept_weight (cast_all vs) = tl_accept_weight (cast_all ws)"
    using cast_all_counts(3) [of vs] cast_all_counts(3) [of ws] by (simp add: F pw word_unat_eq_iff)
  show "tl_reject_weight (cast_all vs) = tl_reject_weight (cast_all ws)"
    using cast_all_counts(4) [of vs] cast_all_counts(4) [of ws] by (simp add: F pw word_unat_eq_iff)
qed

text \<open>The outcome of a transaction does not depend on the order in which its votes arrive, as long as each voter votes once for it; saturated weights included.\<close>

theorem vote_order_irrelevant:
  assumes once: "distinct (map (\<lambda>(v, p). (vt_voter v, vt_tx_hash v)) vs)" and perm: "mset vs = mset ws"
  shows "outcome (foldl put_vote (with_weighted_quorum q w t) vs) h =
    outcome (foldl put_vote (with_weighted_quorum q w t) ws) h"
proof -
  let ?va = "with_weighted_quorum q w t" and ?for_h = "filter (\<lambda>vp. vt_tx_hash (fst vp) = h)"
  have "outcome (foldl put_vote ?va us) h =
      (if ?for_h us = [] then OutcomePending else evaluate ?va (cast_all (?for_h us)))" for us
    using outcome_fold [of q w t us h] by simp
  moreover have "evaluate ?va (cast_all (?for_h vs)) = evaluate ?va (cast_all (?for_h ws))"
  proof (rule evaluate_order)
    show "distinct (map (\<lambda>(v, p). vt_voter v) (?for_h vs))"
      using once by (induction vs) (auto simp: case_prod_beta)
    show "mset (?for_h vs) = mset (?for_h ws)" using perm by (simp add: mset_filter)
  qed
  moreover have "?for_h vs = [] \<longleftrightarrow> ?for_h ws = []"
    using mset_eq_setD [OF perm] by (simp add: filter_empty_conv)
  ultimately show ?thesis by simp
qed

theorem vote_order_irrelevant_witness:
  "outcome (foldl put_vote (with_weighted_quorum 2 2 6667) [demo_vote ''a'' True, demo_vote ''b'' False]) zero_hash
   = outcome (foldl put_vote (with_weighted_quorum 2 2 6667) [demo_vote ''b'' False, demo_vote ''a'' True]) zero_hash"
  by (rule vote_order_irrelevant) (simp_all add: demo_vote_def)

section \<open>Runs of the engine\<close>

text \<open>
  The power with which a vote is counted: \<open>None\<close> for a stale vote, an unknown voter, or a voter
  below the minimum power.
\<close>

definition admitted :: "u64 \<Rightarrow> consensus_engine \<Rightarrow> vote \<Rightarrow> u64 option" where
  "admitted now e v =
     (if sat_sub now (vt_timestamp v) > cc_vote_max_age_ms (ce_config e) then None
      else case map_of (ce_validators e) (vt_voter v) of
        None \<Rightarrow> None
      | Some p \<Rightarrow> if p < cc_min_validator_voting_power (ce_config e) then None else Some p)"

lemma receive_vote_cases:
  "receive_vote now e v =
     (case admitted now e v of
        None \<Rightarrow> e
      | Some p \<Rightarrow> apply_outcome (vt_tx_hash v) (fst (record_vote_weighted (ce_aggregator e) v p))
          (e\<lparr>ce_aggregator := put_vote (ce_aggregator e) (v, p)\<rparr>))"
  by (simp add: receive_vote_def admitted_def put_vote_def Let_def split_beta split: option.splits)

lemma record_vote_outcome:
  "fst (record_vote_weighted va v p) = evaluate va (count_vote v p (tally_at va (vt_tx_hash v)))"
  by (simp add: record_vote_weighted_def tally_at_def Let_def)

lemma admitted_frame:
  "ce_config d = ce_config e \<Longrightarrow> ce_validators d = ce_validators e \<Longrightarrow> admitted now d v = admitted now e v"
  by (simp only: admitted_def)

text \<open>The engine's runs, with every counted vote recorded beside the state.\<close>

inductive engine_run ::
    "dag_graph \<Rightarrow> consensus_config \<Rightarrow> node_id \<Rightarrow> consensus_engine \<Rightarrow> (vote \<times> u64) list \<Rightarrow> bool"
  for dag cfg self where
  run_start: "engine_run dag cfg self (engine_new dag cfg self) []"
| run_vote: "engine_run dag cfg self e hist \<Longrightarrow>
    engine_run dag cfg self (receive_vote now e v)
      (case admitted now e v of None \<Rightarrow> hist | Some p \<Rightarrow> hist @ [(v, p)])"
| run_register: "engine_run dag cfg self e hist \<Longrightarrow> engine_run dag cfg self (register_validator e n p) hist"
| run_replace: "engine_run dag cfg self e hist \<Longrightarrow> engine_run dag cfg self (set_validator_set e vs) hist"
| run_take: "engine_run dag cfg self e hist \<Longrightarrow>
    engine_run dag cfg self (snd (take_event_receiver e)) hist"
| run_graph: "engine_run dag cfg self e hist \<Longrightarrow> engine_run dag cfg self (e\<lparr>ce_dag := d\<rparr>) hist"

declare engine_run.intros [intro]

lemma engine_updates [simp]:
  "ce_aggregator (register_validator e n p) = ce_aggregator e" "ce_events (register_validator e n p) = ce_events e"
  "ce_config (register_validator e n p) = ce_config e"
  "ce_aggregator (set_validator_set e vs) = ce_aggregator e" "ce_events (set_validator_set e vs) = ce_events e"
  "ce_config (set_validator_set e vs) = ce_config e"
  "ce_aggregator (snd (take_event_receiver e)) = ce_aggregator e"
  "ce_events (snd (take_event_receiver e)) = ce_events e" "ce_config (snd (take_event_receiver e)) = ce_config e"
  by (simp_all add: register_validator_def set_validator_set_def take_event_receiver_def Let_def split_beta)

lemma apply_outcome_events:
  "ce_events (apply_outcome h oc e) =
     ce_events e @ (case oc of OutcomeAccepted \<Rightarrow> [Finalized h True] | OutcomeRejected \<Rightarrow> [Finalized h False]
                    | OutcomePending \<Rightarrow> [])"
  by (simp add: apply_outcome_def split: vote_outcome.split)

lemma apply_outcome_aggregator:
  "ce_aggregator (apply_outcome h oc e) =
     (if oc = OutcomePending then ce_aggregator e else finalize (ce_aggregator e) h)"
  by (simp add: apply_outcome_def split: vote_outcome.split)

lemma apply_outcome_frame [simp]:
  "ce_config (apply_outcome h oc e) = ce_config e" "ce_validators (apply_outcome h oc e) = ce_validators e"
  "ce_total_voting_power (apply_outcome h oc e) = ce_total_voting_power e"
  by (simp_all add: apply_outcome_def split: vote_outcome.split)

lemma receive_vote_frame [simp]:
  "ce_config (receive_vote now e v) = ce_config e" "ce_validators (receive_vote now e v) = ce_validators e"
  "ce_total_voting_power (receive_vote now e v) = ce_total_voting_power e"
  by (simp_all add: receive_vote_cases split: option.split)

text \<open>A counted vote of a run and what stays: quorum and thresholds never change.\<close>

lemma record_params [simp]:
  "va_quorum (snd (record_vote_weighted va v p)) = va_quorum va"
  "va_quorum (finalize va h) = va_quorum va" "va_quorum_weight (finalize va h) = va_quorum_weight va"
  "va_threshold_bps (finalize va h) = va_threshold_bps va"
  by (simp_all add: record_vote_weighted_def finalize_def Let_def)

definition rules_of :: "vote_aggregator \<Rightarrow> u64 \<times> u128 \<times> u64" where
  "rules_of va = (va_quorum va, va_quorum_weight va, va_threshold_bps va)"

lemma rules_of_updates [simp]: "rules_of (put_vote va vp) = rules_of va" "rules_of (finalize va h) = rules_of va"
  by (simp_all add: rules_of_def)

lemma rules_evaluate: "rules_of va = rules_of vb \<Longrightarrow> evaluate va = evaluate vb"
  by (rule evaluate_params) (simp_all add: rules_of_def)

lemma rules_verdict: "rules_of va = rules_of vb \<Longrightarrow> verdict va = verdict vb"
  by (simp add: verdict_def rules_of_def fun_eq_iff)

lemma apply_outcome_tally:
  "tally_at (ce_aggregator (apply_outcome h oc e)) k =
     (if oc \<noteq> OutcomePending \<and> k = h then empty_tally else tally_at (ce_aggregator e) k)"
  by (simp add: apply_outcome_aggregator box.tally_close)

lemma receive_vote_tally:
  "tally_at (ce_aggregator (receive_vote now e v)) h =
     (case admitted now e v of
        None \<Rightarrow> tally_at (ce_aggregator e) h
      | Some p \<Rightarrow>
          if h \<noteq> vt_tx_hash v then tally_at (ce_aggregator e) h
          else
            let t = count_vote v p (tally_at (ce_aggregator e) h)
            in if evaluate (ce_aggregator e) t = OutcomePending then t else empty_tally)"
  by (auto simp: receive_vote_cases apply_outcome_tally box.tally_put record_vote_outcome Let_def
      split: option.split)

lemma receive_vote_events:
  "ce_events (receive_vote now e v) = ce_events e @
     (case admitted now e v of
        None \<Rightarrow> []
      | Some p \<Rightarrow>
         (case evaluate (ce_aggregator e) (count_vote v p (tally_at (ce_aggregator e) (vt_tx_hash v))) of
            OutcomeAccepted \<Rightarrow> [Finalized (vt_tx_hash v) True]
          | OutcomeRejected \<Rightarrow> [Finalized (vt_tx_hash v) False]
          | OutcomePending \<Rightarrow> []))"
  by (simp add: receive_vote_cases apply_outcome_events record_vote_outcome
      split: option.split vote_outcome.split)

lemma receive_vote_rules [simp]:
  "rules_of (ce_aggregator (receive_vote now e v)) = rules_of (ce_aggregator e)"
  by (simp add: receive_vote_cases apply_outcome_aggregator split: option.split)

lemma cast_all_snoc: "cast_all (L @ [(v, p)]) = count_vote v p (cast_all L)"
  by (simp add: cast_all_def)

lemma subseq_powers: "subseq xs ys \<Longrightarrow> powers xs \<le> powers ys"
  by (induction rule: list_emb.induct) auto

lemma subseq_first_votes: "subseq (first_votes seen vs) vs"
  by (induction seen vs rule: first_votes.induct) auto

lemma first_votes_subset: "set (first_votes seen vs) \<subseteq> set vs"
  by (induction seen vs rule: first_votes.induct) auto

text \<open>The votes behind the open ballot of a transaction: some of the counted votes for it.\<close>

lemma run_tally:
  assumes "engine_run dag cfg self e hist"
  shows "rules_of (ce_aggregator e) = rules_of (ce_aggregator (engine_new dag cfg self)) \<and>
    (\<forall>h. \<exists>L. subseq L hist \<and> (\<forall>vp\<in>set L. vt_tx_hash (fst vp) = h) \<and>
       tally_at (ce_aggregator e) h = cast_all L)"
  using assms
proof induction
  case run_start
  have "tally_at (ce_aggregator (engine_new dag cfg self)) h = cast_all []" for h
    by (simp add: engine_new_def cast_all_def)
  then show ?case by (auto intro: exI [of _ "[]"])
next
  case (run_vote e hist now v)
  show ?case
  proof (cases "admitted now e v")
    case None
    with run_vote.IH show ?thesis by (simp add: receive_vote_tally)
  next
    case (Some p)
    have "\<exists>L. subseq L (hist @ [(v, p)]) \<and> (\<forall>vp\<in>set L. vt_tx_hash (fst vp) = h) \<and>
        tally_at (ce_aggregator (receive_vote now e v)) h = cast_all L" for h
    proof -
      from run_vote.IH obtain L where L: "subseq L hist" "\<forall>vp\<in>set L. vt_tx_hash (fst vp) = h"
        "tally_at (ce_aggregator e) h = cast_all L" by blast
      let ?va = "ce_aggregator e"
      consider "h \<noteq> vt_tx_hash v" | "h = vt_tx_hash v" "evaluate ?va (count_vote v p (cast_all L)) = OutcomePending"
        | "h = vt_tx_hash v" "evaluate ?va (count_vote v p (cast_all L)) \<noteq> OutcomePending" by blast
      then show ?thesis
      proof cases
        case 1
        with L Some show ?thesis
          by (intro exI [of _ L]) (simp add: receive_vote_tally subseq_rev_drop_many)
      next
        case 2
        with L Some show ?thesis
          by (intro exI [of _ "L @ [(v, p)]"]) (simp add: receive_vote_tally cast_all_snoc Let_def)
      next
        case 3
        with L Some show ?thesis
          by (intro exI [of _ "[]"]) (simp add: receive_vote_tally cast_all_def Let_def)
      qed
    qed
    with run_vote.IH Some show ?thesis by simp
  qed
qed simp_all

lemma run_events:
  assumes "engine_run dag cfg self e hist" "length hist < 2 ^ 64" "powers hist * 10000 < 2 ^ 128"
    and "Finalized h b \<in> set (ce_events e)"
  shows "\<exists>F. subseq F hist \<and> distinct (map (\<lambda>(v, p). vt_voter v) F) \<and> (\<forall>vp\<in>set F. vt_tx_hash (fst vp) = h) \<and>
    verdict (ce_aggregator (engine_new dag cfg self)) F = (if b then OutcomeAccepted else OutcomeRejected)"
  using assms
proof (induction rule: engine_run.induct)
  case run_start
  then show ?case by (simp add: engine_new_def)
next
  case (run_vote e hist now v)
  show ?case
  proof (cases "Finalized h b \<in> set (ce_events e)")
    case True
    with run_vote show ?thesis
      by (cases "admitted now e v") (auto simp: powers_def dest: subseq_rev_drop_many)
  next
    case False
    with run_vote.prems(3) obtain p where p: "admitted now e v = Some p"
      by (cases "admitted now e v") (simp_all add: receive_vote_events)
    with run_vote.prems(3) False have h: "h = vt_tx_hash v"
      and out: "evaluate (ce_aggregator e) (count_vote v p (tally_at (ce_aggregator e) h))
        = (if b then OutcomeAccepted else OutcomeRejected)"
      by (cases "evaluate (ce_aggregator e) (count_vote v p (tally_at (ce_aggregator e) (vt_tx_hash v)))";
          simp add: receive_vote_events)+
    from run_tally [OF run_vote.hyps] obtain L where L: "subseq L hist"
      "\<forall>vp\<in>set L. vt_tx_hash (fst vp) = h" "tally_at (ce_aggregator e) h = cast_all L"
      and rules: "rules_of (ce_aggregator e) = rules_of (ce_aggregator (engine_new dag cfg self))" by blast
    let ?L = "L @ [(v, p)]" and ?hist = "hist @ [(v, p)]"
    let ?F = "first_votes {} ?L"
    have sub: "subseq ?F ?hist"
      using L(1) by (intro subseq_order.trans [OF subseq_first_votes]) simp
    have small: "length ?F < 2 ^ 64" "powers ?F * 10000 < 2 ^ 128"
      using run_vote.prems(1,2) list_emb_length [OF sub] subseq_powers [OF sub] by (simp_all add: p)
    have "verdict (ce_aggregator (engine_new dag cfg self)) ?F = (if b then OutcomeAccepted else OutcomeRejected)"
      using out evaluate_cast_all [OF small, of "ce_aggregator e"]
      by (simp add: L(3) cast_all_snoc rules_verdict [OF rules])
    moreover have "\<forall>vp\<in>set ?F. vt_tx_hash (fst vp) = h"
      using L(2) h first_votes_subset [of "{}" ?L] by auto
    ultimately show ?thesis
      using sub first_votes_distinct [of "{}" ?L] p by (intro exI [of _ ?F]) simp
  qed
qed simp_all

text \<open>C24: No finality without a quorum: whenever a run of the engine (with fewer than \<open>2 ^ 64\<close> counted votes,
  of total weight below \<open>2 ^ 128 / 10000\<close>) has emitted a finalization of a transaction, counted votes of
  pairwise different validators for it reach both the vote quorum and the weight quorum, and accepting
  weight reaches the threshold exactly when the event says accepted, whatever validators registered, were
  replaced or voted meanwhile.\<close>

theorem finality_needs_quorum:
  assumes "engine_run dag cfg self e hist" "length hist < 2 ^ 64" "powers hist * 10000 < 2 ^ 128"
    and "Finalized h b \<in> set (ce_events e)"
  shows "\<exists>F. subseq F hist \<and> distinct (map (\<lambda>(v, p). vt_voter v) F) \<and> (\<forall>vp\<in>set F. vt_tx_hash (fst vp) = h) \<and>
    unat (cc_quorum cfg) \<le> length F \<and> unat (cc_min_total_voting_power cfg) \<le> powers F \<and>
    (F \<noteq> [] \<longrightarrow> (b \<longleftrightarrow> unat (cc_threshold_bps cfg) * powers F \<le> powers (accepting F) * 10000))"
proof -
  from run_events [OF assms] obtain F where F: "subseq F hist" "distinct (map (\<lambda>(v, p). vt_voter v) F)"
    "\<forall>vp\<in>set F. vt_tx_hash (fst vp) = h"
    "verdict (ce_aggregator (engine_new dag cfg self)) F = (if b then OutcomeAccepted else OutcomeRejected)"
    by blast
  have "unat (ucast (cc_min_total_voting_power cfg) :: u128) = unat (cc_min_total_voting_power cfg)"
    using unat_u64_bound [of "cc_min_total_voting_power cfg"] by (simp add: unat_ucast_mod)
  with F(4) have "unat (cc_quorum cfg) \<le> length F \<and> unat (cc_min_total_voting_power cfg) \<le> powers F \<and>
    (F \<noteq> [] \<longrightarrow> (b \<longleftrightarrow> unat (cc_threshold_bps cfg) * powers F \<le> powers (accepting F) * 10000))"
    by (auto simp: verdict_def engine_new_def with_weighted_quorum_def split: if_splits)
  with F(1-3) show ?thesis by blast
qed

lemma admitted_receive [simp]: "admitted now (receive_vote n e w) v = admitted now e v"
  by (rule admitted_frame) simp_all

definition demo_config :: consensus_config where
  "demo_config = default_consensus_config\<lparr>cc_quorum := 2, cc_min_total_voting_power := 6\<rparr>"

definition demo_engine :: consensus_engine where
  "demo_engine = register_validator (engine_new demo_graph demo_config (NodeId ''a'')) (NodeId ''b'') 5"

abbreviation cast_at :: "string \<Rightarrow> bool \<Rightarrow> vote" where
  "cast_at n acc \<equiv> fst (demo_vote n acc)"

definition demo_engine_voted :: consensus_engine where
  "demo_engine_voted =
     receive_vote 7 (receive_vote 7 demo_engine (cast_at ''a'' True)) (cast_at ''b'' True)"

lemma demo_rules:
  "ce_config demo_engine = demo_config" "ce_validators demo_engine = [(NodeId ''a'', 1), (NodeId ''b'', 5)]"
  "ce_aggregator demo_engine = with_weighted_quorum 2 6 6667" "ce_events demo_engine = []"
  by (simp_all add: demo_engine_def engine_new_def register_validator_def demo_config_def
      default_consensus_config_def Let_def max_def word_le_unat)

lemma demo_admitted:
  "admitted 7 demo_engine (cast_at ''a'' b) = Some 1" "admitted 7 demo_engine (cast_at ''b'' b) = Some 5"
  by (simp_all add: admitted_def demo_rules demo_vote_def demo_config_def default_consensus_config_def
      sat_sub_def)

lemma demo_engine_run:
  "engine_run demo_graph demo_config (NodeId ''a'') demo_engine_voted
     [(cast_at ''a'' True, 1), (cast_at ''b'' True, 5)]"
proof -
  have start: "engine_run demo_graph demo_config (NodeId ''a'') demo_engine []"
    unfolding demo_engine_def by blast
  let ?e = "receive_vote 7 demo_engine (cast_at ''a'' True)"
  have one: "engine_run demo_graph demo_config (NodeId ''a'') ?e [(cast_at ''a'' True, 1)]"
    using run_vote [OF start, of 7 "cast_at ''a'' True"] by (simp add: demo_admitted)
  have "admitted 7 ?e (cast_at ''b'' True) = Some 5" by (simp add: demo_admitted)
  then show ?thesis
    unfolding demo_engine_voted_def using run_vote [OF one, of 7 "cast_at ''b'' True"] by simp
qed

lemma demo_engine_events: "Finalized zero_hash True \<in> set (ce_events demo_engine_voted)"
proof -
  let ?e = "receive_vote 7 demo_engine (cast_at ''a'' True)"
  have "tally_at (ce_aggregator demo_engine) zero_hash = empty_tally" by (simp add: demo_rules)
  moreover have "evaluate (with_weighted_quorum 2 6 6667) (count_vote (cast_at ''a'' True) 1 empty_tally)
      = OutcomePending"
    by (simp add: evaluate_def with_weighted_quorum_def count_vote_def empty_tally_def demo_vote_def)
  ultimately have t: "tally_at (ce_aggregator ?e) zero_hash = count_vote (cast_at ''a'' True) 1 empty_tally"
    by (simp add: receive_vote_tally demo_admitted) (simp add: demo_vote_def demo_rules Let_def)
  have "admitted 7 ?e (cast_at ''b'' True) = Some 5" by (simp add: demo_admitted)
  moreover have "evaluate (ce_aggregator ?e) = evaluate (with_weighted_quorum 2 6 6667)"
    by (intro rules_evaluate) (simp add: demo_rules)
  moreover have "evaluate (with_weighted_quorum 2 6 6667)
      (count_vote (cast_at ''b'' True) 5 (count_vote (cast_at ''a'' True) 1 empty_tally)) = OutcomeAccepted"
    by (simp add: evaluate_def with_weighted_quorum_def count_vote_def empty_tally_def demo_vote_def
        sat_add_def Let_def max_def word_le_unat)
  ultimately show ?thesis
    using t by (simp add: demo_engine_voted_def receive_vote_events demo_vote_def)
qed

theorem finality_needs_quorum_witness:
  "\<exists>F. subseq F [(cast_at ''a'' True, 1), (cast_at ''b'' True, 5)] \<and>
     distinct (map (\<lambda>(v, p). vt_voter v) F) \<and> (\<forall>vp\<in>set F. vt_tx_hash (fst vp) = zero_hash) \<and>
     unat (cc_quorum demo_config) \<le> length F \<and> unat (cc_min_total_voting_power demo_config) \<le> powers F \<and>
     (F \<noteq> [] \<longrightarrow> (True \<longleftrightarrow> unat (cc_threshold_bps demo_config) * powers F \<le> powers (accepting F) * 10000))"
  by (rule finality_needs_quorum [OF demo_engine_run _ _ demo_engine_events]) (simp_all add: powers_def)

section \<open>Liveness: a quorum is enough\<close>

lemma events_grow: "ev \<in> set (ce_events e) \<Longrightarrow> ev \<in> set (ce_events (receive_vote now e v))"
  by (simp add: receive_vote_events)

lemma accepting_all: "\<forall>vp\<in>set vs. vt_accept (fst vp) \<Longrightarrow> accepting vs = vs"
  unfolding accepting_def by (intro filter_True) auto

lemma verdict_unanimous:
  assumes "\<forall>vp\<in>set F. vt_accept (fst vp)" "F \<noteq> []" "unat (va_threshold_bps va) \<le> 10000"
  shows "verdict va F =
    (if length F < unat (va_quorum va) \<or> powers F < unat (va_quorum_weight va) then OutcomePending
     else OutcomeAccepted)"
  using assms by (simp add: verdict_def accepting_all mult.commute)

text \<open>While no ballot is decided, the votes received so far stand in the tally.\<close>

lemma unanimous_progress:
  assumes "\<forall>vp\<in>set vs. admitted now e (fst vp) = Some (snd vp) \<and> vt_tx_hash (fst vp) = h \<and> vt_accept (fst vp)"
    and "distinct (map (\<lambda>(v, p). vt_voter v) vs)" "tally_at (ce_aggregator e) h = empty_tally"
    and "length vs < 2 ^ 64" "powers vs * 10000 < 2 ^ 128" "unat (va_threshold_bps (ce_aggregator e)) \<le> 10000"
  defines "e' \<equiv> foldl (receive_vote now) e (map fst vs)"
  shows "Finalized h True \<in> set (ce_events e') \<or>
    tally_at (ce_aggregator e') h = cast_all vs \<and> (vs \<noteq> [] \<longrightarrow> verdict (ce_aggregator e) vs = OutcomePending)"
  using assms(1-5) unfolding e'_def
proof (induction vs rule: rev_induct)
  case Nil
  then show ?case by (simp add: cast_all_def)
next
  case (snoc vp vs)
  obtain v p where vp: "vp = (v, p)" by (cases vp)
  let ?e = "foldl (receive_vote now) e (map fst vs)" and ?vs = "vs @ [(v, p)]"
  have frame: "admitted now (foldl (receive_vote now) e us) w = admitted now e w \<and>
      rules_of (ce_aggregator (foldl (receive_vote now) e us)) = rules_of (ce_aggregator e)" for us w
    by (induction us arbitrary: e) simp_all
  have v: "admitted now ?e v = Some p" "vt_tx_hash v = h" using snoc.prems(1) by (simp_all add: vp frame)
  have F: "first_votes {} ?vs = ?vs" using snoc.prems(2) by (intro first_votes_id) (simp_all add: vp)
  have "evaluate (ce_aggregator ?e) (cast_all ?vs) = verdict (ce_aggregator ?e) ?vs"
    using evaluate_cast_all [of ?vs "ce_aggregator ?e"] snoc.prems(4,5) by (simp add: F vp)
  also have "\<dots> = verdict (ce_aggregator e) ?vs" by (simp only: rules_verdict [OF frame [THEN conjunct2]])
  finally have ev: "evaluate (ce_aggregator ?e) (cast_all ?vs) = verdict (ce_aggregator e) ?vs" .
  have dec: "verdict (ce_aggregator e) ?vs \<in> {OutcomePending, OutcomeAccepted}"
    using snoc.prems(1) assms(6) by (subst verdict_unanimous) (auto simp: vp)
  have "powers vs * 10000 < 2 ^ 128" using snoc.prems(5) by (simp add: powers_def)
  with snoc.IH snoc.prems(1-4) consider "Finalized h True \<in> set (ce_events ?e)"
    | "tally_at (ce_aggregator ?e) h = cast_all vs" by auto
  then show ?case
  proof cases
    case 1
    then show ?thesis by (simp add: events_grow)
  next
    case 2
    show ?thesis
    proof (cases "verdict (ce_aggregator e) ?vs = OutcomePending")
      case True
      then show ?thesis
        using 2 v ev by (simp add: vp receive_vote_tally cast_all_snoc Let_def)
    next
      case False
      with dec 2 v ev show ?thesis by (simp add: vp receive_vote_events cast_all_snoc)
    qed
  qed
qed

lemma quorum_enough:
  assumes "\<forall>vp\<in>set vs. admitted now e (fst vp) = Some (snd vp) \<and> vt_tx_hash (fst vp) = h \<and> vt_accept (fst vp)"
    and "distinct (map (\<lambda>(v, p). vt_voter v) vs)" "tally_at (ce_aggregator e) h = empty_tally"
    and "length vs < 2 ^ 64" "powers vs * 10000 < 2 ^ 128" "unat (va_threshold_bps (ce_aggregator e)) \<le> 10000"
    and "vs \<noteq> []" "unat (va_quorum (ce_aggregator e)) \<le> length vs"
    and "unat (va_quorum_weight (ce_aggregator e)) \<le> powers vs"
  shows "Finalized h True \<in> set (ce_events (foldl (receive_vote now) e (map fst vs)))"
proof -
  have "verdict (ce_aggregator e) vs = OutcomeAccepted"
    using assms(1,6-9) by (subst verdict_unanimous) auto
  with unanimous_progress [OF assms(1-6)] assms(7) show ?thesis by simp
qed

text \<open>C25: A quorum of agreeing validators is enough: if no vote on a transaction has been counted yet and the
  threshold is at most 100 percent, then one or more fresh accepting votes of pairwise different registered validators
  with at least the minimum power each, which reach the vote quorum and the weight quorum with their powers, zero counting as one (fewer than
  \<open>2 ^ 64\<close> votes of total weight below \<open>2 ^ 128 / 10000\<close>), emit the acceptance of the transaction when
  they are processed in the given order, whatever it is.\<close>

theorem quorum_finalizes:
  assumes "\<forall>vp\<in>set vs. admitted now e (fst vp) = Some (snd vp) \<and> vt_tx_hash (fst vp) = h \<and> vt_accept (fst vp)"
    and "distinct (map (\<lambda>(v, p). vt_voter v) vs)" "tally_at (ce_aggregator e) h = empty_tally"
    and "length vs < 2 ^ 64" "powers vs * 10000 < 2 ^ 128" "unat (va_threshold_bps (ce_aggregator e)) \<le> 10000"
    and "vs \<noteq> []" "unat (va_quorum (ce_aggregator e)) \<le> length vs"
    and "unat (va_quorum_weight (ce_aggregator e)) \<le> powers vs"
  shows "Finalized h True \<in> set (ce_events (foldl (receive_vote now) e (map fst vs)))"
  by (rule quorum_enough [OF assms])

theorem quorum_finalizes_witness:
  "Finalized zero_hash True \<in> set (ce_events (foldl (receive_vote 7) demo_engine
     (map fst [(cast_at ''a'' True, 1), (cast_at ''b'' True, 5 :: u64)])))"
  by (rule quorum_finalizes)
    (simp_all add: demo_admitted demo_rules powers_def with_weighted_quorum_def tally_at_def,
     simp_all add: demo_vote_def)

section \<open>Voting power\<close>

definition validator_count :: "consensus_engine \<Rightarrow> nat" where
  "validator_count e = length (ce_validators e)"

definition total_voting_power :: "consensus_engine \<Rightarrow> u64" where
  "total_voting_power e = ce_total_voting_power e"

definition power_ok :: "consensus_engine \<Rightarrow> bool" where
  "power_ok e \<longleftrightarrow> distinct (keys (ce_validators e)) \<and> total_voting_power e = vsum (\<lambda>p. p) (ce_validators e)"

lemma vsum_update_word:
  "vsum (\<lambda>p. p) (AList.update k (v :: 'a::len word) m) = vsum (\<lambda>p. p) m - get_or 0 m k + v"
  using vsum_update [of "\<lambda>p. p" k v m] by (simp add: get_or_def val_or_def algebra_simps split: option.splits)

definition powers_of :: "(node_id \<times> u64) list \<Rightarrow> nat" where
  "powers_of vs = sum_list (map (\<lambda>(n, p). max (unat p) 1) vs)"

lemma fold_set_validators:
  fixes vs :: "(node_id \<times> u64) list" and t :: u64
  assumes "distinct (map fst vs)" "set (map fst vs) \<inter> set (keys m) = {}"
    and "t = vsum (\<lambda>p. p) m" "unat t + powers_of vs < 2 ^ 64" "distinct (keys m)"
  shows "(case foldl (\<lambda>(m, t) (n :: node_id, pw). (AList.update n (max pw 1) m, sat_add t (max pw 1))) (m, t) vs of
      (m', t') \<Rightarrow> distinct (keys m') \<and> t' = vsum (\<lambda>p. p) m' \<and> unat t' = unat t + powers_of vs \<and>
        set (keys m') = set (keys m) \<union> set (map fst vs))"
  using assms
proof (induction vs arbitrary: m t)
  case (Cons np vs)
  obtain n p where np: "np = (n, p)" by (cases np)
  have new: "map_of m n = None" using Cons.prems(2) by (auto simp: np map_of_eq_None_iff)
  have bound: "unat t + max (unat p) 1 + powers_of vs < 2 ^ 64"
    using Cons.prems(4) by (simp add: np powers_of_def)
  then have t: "sat_add t (max p 1) = t + max p 1" by (simp add: sat_add_def unat_word_max)
  have t': "unat (sat_add t (max p 1)) = unat t + max (unat p) 1"
    using bound by (simp only: unat_sat_add unat_word_max) simp
  have "sat_add t (max p 1) = vsum (\<lambda>p. p) (AList.update n (max p 1) m)"
    using vsum_update [of "\<lambda>p. p" n "max p 1" m] Cons.prems(3) new unfolding t by simp
  moreover have "set (keys vs) \<inter> set (keys (AList.update n (max p 1) m)) = {}"
    using Cons.prems(1,2) unfolding set_keys_update by (auto simp: np)
  moreover have "distinct (keys (AList.update n (max p 1) m))" using Cons.prems(5) by simp
  ultimately show ?case
    using Cons.IH [of "AList.update n (max p 1) m" "sat_add t (max p 1)"] Cons.prems(1) bound t'
    by (auto simp: np powers_of_def simp del: set_map split: prod.splits)
qed (simp add: powers_of_def)

lemma set_validators_ok:
  assumes "distinct (map fst vs)" "powers_of vs + 1 < 2 ^ 64"
  shows "power_ok (set_validator_set e vs) \<and> ce_local_node e \<in> set (keys (ce_validators (set_validator_set e vs)))"
proof -
  obtain m t where fold: "foldl (\<lambda>(m, t) (n :: node_id, pw). (AList.update n (max pw 1) m, sat_add t (max pw 1)))
      ([], 0) vs = (m, t :: u64)" by fastforce
  have ok: "distinct (keys m)" "t = vsum (\<lambda>p. p) m" "unat t = powers_of vs"
    using fold_set_validators [of vs "[]" 0] assms unfolding fold by auto
  have t1: "sat_add t 1 = t + 1" using ok(3) assms(2) by (simp add: sat_add_def)
  show ?thesis
  proof (cases "has_key m (ce_local_node e)")
    case True
    with ok(1,2) show ?thesis
      by (simp add: power_ok_def total_voting_power_def set_validator_set_def fold has_key_iff del: set_map)
  next
    case False
    then have "get_or 0 m (ce_local_node e) = 0" by (simp add: get_or_def has_key_def)
    then have "vsum (\<lambda>p. p) (AList.update (ce_local_node e) 1 m) = t + 1"
      by (simp add: vsum_update_word ok(2))
    with False ok(1) show ?thesis
      by (simp add: power_ok_def total_voting_power_def set_validator_set_def fold t1 del: set_map)
  qed
qed

text \<open>The engine's total voting power is the sum of the registered validators' powers: it is so for a new engine, registering or updating a validator and counting votes keep it, and replacing the validator set establishes it from any state (for a set without duplicate identifiers whose powers fit in 64 bits) with the local node always in the set.\<close>

theorem voting_power_total:
  assumes "power_ok e" "distinct (map fst vs)" "powers_of vs + 1 < 2 ^ 64"
  shows "power_ok (engine_new dag cfg self) \<and> power_ok (register_validator e n p) \<and>
    power_ok (receive_vote now e v) \<and> power_ok (set_validator_set d vs) \<and>
    ce_local_node d \<in> set (map fst (ce_validators (set_validator_set d vs)))"
proof -
  have "power_ok (engine_new dag cfg self)"
    by (simp add: power_ok_def total_voting_power_def engine_new_def)
  moreover have "power_ok (register_validator e n p)"
    using assms(1) by (simp add: power_ok_def total_voting_power_def register_validator_def Let_def vsum_update_word)
  moreover have "power_ok (receive_vote now e v)"
    using assms(1) by (simp add: power_ok_def total_voting_power_def)
  ultimately show ?thesis using set_validators_ok [OF assms(2,3), of d] by blast
qed

theorem voting_power_total_witness:
  "power_ok (engine_new demo_graph demo_config (NodeId ''a'')) \<and>
   power_ok (register_validator demo_engine (NodeId ''c'') 4) \<and>
   power_ok (receive_vote 7 demo_engine (cast_at ''a'' True)) \<and>
   power_ok (set_validator_set demo_engine [(NodeId ''c'', 4), (NodeId ''d'', 0)]) \<and>
   ce_local_node demo_engine \<in> set (map fst (ce_validators (set_validator_set demo_engine
     [(NodeId ''c'', 4), (NodeId ''d'', 0)])))"
  by (rule voting_power_total)
    (simp_all add: powers_of_def power_ok_def total_voting_power_def demo_rules,
     simp add: demo_engine_def register_validator_def engine_new_def max_def word_le_unat Let_def
        get_or_def)

text \<open>
  After a finalization the tally is gone, so a further vote opens a fresh ballot and moves the
  transaction back to \<open>Voting\<close>.
\<close>

theorem late_vote_reopens:
  assumes "admitted now e v = Some p" "tally_at (ce_aggregator e) (vt_tx_hash v) = empty_tally"
    and "1 < unat (va_quorum (ce_aggregator e))"
  shows "ce_dag (receive_vote now e v) = set_status (ce_dag e) (vt_tx_hash v) Voting"
proof -
  have "tl_accept (count_vote v p empty_tally) + tl_reject (count_vote v p empty_tally) = 1"
    by (simp add: count_vote_def empty_tally_def Let_def)
  with assms(3) have "evaluate (ce_aggregator e) (count_vote v p empty_tally) = OutcomePending"
    by (simp add: evaluate_def word_less_unat)
  with assms(1,2) show ?thesis
    by (simp add: receive_vote_cases record_vote_outcome apply_outcome_def)
qed

theorem late_vote_reopens_witness:
  "ce_dag (receive_vote 7 demo_engine (cast_at ''a'' True)) = set_status (ce_dag demo_engine) zero_hash Voting"
proof -
  have v: "vt_tx_hash (cast_at ''a'' True) = zero_hash" by (simp add: demo_vote_def)
  show ?thesis
    using late_vote_reopens [of 7 demo_engine "cast_at ''a'' True" 1]
    by (simp add: v demo_admitted demo_rules) (simp add: with_weighted_quorum_def)
qed

end
