(* ===== verification/NetConfig.thy ===== *)
theory NetConfig
  imports Voting
begin

text \<open>
  \<open>relyo-network/src/config.rs\<close>, \<open>relyo-node/src/config.rs\<close> and \<open>relyo-network/src/messages.rs\<close>:
  the configuration records with their defaults, validation and listen addresses, and the gossip
  messages.  An \<open>i64\<close> is a 64-bit word read with \<open>sint\<close>; paths are strings; TOML and bincode are
  arguments.
\<close>

section \<open>Network configuration\<close>

type_synonym i64 = "64 word"

record peer_scoring_config =
  valid_transaction_weight :: i64
  invalid_transaction_weight :: i64
  timely_response_weight :: i64
  slow_response_weight :: i64
  invalid_message_weight :: i64
  good_sync_weight :: i64
  protocol_violation_weight :: i64
  ban_threshold :: i64
  initial_reputation :: i64

definition default_peer_scoring :: peer_scoring_config where
  "default_peer_scoring =
     \<lparr>valid_transaction_weight = 2, invalid_transaction_weight = - 10, timely_response_weight = 1,
      slow_response_weight = - 1, invalid_message_weight = - 20, good_sync_weight = 5,
      protocol_violation_weight = - 50, ban_threshold = - 100, initial_reputation = 100\<rparr>"

record network_config =
  listen_addr :: string
  external_addr :: "string option"
  bootstrap_peers :: "string list"
  nc_max_peers :: nat
  quic_port :: u16
  tcp_port :: u16
  gossip_heartbeat_ms :: u64
  identity_path :: string
  peer_scoring :: peer_scoring_config
  ban_duration_secs :: u64
  sync_batch_size :: nat
  max_concurrent_syncs :: nat
  heartbeat_interval_secs :: u64
  connection_timeout_secs :: u64
  max_inbound_connections :: nat
  max_outbound_connections :: nat

definition default_network_config :: network_config where
  "default_network_config =
     \<lparr>listen_addr = ''/ip4/0.0.0.0'', external_addr = None,
      bootstrap_peers = [''/dns/seed1.relyo.network/tcp/9741'', ''/dns/seed2.relyo.network/tcp/9741'',
        ''/dns/seed3.relyo.network/tcp/9741''],
      nc_max_peers = 50, quic_port = 9740, tcp_port = 9741, gossip_heartbeat_ms = 700,
      identity_path = ''node_identity.key'', peer_scoring = default_peer_scoring,
      ban_duration_secs = 3600, sync_batch_size = 500, max_concurrent_syncs = 5,
      heartbeat_interval_secs = 30, connection_timeout_secs = 10, max_inbound_connections = 100,
      max_outbound_connections = 50\<rparr>"

definition tcp_multiaddr :: "network_config \<Rightarrow> string" where
  "tcp_multiaddr c = listen_addr c @ ''/tcp/'' @ show_word (tcp_port c)"

definition quic_multiaddr :: "network_config \<Rightarrow> string" where
  "quic_multiaddr c = listen_addr c @ ''/udp/'' @ show_word (quic_port c) @ ''/quic-v1''"

definition max_total_connections :: "network_config \<Rightarrow> nat" where
  "max_total_connections c = max_inbound_connections c + max_outbound_connections c"

definition validate_config :: "network_config \<Rightarrow> string + unit" where
  "validate_config c =
     (if tcp_port c = quic_port c then Inl ''TCP and QUIC ports must be different''
      else if nc_max_peers c = 0 then Inl ''max_peers must be greater than zero''
      else if sync_batch_size c = 0 then Inl ''sync_batch_size must be greater than zero''
      else if heartbeat_interval_secs c = 0 then Inl ''heartbeat_interval_secs must be greater than zero''
      else if connection_timeout_secs c = 0 then Inl ''connection_timeout_secs must be greater than zero''
      else Inr ())"

section \<open>Node configuration\<close>

text \<open>A \<open>SocketAddr\<close> of IPv4: the four bytes and the port.\<close>

type_synonym socket_addr = "(u8 \<times> u8 \<times> u8 \<times> u8) \<times> u16"

record node_config =
  nd_node_name :: string
  nd_data_dir :: string
  nd_network :: network_config
  nd_consensus :: consensus_config
  nd_explorer_bind :: socket_addr
  nd_explorer_enabled :: bool
  nd_rpc_bind :: socket_addr
  nd_rpc_enabled :: bool
  nd_mempool_max_size :: nat
  nd_rate_limit_tps :: u32
  nd_persistence_enabled :: bool
  nd_log_level :: string
  nd_log_file :: string

definition default_node_config :: node_config where
  "default_node_config =
     \<lparr>nd_node_name = ''relyo-node'', nd_data_dir = ''data'', nd_network = default_network_config,
      nd_consensus = default_consensus_config, nd_explorer_bind = ((0, 0, 0, 0), 8080),
      nd_explorer_enabled = True, nd_rpc_bind = ((0, 0, 0, 0), 9090), nd_rpc_enabled = True,
      nd_mempool_max_size = 100000, nd_rate_limit_tps = 100, nd_persistence_enabled = True,
      nd_log_level = ''info'', nd_log_file = []\<rparr>"

text \<open>
  \<open>load\<close> and \<open>save\<close>: \<open>file\<close> is what the file system holds at the path, \<open>None\<close> when nothing exists
  there, \<open>Inl\<close> when it cannot be read; \<open>save\<close> returns the text to write.
\<close>

definition load_config ::
    "(string \<Rightarrow> string + node_config) \<Rightarrow> (string + string) option \<Rightarrow> string + node_config" where
  "load_config from_toml file =
     (case file of
        None \<Rightarrow> Inr default_node_config
      | Some (Inl e) \<Rightarrow> Inl e
      | Some (Inr content) \<Rightarrow> from_toml content)"

definition save_config :: "(node_config \<Rightarrow> string + string) \<Rightarrow> node_config \<Rightarrow> string + string" where
  "save_config to_toml c = to_toml c"

lemma saved_config_loads:
  "\<forall>c t. to_toml c = Inr t \<longrightarrow> from_toml t = Inr c \<Longrightarrow> save_config to_toml c = Inr t \<Longrightarrow>
     load_config from_toml (Some (Inr t)) = Inr c"
  by (simp add: save_config_def load_config_def)

section \<open>Messages\<close>

datatype message_type =
    TransactionBroadcast | VoteRequest | VoteResponse | TransactionRequest | TransactionResponse
  | Heartbeat | TipRequest | TipResponse

record network_message =
  nm_msg_type :: message_type
  nm_payload :: bytes
  nm_timestamp :: u64

record vote_payload =
  vp_tx_hash :: transaction_hash
  vp_accept :: bool
  vp_node_id :: string

text \<open>\<open>bincode\<close> on the types that travel: encoders and decoders that may fail.\<close>

record wire =
  enc_tx :: "transaction \<Rightarrow> string + bytes"
  dec_tx :: "bytes \<Rightarrow> string + transaction"
  enc_hash :: "transaction_hash \<Rightarrow> string + bytes"
  dec_hash :: "bytes \<Rightarrow> string + transaction_hash"
  enc_vote :: "vote_payload \<Rightarrow> string + bytes"
  dec_vote :: "bytes \<Rightarrow> string + vote_payload"
  enc_msg :: "network_message \<Rightarrow> string + bytes"
  dec_msg :: "bytes \<Rightarrow> string + network_message"

definition message_new :: "u64 \<Rightarrow> message_type \<Rightarrow> bytes \<Rightarrow> network_message" where
  "message_new now t payload = \<lparr>nm_msg_type = t, nm_payload = payload, nm_timestamp = now\<rparr>"

definition tx_broadcast :: "wire \<Rightarrow> u64 \<Rightarrow> transaction \<Rightarrow> string + network_message" where
  "tx_broadcast W now tx = map_sum id (message_new now TransactionBroadcast) (enc_tx W tx)"

definition vote_request :: "wire \<Rightarrow> u64 \<Rightarrow> transaction_hash \<Rightarrow> string + network_message" where
  "vote_request W now h = map_sum id (message_new now VoteRequest) (enc_hash W h)"

definition vote_response :: "wire \<Rightarrow> u64 \<Rightarrow> vote_payload \<Rightarrow> string + network_message" where
  "vote_response W now v = map_sum id (message_new now VoteResponse) (enc_vote W v)"

definition message_to_bytes :: "wire \<Rightarrow> network_message \<Rightarrow> string + bytes" where
  "message_to_bytes W m = enc_msg W m"

definition message_from_bytes :: "wire \<Rightarrow> bytes \<Rightarrow> string + network_message" where
  "message_from_bytes W data = dec_msg W data"

text \<open>What the documentation of bincode promises: decoding gives back what was encoded.\<close>

definition wire_ok :: "wire \<Rightarrow> bool" where
  "wire_ok W \<longleftrightarrow>
     (\<forall>x b. enc_tx W x = Inr b \<longrightarrow> dec_tx W b = Inr x) \<and>
     (\<forall>x b. enc_hash W x = Inr b \<longrightarrow> dec_hash W b = Inr x) \<and>
     (\<forall>x b. enc_vote W x = Inr b \<longrightarrow> dec_vote W b = Inr x) \<and>
     (\<forall>x b. enc_msg W x = Inr b \<longrightarrow> dec_msg W b = Inr x)"

section \<open>Facts\<close>

text \<open>A network configuration passes validation exactly when its two ports differ and its peer limit, batch size, heartbeat interval and connection timeout are positive; the default configuration passes.\<close>

theorem config_validation_exact:
  "(validate_config c = Inr () \<longleftrightarrow>
      tcp_port c \<noteq> quic_port c \<and> 0 < nc_max_peers c \<and> 0 < sync_batch_size c \<and>
      0 < unat (heartbeat_interval_secs c) \<and> 0 < unat (connection_timeout_secs c)) \<and>
   validate_config default_network_config = Inr ()"
  by (auto simp: validate_config_def default_network_config_def unat_gt_0)

end
