(* ===== verification/Mempool.thy ===== *)
theory Mempool
  imports Transactions
begin

text \<open>
  \<open>relyo-dag/src/mempool.rs\<close>: pending transactions by hash, an index by sender, a size bound and
  the running total of the fees; draining by fee weight or by age.  A sender's hash set is a
  distinct list.
\<close>

record mempool =
  mp_txs :: "(transaction_hash \<times> transaction) list"
  mp_by_sender :: "(address \<times> transaction_hash list) list"
  mp_max_size :: nat
  mp_total_fees :: u64

definition mempool_new :: "nat \<Rightarrow> mempool" where
  "mempool_new max_size =
     \<lparr>mp_txs = [], mp_by_sender = [], mp_max_size = max_size, mp_total_fees = 0\<rparr>"

definition mempool_insert :: "crypto \<Rightarrow> mempool \<Rightarrow> transaction \<Rightarrow> bool \<times> mempool" where
  "mempool_insert C mp tx =
     (if length (mp_txs mp) \<ge> mp_max_size mp then (False, mp)
      else
        let hash = tx_hash C tx in
        if has_key (mp_txs mp) hash then (False, mp)
        else (True,
              mp\<lparr>mp_total_fees := mp_total_fees mp + tx_fee tx,
                 mp_by_sender := AList.update (tx_sender tx)
                   (List.insert hash (get_or [] (mp_by_sender mp) (tx_sender tx))) (mp_by_sender mp),
                 mp_txs := AList.update hash tx (mp_txs mp)\<rparr>))"

definition mempool_remove :: "mempool \<Rightarrow> transaction_hash \<Rightarrow> transaction option \<times> mempool" where
  "mempool_remove mp hash =
     (case map_of (mp_txs mp) hash of
        None \<Rightarrow> (None, mp)
      | Some tx \<Rightarrow>
          let by_sender =
            (case map_of (mp_by_sender mp) (tx_sender tx) of
               None \<Rightarrow> mp_by_sender mp
             | Some hs \<Rightarrow>
                 let hs' = removeAll hash hs in
                 if hs' = [] then AList.delete (tx_sender tx) (mp_by_sender mp)
                 else AList.update (tx_sender tx) hs' (mp_by_sender mp))
          in (Some tx,
              mp\<lparr>mp_txs := AList.delete hash (mp_txs mp),
                 mp_total_fees := mp_total_fees mp - tx_fee tx,
                 mp_by_sender := by_sender\<rparr>))"

text \<open>The removal loop shared by the two drains.\<close>

fun drain_hashes :: "mempool \<Rightarrow> transaction_hash list \<Rightarrow> transaction list \<times> mempool" where
  "drain_hashes mp [] = ([], mp)"
| "drain_hashes mp (h # hs) =
     (case mempool_remove mp h of
        (None, mp') \<Rightarrow> drain_hashes mp' hs
      | (Some tx, mp') \<Rightarrow> (let (batch, mp'') = drain_hashes mp' hs in (tx # batch, mp'')))"

text \<open>Both sorts are stable; the first is by descending weight.\<close>

definition drain_by_priority :: "mempool \<Rightarrow> nat \<Rightarrow> transaction list \<times> mempool" where
  "drain_by_priority mp n =
     (let entries = map (\<lambda>(h, tx). (weight tx, h)) (mp_txs mp);
          sorted_entries = sort_key (\<lambda>e. - uint (fst e)) entries
      in drain_hashes mp (map snd (take n sorted_entries)))"

definition drain_batch :: "mempool \<Rightarrow> nat \<Rightarrow> transaction list \<times> mempool" where
  "drain_batch mp n =
     (let entries = map (\<lambda>(h, tx). (tx_timestamp tx, h)) (mp_txs mp)
      in drain_hashes mp (map snd (take n (sort_key fst entries))))"

definition get_pending_for_address :: "mempool \<Rightarrow> address \<Rightarrow> transaction list" where
  "get_pending_for_address mp addr =
     (case map_of (mp_by_sender mp) addr of
        None \<Rightarrow> []
      | Some hs \<Rightarrow> List.map_filter (map_of (mp_txs mp)) hs)"

definition has_conflict :: "mempool \<Rightarrow> transaction \<Rightarrow> bool" where
  "has_conflict mp tx =
     (case map_of (mp_by_sender mp) (tx_sender tx) of
        None \<Rightarrow> False
      | Some hs \<Rightarrow>
          list_ex (\<lambda>h. case map_of (mp_txs mp) h of
              None \<Rightarrow> False
            | Some existing \<Rightarrow> tx_nonce existing = tx_nonce tx) hs)"

definition mempool_contains :: "mempool \<Rightarrow> transaction_hash \<Rightarrow> bool" where
  "mempool_contains mp hash = has_key (mp_txs mp) hash"

definition mempool_size_bytes :: "mempool \<Rightarrow> nat" where
  "mempool_size_bytes mp = length (mp_txs mp) * 500"

definition mempool_get :: "mempool \<Rightarrow> transaction_hash \<Rightarrow> transaction option" where
  "mempool_get mp hash = map_of (mp_txs mp) hash"

definition mempool_len :: "mempool \<Rightarrow> nat" where
  "mempool_len mp = length (mp_txs mp)"

definition mempool_is_empty :: "mempool \<Rightarrow> bool" where
  "mempool_is_empty mp = (mp_txs mp = [])"

definition default_mempool :: mempool where
  "default_mempool = mempool_new 100000"

text \<open>The ordered entry that the file declares beside its sorted drains.\<close>

record mempool_entry =
  me_tx :: transaction
  me_hash :: transaction_hash
  me_fee_weight :: u64
  me_inserted_at :: u64

datatype cmp_ordering = Less | Equal | Greater

definition entry_eq :: "mempool_entry \<Rightarrow> mempool_entry \<Rightarrow> bool" where
  "entry_eq a b = (me_hash a = me_hash b)"

definition cmp_u64 :: "u64 \<Rightarrow> u64 \<Rightarrow> cmp_ordering" where
  "cmp_u64 a b = (if a < b then Less else if a = b then Equal else Greater)"

definition entry_cmp :: "mempool_entry \<Rightarrow> mempool_entry \<Rightarrow> cmp_ordering" where
  "entry_cmp a b =
     (case cmp_u64 (me_fee_weight a) (me_fee_weight b) of
        Equal \<Rightarrow> cmp_u64 (me_inserted_at b) (me_inserted_at a)
      | c \<Rightarrow> c)"

text \<open>The order is the lexicographic one, higher weight and earlier arrival being greater, and it is not
  the equality of entries: two entries can compare as equal with different hashes.\<close>

lemma entry_order:
  "entry_cmp a b = Less \<longleftrightarrow> me_fee_weight a < me_fee_weight b \<or>
     me_fee_weight a = me_fee_weight b \<and> me_inserted_at b < me_inserted_at a"
  "entry_cmp a b = Equal \<longleftrightarrow> me_fee_weight a = me_fee_weight b \<and> me_inserted_at a = me_inserted_at b"
  "entry_cmp a b = Greater \<longleftrightarrow> entry_cmp b a = Less"
  by (auto simp: entry_cmp_def cmp_u64_def split: if_splits)

section \<open>The invariant\<close>

text \<open>The index lists, for each sender with pending transactions and for no other, exactly the
  hashes of its transactions; the counter is the sum of the fees (modulo \<open>2 ^ 64\<close>).\<close>

definition index_ok :: "(transaction_hash \<times> transaction) list \<Rightarrow> (address \<times> transaction_hash list) list \<Rightarrow> bool" where
  "index_ok txs idx \<longleftrightarrow>
     (\<forall>a hs. map_of idx a = Some hs \<longrightarrow> hs \<noteq> []) \<and>
     (\<forall>a h. h \<in> set (get_or [] idx a) \<longleftrightarrow> (\<exists>tx. map_of txs h = Some tx \<and> tx_sender tx = a))"

definition mempool_ok :: "crypto \<Rightarrow> mempool \<Rightarrow> bool" where
  "mempool_ok C mp \<longleftrightarrow>
     distinct (keys (mp_txs mp)) \<and>
     (\<forall>h tx. map_of (mp_txs mp) h = Some tx \<longrightarrow> tx_hash C tx = h) \<and>
     index_ok (mp_txs mp) (mp_by_sender mp) \<and>
     mp_total_fees mp = vsum tx_fee (mp_txs mp) \<and>
     length (mp_txs mp) \<le> mp_max_size mp"

lemma mempool_ok_new [simp]: "mempool_ok C (mempool_new n)"
  by (simp add: mempool_ok_def mempool_new_def index_ok_def)

lemma index_insert:
  assumes "index_ok txs idx" "map_of txs h = None"
  shows "index_ok (AList.update h tx txs)
    (AList.update (tx_sender tx) (List.insert h (get_or [] idx (tx_sender tx))) idx)"
  using assms
  by (auto simp: index_ok_def map_of_update get_or_update split: if_splits)

lemma index_remove:
  assumes "index_ok txs idx" "map_of txs h = Some tx"
  shows "index_ok (AList.delete h txs)
    (case map_of idx (tx_sender tx) of
       None \<Rightarrow> idx
     | Some hs \<Rightarrow> if removeAll h hs = [] then AList.delete (tx_sender tx) idx
                  else AList.update (tx_sender tx) (removeAll h hs) idx)"
proof -
  have "h \<in> set (get_or [] idx (tx_sender tx))" using assms by (auto simp: index_ok_def)
  then obtain hs where hs: "map_of idx (tx_sender tx) = Some hs" "h \<in> set hs"
    by (cases "map_of idx (tx_sender tx)") (auto simp: get_or_def)
  let ?idx = "if removeAll h hs = [] then AList.delete (tx_sender tx) idx
     else AList.update (tx_sender tx) (removeAll h hs) idx"
  have get: "get_or [] ?idx a = (if a = tx_sender tx then removeAll h hs else get_or [] idx a)" for a
    by (simp add: get_or_update get_or_delete)
  have "set hs = set (get_or [] idx (tx_sender tx))" using hs(1) by (simp add: get_or_def)
  moreover have "hs' \<noteq> []" if "map_of ?idx a = Some hs'" for a hs'
    using that assms(1) by (auto simp: index_ok_def map_of_update map_of_del split: if_splits)
  moreover have "x \<in> set (get_or [] ?idx a) \<longleftrightarrow>
      (\<exists>tx'. map_of (AList.delete h txs) x = Some tx' \<and> tx_sender tx' = a)" for a x
  proof -
    have "x \<in> set (get_or [] idx a) \<longleftrightarrow> (\<exists>tx'. map_of txs x = Some tx' \<and> tx_sender tx' = a)"
      using assms(1) by (simp add: index_ok_def)
    with assms(2) hs(1) show ?thesis
      unfolding get map_of_del by (cases "x = h"; cases "a = tx_sender tx") (auto simp: get_or_def)
  qed
  ultimately have "index_ok (AList.delete h txs) ?idx"
    unfolding index_ok_def by blast
  then show ?thesis by (simp add: hs(1))
qed

lemma mempool_insert_ok:
  assumes "mempool_ok C mp"
  shows "mempool_ok C (snd (mempool_insert C mp tx))"
proof (cases "length (mp_txs mp) \<ge> mp_max_size mp \<or> has_key (mp_txs mp) (tx_hash C tx)")
  case True
  with assms show ?thesis by (auto simp: mempool_insert_def Let_def)
next
  case False
  then have new: "map_of (mp_txs mp) (tx_hash C tx) = None" by (simp add: has_key_def)
  have "index_ok (AList.update (tx_hash C tx) tx (mp_txs mp)) (AList.update (tx_sender tx)
      (List.insert (tx_hash C tx) (get_or [] (mp_by_sender mp) (tx_sender tx))) (mp_by_sender mp))"
    using assms new by (intro index_insert) (simp_all add: mempool_ok_def)
  moreover have "vsum tx_fee (AList.update (tx_hash C tx) tx (mp_txs mp))
      = vsum tx_fee (mp_txs mp) + tx_fee tx"
    using vsum_update [of tx_fee "tx_hash C tx" tx "mp_txs mp"] new by simp
  ultimately show ?thesis
    using False assms
    by (simp add: mempool_ok_def mempool_insert_def Let_def length_update map_of_update)
qed

lemma mempool_remove_cases:
  obtains (absent) "map_of (mp_txs mp) h = None" "mempool_remove mp h = (None, mp)"
    | (present) tx mp' where "map_of (mp_txs mp) h = Some tx" "mempool_remove mp h = (Some tx, mp')"
      "mp_txs mp' = AList.delete h (mp_txs mp)"
  by (cases "map_of (mp_txs mp) h") (auto simp: mempool_remove_def Let_def)

lemma mempool_remove_ok:
  assumes "mempool_ok C mp"
  shows "mempool_ok C (snd (mempool_remove mp h))"
proof (cases "map_of (mp_txs mp) h")
  case None
  with assms show ?thesis by (simp add: mempool_remove_def)
next
  case (Some tx)
  have d: "distinct (keys (mp_txs mp))" using assms by (simp add: mempool_ok_def)
  have "index_ok (AList.delete h (mp_txs mp)) (mp_by_sender (snd (mempool_remove mp h)))"
    using index_remove [OF _ Some, of "mp_by_sender mp"] assms Some
    unfolding mempool_ok_def mempool_remove_def Let_def by simp
  moreover have "vsum tx_fee (mp_txs mp) = vsum tx_fee (AList.delete h (mp_txs mp)) + tx_fee tx"
    using vsum_delete [OF d, of tx_fee h] Some by simp
  moreover have "length (AList.delete h (mp_txs mp)) \<le> length (mp_txs mp)"
    using d by (simp add: length_delete)
  ultimately show ?thesis
    using assms Some by (simp add: mempool_ok_def mempool_remove_def Let_def map_of_del)
qed

lemma drain_hashes_ok: "mempool_ok C mp \<Longrightarrow> mempool_ok C (snd (drain_hashes mp hs))"
proof (induction mp hs rule: drain_hashes.induct)
  case (2 mp h hs)
  from mempool_remove_ok [OF 2(3), of h]
  show ?case
    by (cases rule: mempool_remove_cases [of mp h]) (use 2 in \<open>auto split: prod.split\<close>)
qed simp

section \<open>What a drain takes\<close>

lemma mset_delete:
  "distinct (keys m) \<Longrightarrow> map_of m k = Some v \<Longrightarrow> mset m = add_mset (k, v) (mset (AList.delete k m))"
proof (induction m)
  case (Cons p m)
  have "k \<notin> set (keys m) \<Longrightarrow> AList.delete k m = m"
    by (simp add: AList.delete_id)
  with Cons show ?case by (cases p) (auto split: if_splits)
qed simp

lemma drain_hashes_mset:
  assumes "distinct (keys (mp_txs mp))" "distinct hs" "set hs \<subseteq> set (keys (mp_txs mp))"
  shows "fst (drain_hashes mp hs) = map (\<lambda>h. the (map_of (mp_txs mp) h)) hs \<and>
    mset (mp_txs mp) = mset (map (\<lambda>h. (h, the (map_of (mp_txs mp) h))) hs) +
      mset (mp_txs (snd (drain_hashes mp hs)))"
  using assms
proof (induction hs arbitrary: mp)
  case (Cons h hs)
  then obtain tx where tx: "map_of (mp_txs mp) h = Some tx"
    by (metis insert_subset list.simps(15) map_of_eq_None_iff not_None_eq set_map)
  then obtain mp' where mp': "mempool_remove mp h = (Some tx, mp')"
    "mp_txs mp' = AList.delete h (mp_txs mp)"
    by (cases rule: mempool_remove_cases [of mp h]) auto
  have sub: "distinct (keys (mp_txs mp'))" "set hs \<subseteq> set (keys (mp_txs mp'))"
    using Cons.prems mp'(2) unfolding mp'(2) set_keys_delete
    by (auto intro: distinct_keys_delete)
  have same: "map_of (mp_txs mp') k = map_of (mp_txs mp) k" if "k \<in> set hs" for k
    using that Cons.prems(2) mp'(2) by (auto simp: map_of_del)
  from Cons.IH [OF sub(1) _ sub(2)] Cons.prems(2)
  have IH: "fst (drain_hashes mp' hs) = map (\<lambda>h. the (map_of (mp_txs mp') h)) hs"
    "mset (mp_txs mp') = mset (map (\<lambda>h. (h, the (map_of (mp_txs mp') h))) hs) +
      mset (mp_txs (snd (drain_hashes mp' hs)))" by simp_all
  have "mset (mp_txs mp) = add_mset (h, tx) (mset (mp_txs mp'))"
    using mset_delete [OF Cons.prems(1) tx] mp'(2) by simp
  moreover have "map (\<lambda>h. the (map_of (mp_txs mp') h)) hs = map (\<lambda>h. the (map_of (mp_txs mp) h)) hs"
    "map (\<lambda>h. (h, the (map_of (mp_txs mp') h))) hs = map (\<lambda>h. (h, the (map_of (mp_txs mp) h))) hs"
    using same by simp_all
  ultimately show ?case
    using IH mp'(1) tx by (simp add: split_beta)
qed simp

text \<open>A drain in the order of a sorted list of entries \<open>(key, hash)\<close>, where \<open>key\<close> is a measure of
  the transactions: what is taken is a prefix, what stays is the rest.\<close>

lemma drain_sorted:
  fixes m :: "transaction \<Rightarrow> 'k" and f :: "'k \<Rightarrow> 'l::linorder"
  assumes "distinct (keys (mp_txs mp))"
  defines "S \<equiv> sort_key (\<lambda>e. f (fst e)) (map (\<lambda>(h, tx). (m tx, h)) (mp_txs mp))"
  assumes "drain_hashes mp (map snd (take n S)) = (batch, mp')"
  shows "sorted (map (\<lambda>tx. f (m tx)) batch)" "length batch = min n (length (mp_txs mp))"
    "mset (map snd (mp_txs mp)) = mset batch + mset (map snd (mp_txs mp'))"
    "t \<in> set batch \<Longrightarrow> (h, u) \<in> set (mp_txs mp') \<Longrightarrow> f (m t) \<le> f (m u)"
proof -
  let ?E = "map (\<lambda>(h, tx). (m tx, h)) (mp_txs mp)"
  let ?tx = "\<lambda>h. the (map_of (mp_txs mp) h)"
  have mset_S: "mset S = mset ?E" by (simp add: S_def)
  have snd_E: "map snd ?E = keys (mp_txs mp)" by (simp add: comp_def split_beta)
  have dS: "distinct (map snd S)"
    using assms(1) mset_S snd_E by (metis mset_eq_imp_distinct_iff mset_map)
  have kS: "set (map snd S) = set (keys (mp_txs mp))"
    using mset_S snd_E by (metis mset_map set_mset_mset)
  have m: "fst e = m (?tx (snd e))" if "e \<in> set S" for e
    using that assms(1) mset_eq_setD [OF mset_S] by auto
  have all: "mset (mp_txs mp) = mset (map (\<lambda>e. (snd e, ?tx (snd e))) S)"
  proof -
    have "map (\<lambda>e. (snd e, ?tx (snd e))) ?E = mp_txs mp"
      using assms(1) by (auto simp: comp_def split_beta intro!: map_idI)
    moreover have "mset (map (\<lambda>e. (snd e, ?tx (snd e))) S) = mset (map (\<lambda>e. (snd e, ?tx (snd e))) ?E)"
      by (simp only: mset_map mset_S)
    ultimately show ?thesis by (simp only:)
  qed
  have "set (map snd (take n S)) \<subseteq> set (keys (mp_txs mp))"
    unfolding kS [symmetric] by (auto dest: in_set_takeD)
  moreover have "distinct (map snd (take n S))"
    using dS by (metis distinct_take take_map)
  ultimately have dr: "batch = map ?tx (map snd (take n S))"
    "mset (mp_txs mp) = mset (map (\<lambda>h. (h, ?tx h)) (map snd (take n S))) + mset (mp_txs mp')"
    using drain_hashes_mset [OF assms(1), of "map snd (take n S)"] assms(3) by auto
  have rest: "mset (mp_txs mp') = mset (map (\<lambda>e. (snd e, ?tx (snd e))) (drop n S))"
  proof -
    have "mset (map (\<lambda>e. (snd e, ?tx (snd e))) (take n S)) + mset (mp_txs mp') = mset (mp_txs mp)"
      using dr(2) by (simp add: comp_def)
    also have "\<dots> = mset (map (\<lambda>e. (snd e, ?tx (snd e))) (take n S @ drop n S))"
      using all by (simp only: append_take_drop_id)
    finally have "mset (map (\<lambda>e. (snd e, ?tx (snd e))) (take n S)) + mset (mp_txs mp')
        = mset (map (\<lambda>e. (snd e, ?tx (snd e))) (take n S)) +
          mset (map (\<lambda>e. (snd e, ?tx (snd e))) (drop n S))"
      by (simp only: map_append mset_append)
    then show ?thesis by (rule add_left_imp_eq)
  qed
  have "sorted (map (\<lambda>e. f (fst e)) (take n S @ drop n S))"
    by (simp add: S_def)
  then have sorted: "sorted (map (\<lambda>e. f (fst e)) (take n S))"
    "d \<in> set (take n S) \<Longrightarrow> e \<in> set (drop n S) \<Longrightarrow> f (fst d) \<le> f (fst e)" for d e
    unfolding map_append sorted_append by auto
  have "map (\<lambda>tx. f (m tx)) batch = map (\<lambda>e. f (fst e)) (take n S)"
    using m by (auto simp: dr(1) dest!: in_set_takeD)
  with sorted(1) show "sorted (map (\<lambda>tx. f (m tx)) batch)" by simp
  show "length batch = min n (length (mp_txs mp))" by (simp add: dr(1) S_def min.commute)
  show "mset (map snd (mp_txs mp)) = mset batch + mset (map snd (mp_txs mp'))"
    using dr by (simp add: image_mset.compositionality comp_def)
  assume "t \<in> set batch" "(h, u) \<in> set (mp_txs mp')"
  then obtain d e where "d \<in> set (take n S)" "t = ?tx (snd d)" "e \<in> set (drop n S)" "u = ?tx (snd e)"
    using dr(1) mset_eq_setD [OF rest] by auto
  with sorted(2) [of d e] m [OF in_set_takeD, of d n] m [OF in_set_dropD, of e n]
  show "f (m t) \<le> f (m u)" by simp
qed

lemma weight_order: "- uint (weight t) \<le> - uint (weight u) \<longleftrightarrow> weight u \<le> weight t"
  by (simp add: word_le_def)

text \<open>Every pool the operations produce from an empty one is well formed.\<close>

inductive mempool_run :: "crypto \<Rightarrow> mempool \<Rightarrow> bool" for C where
  run_new: "mempool_run C (mempool_new n)"
| run_insert: "mempool_run C mp \<Longrightarrow> mempool_run C (snd (mempool_insert C mp tx))"
| run_remove: "mempool_run C mp \<Longrightarrow> mempool_run C (snd (mempool_remove mp h))"
| run_priority: "mempool_run C mp \<Longrightarrow> mempool_run C (snd (drain_by_priority mp n))"
| run_batch: "mempool_run C mp \<Longrightarrow> mempool_run C (snd (drain_batch mp n))"

lemma mempool_run_ok: "mempool_run C mp \<Longrightarrow> mempool_ok C mp"
  by (induction rule: mempool_run.induct)
    (auto simp: mempool_insert_ok mempool_remove_ok drain_hashes_ok drain_by_priority_def
      drain_batch_def Let_def)

lemma pending_transactions:
  assumes "mempool_ok C mp"
  shows "set (get_pending_for_address mp a) = {tx. tx \<in> set (map snd (mp_txs mp)) \<and> tx_sender tx = a}"
proof -
  have d: "distinct (keys (mp_txs mp))" and idx: "index_ok (mp_txs mp) (mp_by_sender mp)"
    using assms by (simp_all add: mempool_ok_def)
  have pend: "set (get_pending_for_address mp a)
      = {tx. \<exists>h\<in>set (get_or [] (mp_by_sender mp) a). map_of (mp_txs mp) h = Some tx}"
    by (auto simp: get_pending_for_address_def get_or_def List.map_filter_def image_iff
        split: option.split) force+
  have "tx \<in> set (map snd (mp_txs mp)) \<longleftrightarrow> (\<exists>h. map_of (mp_txs mp) h = Some tx)" for tx
    using d by (auto intro: rev_image_eqI)
  then show ?thesis unfolding pend using idx by (auto simp: index_ok_def)
qed

section \<open>Properties\<close>

text \<open>Every mempool the operations produce keeps its bookkeeping: transactions are filed under
  their own hash, the index lists for each sender exactly its pending transactions and keeps no
  empty entry, the fee counter is the sum of the pending fees, and the size bound holds.\<close>

theorem mempool_bookkeeping:
  assumes "mempool_run C mp"
  shows "mempool_ok C mp"
  using assms by (rule mempool_run_ok)

definition demo_mempool :: mempool where
  "demo_mempool = snd (mempool_insert demo_crypto (snd (mempool_insert demo_crypto (mempool_new 2) demo_tx))
     (demo_tx\<lparr>tx_fee := 3000000, tx_signature := Signature (replicate 64 9)\<rparr>))"

lemma demo_mempool_run: "mempool_run demo_crypto demo_mempool"
  unfolding demo_mempool_def by (intro mempool_run.intros)

lemma demo_mempool_size: "length (mp_txs demo_mempool) = 2"
  by code_simp

theorem mempool_bookkeeping_witness: "mempool_ok demo_crypto demo_mempool"
  by (rule mempool_bookkeeping [OF demo_mempool_run])

text \<open>\<open>drain_by_priority\<close> takes the heaviest transactions: at most \<open>count\<close> of them, in
  descending weight, none lighter than one it leaves; together with what stays they are exactly
  what was there, and the bookkeeping holds for what stays.\<close>

theorem drain_takes_heaviest:
  assumes "mempool_ok C mp"
  shows "let (batch, mp') = drain_by_priority mp n in
    length batch = min n (length (mp_txs mp)) \<and>
    sorted_wrt (\<lambda>t u. weight u \<le> weight t) batch \<and>
    (\<forall>t \<in> set batch. \<forall>(h, u) \<in> set (mp_txs mp'). weight u \<le> weight t) \<and>
    mset (map snd (mp_txs mp)) = mset batch + mset (map snd (mp_txs mp')) \<and> mempool_ok C mp'"
proof -
  let ?S = "sort_key (\<lambda>e. - uint (fst e)) (map (\<lambda>(h, tx). (weight tx, h)) (mp_txs mp))"
  obtain batch mp' where dr: "drain_hashes mp (map snd (take n ?S)) = (batch, mp')" by fastforce
  have d: "distinct (keys (mp_txs mp))" using assms by (simp add: mempool_ok_def)
  note facts = drain_sorted [OF d dr]
  have "sorted_wrt (\<lambda>t u. weight u \<le> weight t) batch"
    using facts(1) by (simp add: sorted_map weight_order [symmetric])
  moreover have "\<forall>t \<in> set batch. \<forall>(h, u) \<in> set (mp_txs mp'). weight u \<le> weight t"
    using facts(4) weight_order by blast
  moreover have "mempool_ok C mp'"
    using drain_hashes_ok [OF assms, of "map snd (take n ?S)"] dr by simp
  moreover have "drain_by_priority mp n = (batch, mp')"
    using dr by (simp add: drain_by_priority_def Let_def)
  ultimately show ?thesis using facts(2,3) by simp
qed

theorem drain_takes_heaviest_witness:
  "length (fst (drain_by_priority demo_mempool 1)) = 1"
  using drain_takes_heaviest [OF mempool_run_ok [OF demo_mempool_run], of 1]
  by (simp add: split_beta Let_def demo_mempool_size)

text \<open>\<open>has_conflict\<close> holds exactly when a pending transaction has the sender and the nonce of
  the given one, and \<open>get_pending_for_address\<close> lists exactly the sender's pending transactions.\<close>

theorem has_conflict_exact:
  assumes "mempool_ok C mp"
  shows "(has_conflict mp tx \<longleftrightarrow>
      (\<exists>t \<in> set (map snd (mp_txs mp)). tx_sender t = tx_sender tx \<and> tx_nonce t = tx_nonce tx)) \<and>
    set (get_pending_for_address mp a) = {t. t \<in> set (map snd (mp_txs mp)) \<and> tx_sender t = a}"
proof -
  have "has_conflict mp tx \<longleftrightarrow>
      (\<exists>t\<in>set (get_pending_for_address mp (tx_sender tx)). tx_nonce t = tx_nonce tx)"
    by (auto simp: has_conflict_def get_pending_for_address_def List.map_filter_def list_ex_iff
        split: option.splits)
  then show ?thesis using pending_transactions [OF assms] by auto
qed

theorem has_conflict_exact_witness: "has_conflict demo_mempool (demo_tx\<lparr>tx_amount := 1\<rparr>)"
proof -
  have "\<exists>t \<in> set (map snd (mp_txs demo_mempool)).
      tx_sender t = tx_sender (demo_tx\<lparr>tx_amount := 1\<rparr>) \<and> tx_nonce t = tx_nonce (demo_tx\<lparr>tx_amount := 1\<rparr>)"
    by code_simp
  with has_conflict_exact [OF mempool_run_ok [OF demo_mempool_run]] show ?thesis by blast
qed

end
