(* ===== verification/RateLimit.thy ===== *)
theory RateLimit
  imports Addresses
begin

text \<open>
  \<open>relyo-node/src/rate_limiter.rs\<close>: the sliding-window limiter on submissions per address.
  An \<open>Instant\<close> is an integer number of nanoseconds, given by the caller.
\<close>

record rate_limiter =
  rl_windows :: "(address \<times> int list) list"
  rl_max_tps :: u32

definition limiter_new :: "u32 \<Rightarrow> rate_limiter" where
  "limiter_new max_tps = \<lparr>rl_windows = [], rl_max_tps = max_tps\<rparr>"

definition ONE_SEC :: int where
  "ONE_SEC = 1000000000"

definition limiter_check :: "rate_limiter \<Rightarrow> address \<Rightarrow> int \<Rightarrow> bool \<times> rate_limiter" where
  "limiter_check rl addr now =
     (let one_sec_ago = now - ONE_SEC;
          entry = filter (\<lambda>t. t > one_sec_ago) (get_or [] (rl_windows rl) addr)
      in if length entry \<ge> unat (rl_max_tps rl)
         then (False, rl\<lparr>rl_windows := AList.update addr entry (rl_windows rl)\<rparr>)
         else (True, rl\<lparr>rl_windows := AList.update addr (entry @ [now]) (rl_windows rl)\<rparr>))"

definition limiter_cleanup :: "rate_limiter \<Rightarrow> int \<Rightarrow> rate_limiter" where
  "limiter_cleanup rl now =
     (let one_sec_ago = now - ONE_SEC
      in rl\<lparr>rl_windows := filter (\<lambda>(_, v). v \<noteq> [])
              (map (\<lambda>(a, v). (a, filter (\<lambda>t. t > one_sec_ago) v)) (rl_windows rl))\<rparr>)"

section \<open>Runs of the limiter\<close>

text \<open>The limiter's runs over a monotonic clock, with the admitted submissions beside the state.\<close>

inductive limiter_run :: "u32 \<Rightarrow> rate_limiter \<Rightarrow> (address \<times> int) list \<Rightarrow> int \<Rightarrow> bool" for m where
  run_new: "limiter_run m (limiter_new m) [] t"
| run_check: "limiter_run m rl hist t \<Longrightarrow> t \<le> now \<Longrightarrow> limiter_check rl a now = (allowed, rl') \<Longrightarrow>
    limiter_run m rl' (if allowed then hist @ [(a, now)] else hist) now"
| run_cleanup: "limiter_run m rl hist t \<Longrightarrow> t \<le> now \<Longrightarrow> limiter_run m (limiter_cleanup rl now) hist now"

definition times :: "address \<Rightarrow> (address \<times> int) list \<Rightarrow> int list" where
  "times a hist = map snd (filter (\<lambda>p. fst p = a) hist)"

lemma times_simps [simp]: "times a [] = []"
  "times a (hist @ [(b, t)]) = (if b = a then times a hist @ [t] else times a hist)"
  by (simp_all add: times_def)

definition recent :: "int \<Rightarrow> int list \<Rightarrow> int list" where
  "recent now ts = filter (\<lambda>t. t > now - ONE_SEC) ts"

lemma recent_simps [simp]: "recent now [] = []" "recent now (ts @ us) = recent now ts @ recent now us"
  by (simp_all add: recent_def)

lemma recent_later: "t \<le> now \<Longrightarrow> recent now (recent t ts) = recent now ts"
  unfolding recent_def filter_filter by (rule filter_cong) auto

lemma recent_now [simp]: "recent now [now] = [now]"
  by (simp add: recent_def ONE_SEC_def)

lemma get_or_cleanup:
  "distinct (keys w) \<Longrightarrow>
     get_or [] (filter (\<lambda>(_, v). v \<noteq> []) (map (\<lambda>(a, v). (a, filter P v)) w)) a = filter P (get_or [] w a)"
proof (induction w)
  case (Cons p w)
  obtain b v where p: "p = (b, v)" by (cases p)
  have "b \<notin> set (keys w) \<Longrightarrow> map_of w b = None" by (simp add: map_of_eq_None_iff)
  with Cons show ?case
    by (cases "a = b") (auto simp: p get_or_def split: option.splits dest: map_of_SomeD)
qed simp

definition window_ok :: "u32 \<Rightarrow> (address \<times> int) list \<Rightarrow> bool" where
  "window_ok m hist \<longleftrightarrow>
     (\<forall>a s. length (filter (\<lambda>u. s < u \<and> u \<le> s + ONE_SEC) (times a hist)) \<le> unat m)"

text \<open>The invariant: every entry holds the admitted submissions of the last second.\<close>

definition limiter_ok :: "u32 \<Rightarrow> rate_limiter \<Rightarrow> (address \<times> int) list \<Rightarrow> int \<Rightarrow> bool" where
  "limiter_ok m rl hist t \<longleftrightarrow>
     rl_max_tps rl = m \<and> distinct (keys (rl_windows rl)) \<and> (\<forall>p\<in>set hist. snd p \<le> t) \<and>
     (\<forall>a. recent t (get_or [] (rl_windows rl) a) = recent t (times a hist)) \<and> window_ok m hist"

lemma distinct_keys_cleanup:
  "distinct (keys w) \<Longrightarrow> distinct (keys (filter P (map (\<lambda>(a, v). (a, f v)) w)))"
  by (induction w) (auto simp: image_iff)

lemma limiter_check_ok:
  assumes ok: "limiter_ok m rl hist t" and "t \<le> now" and check: "limiter_check rl a now = (allowed, rl')"
  shows "limiter_ok m rl' (if allowed then hist @ [(a, now)] else hist) now"
proof -
  let ?e = "recent now (get_or [] (rl_windows rl) a)"
  have later: "recent now (get_or [] (rl_windows rl) b) = recent now (times b hist)" for b
    using ok recent_later [OF \<open>t \<le> now\<close>] unfolding limiter_ok_def by metis
  have old: "\<forall>p\<in>set hist. snd p \<le> now" using ok \<open>t \<le> now\<close> by (auto simp: limiter_ok_def)
  have rl': "rl' = rl\<lparr>rl_windows := AList.update a (if allowed then ?e @ [now] else ?e) (rl_windows rl)\<rparr>"
    and allowed: "allowed \<longleftrightarrow> length ?e < unat m"
    using check ok by (auto simp: limiter_check_def limiter_ok_def recent_def Let_def split: if_splits)
  have "recent now (get_or [] (rl_windows rl') b) = recent now (times b (if allowed then hist @ [(a, now)] else hist))" for b
    by (auto simp: rl' amaps later recent_later)
  moreover have "window_ok m (hist @ [(a, now)])" if allowed
    unfolding window_ok_def
  proof (intro allI)
    fix b s
    let ?in = "\<lambda>u. s < u \<and> u \<le> s + ONE_SEC"
    have before: "length (filter ?in (times b hist)) \<le> unat m" using ok by (simp add: limiter_ok_def window_ok_def)
    show "length (filter ?in (times b (hist @ [(a, now)]))) \<le> unat m"
    proof (cases "b = a \<and> ?in now")
      case True
      have "length (filter ?in (times a hist)) \<le> length (recent now (times a hist))"
      proof -
        have "filter ?in (times a hist) = filter ?in (recent now (times a hist))"
          unfolding recent_def filter_filter using True by (intro filter_cong) auto
        then show ?thesis by simp
      qed
      with True that allowed later show ?thesis by simp
    qed (use before in auto)
  qed
  ultimately show ?thesis
    using ok old by (auto simp: limiter_ok_def rl')
qed

lemma limiter_run_ok: "limiter_run m rl hist t \<Longrightarrow> limiter_ok m rl hist t"
proof (induction rule: limiter_run.induct)
  case (run_new t)
  then show ?case by (simp add: limiter_ok_def limiter_new_def window_ok_def)
next
  case (run_check rl hist t now a allowed rl')
  then show ?case using limiter_check_ok by blast
next
  case (run_cleanup rl hist t now)
  then have "recent now (get_or [] (rl_windows rl) a) = recent now (times a hist)" for a
    using recent_later [OF run_cleanup.hyps(2)] unfolding limiter_ok_def by metis
  with run_cleanup show ?case
    by (auto simp: limiter_ok_def limiter_cleanup_def Let_def get_or_cleanup distinct_keys_cleanup recent_def)
qed

text \<open>No address is admitted more than `max_tps` times in any second: for every run of checks and cleanups over a monotonic clock, every window of one second contains at most `max_tps` admitted submissions of an address, and the limiter refuses a submission only when the last second already holds `max_tps` of them.\<close>

theorem rate_limit_bound:
  assumes "limiter_run m rl hist t" "t \<le> now"
  shows "length (filter (\<lambda>p. fst p = a \<and> s < snd p \<and> snd p \<le> s + ONE_SEC) hist) \<le> unat m \<and>
    (fst (limiter_check rl a now) \<longleftrightarrow>
      length (filter (\<lambda>p. fst p = a \<and> now - ONE_SEC < snd p) hist) < unat m)"
proof -
  have ok: "limiter_ok m rl hist t" using limiter_run_ok [OF assms(1)] .
  have len: "length (filter Q (times a hist)) = length (filter (\<lambda>p. fst p = a \<and> Q (snd p)) hist)" for Q
    by (induction hist) (auto simp: times_def)
  have "length (filter (\<lambda>u. s < u \<and> u \<le> s + ONE_SEC) (times a hist)) \<le> unat m"
    using ok by (simp add: limiter_ok_def window_ok_def)
  moreover have "recent now (get_or [] (rl_windows rl) a) = recent now (times a hist)"
    using ok recent_later [OF assms(2)] unfolding limiter_ok_def by metis
  then have "fst (limiter_check rl a now) \<longleftrightarrow> length (filter (\<lambda>u. now - ONE_SEC < u) (times a hist)) < unat m"
    using ok by (simp add: limiter_check_def limiter_ok_def recent_def Let_def not_le)
  ultimately show ?thesis unfolding len by blast
qed

lemma demo_limiter_run:
  "limiter_run 1 (snd (limiter_check (limiter_new 1) (Address ''a'') 5)) [(Address ''a'', 5)] 5"
  using run_check [OF run_new [of 1 0], of 5 "Address ''a''" True]
  by (simp add: limiter_check_def limiter_new_def Let_def)

theorem rate_limit_bound_witness:
  "\<not> fst (limiter_check (snd (limiter_check (limiter_new 1) (Address ''a'') 5)) (Address ''a'') 1000000004)"
  using rate_limit_bound [OF demo_limiter_run, of 1000000004 "Address ''a''" 0] by (simp add: ONE_SEC_def)

end
