(* ===== verification/Node.thy ===== *)
theory Node
  imports NetConfig Mempool RateLimit "HOL-Library.Sublist"
begin

text \<open>
  \<open>relyo-node/src/node.rs\<close> and \<open>genesis.rs\<close>: a full node, composed of the graph, the mempool, the
  consensus engine and the rate limiter.  The graph is shared (\<open>Arc\<close>) by the node and its engine:
  the model keeps it once, in the engine, and \<open>node_dag\<close> reads it.  \<open>tx_sender\<close> is the list of
  transactions sent to the broadcast channel.  Starting the two servers is not modelled.
\<close>

text \<open>The clocks a handler reads: the monotonic one and the wall clock in milliseconds.\<close>

record clock =
  ck_instant :: nat
  ck_ms :: u64

record relyo_node =
  rn_config :: node_config
  rn_mempool :: mempool
  rn_consensus :: consensus_engine
  rn_limiter :: rate_limiter
  rn_tx_sender :: "transaction list"
  rn_node_id :: node_id
  rn_started_at :: u64

definition node_dag :: "relyo_node \<Rightarrow> dag_graph" where
  "node_dag n = ce_dag (rn_consensus n)"

definition with_dag :: "relyo_node \<Rightarrow> dag_graph \<Rightarrow> relyo_node" where
  "with_dag n d = n\<lparr>rn_consensus := (rn_consensus n)\<lparr>ce_dag := d\<rparr>\<rparr>"

definition node_new :: "u64 \<Rightarrow> node_config \<Rightarrow> relyo_node" where
  "node_new now config =
     (let node = NodeId (nd_node_name config);
          dag = graph_new ledger_new tips_new conflicts_new
      in \<lparr>rn_config = config, rn_mempool = mempool_new (nd_mempool_max_size config),
          rn_consensus = engine_new dag (nd_consensus config) node,
          rn_limiter = limiter_new (nd_rate_limit_tps config), rn_tx_sender = [], rn_node_id = node,
          rn_started_at = now\<rparr>)"

section \<open>Genesis\<close>

definition genesis_transaction :: "crypto \<Rightarrow> keypair \<Rightarrow> transaction" where
  "genesis_transaction C kp =
     (let genesis_addr = genesis_address C;
          tx = \<lparr>tx_type = Genesis, tx_sender = genesis_addr, tx_receiver = genesis_addr, tx_amount = 0,
                tx_fee = 0, tx_timestamp = 0, tx_nonce = 0, tx_parent_1 = zero_hash,
                tx_parent_2 = zero_hash, tx_sender_pubkey = kp_public_key kp,
                tx_signature = Signature (replicate 64 0),
                tx_data = string_bytes ''Relyo Genesis: Let there be light''\<rparr>
      in tx\<lparr>tx_signature := sign C kp (signable_bytes tx)\<rparr>)"

definition create_genesis ::
    "crypto \<Rightarrow> nat \<Rightarrow> dag_graph \<Rightarrow> keypair \<Rightarrow> transaction_hash list \<times> dag_graph" where
  "create_genesis C now dag kp =
     (case insert_genesis C now dag (genesis_transaction C kp) of
        (Inr hash, dag') \<Rightarrow> ([hash], dag')
      | (Inl _, dag') \<Rightarrow> ([], dag'))"

definition genesis_keypair :: "crypto \<Rightarrow> keypair" where
  "genesis_keypair C = from_secret C (SecretKey (sha3_256 C (string_bytes ''relyo-genesis-v1'')))"

definition init_genesis :: "crypto \<Rightarrow> clock \<Rightarrow> relyo_node \<Rightarrow> relyo_node" where
  "init_genesis C ck n =
     with_dag n (snd (create_genesis C (ck_instant ck) (node_dag n) (genesis_keypair C)))"

section \<open>Transactions\<close>

definition supply_message :: "u64 \<Rightarrow> u64 \<Rightarrow> string" where
  "supply_message circulating amount =
     ''supply cap exceeded: '' @ show_word circulating @ '' + '' @ show_word amount @ '' > '' @ show_word TOTAL_SUPPLY"

text \<open>The circulating total and the amount are added with the wrapping \<open>+\<close>.\<close>

definition submit_transaction ::
    "crypto \<Rightarrow> clock \<Rightarrow> relyo_node \<Rightarrow> transaction \<Rightarrow> transaction_hash result \<times> relyo_node" where
  "submit_transaction C ck n tx =
     (let (allowed, limiter) = limiter_check (rn_limiter n) (tx_sender tx) (int (ck_instant ck));
          n1 = n\<lparr>rn_limiter := limiter\<rparr>;
          circulating = total_circulating (g_state (node_dag n))
      in if \<not> allowed then (Inl (RateLimitExceeded (as_str (tx_sender tx))), n1)
         else if circulating + tx_amount tx > TOTAL_SUPPLY
           then (Inl (SupplyCapExceeded (supply_message circulating (tx_amount tx))), n1)
         else case dag_insert C (ck_instant ck) (node_dag n) tx of
           (Inl e, dag) \<Rightarrow> (Inl e, with_dag n1 dag)
         | (Inr hash, dag) \<Rightarrow>
             (Inr hash, (with_dag n1 dag)\<lparr>rn_tx_sender := rn_tx_sender n @ [tx]\<rparr>))"

text \<open>The loop over the drained batch: refused transactions are dropped.\<close>

fun insert_batch ::
    "crypto \<Rightarrow> nat \<Rightarrow> dag_graph \<Rightarrow> transaction list \<Rightarrow> transaction_hash list \<times> dag_graph" where
  "insert_batch C now dag [] = ([], dag)"
| "insert_batch C now dag (tx # txs) =
     (case dag_insert C now dag tx of
        (Inl _, dag') \<Rightarrow> insert_batch C now dag' txs
      | (Inr hash, dag') \<Rightarrow>
          (let (hashes, dag'') = insert_batch C now dag' txs in (hash # hashes, dag'')))"

definition process_mempool_batch ::
    "crypto \<Rightarrow> clock \<Rightarrow> relyo_node \<Rightarrow> nat \<Rightarrow> transaction_hash list \<times> relyo_node" where
  "process_mempool_batch C ck n batch_size =
     (let (batch, mempool) = drain_batch (rn_mempool n) batch_size;
          (hashes, dag) = insert_batch C (ck_instant ck) (node_dag n) batch
      in (hashes, (with_dag n dag)\<lparr>rn_mempool := mempool\<rparr>))"

definition uptime_secs :: "u64 \<Rightarrow> relyo_node \<Rightarrow> u64" where
  "uptime_secs now n = (now - rn_started_at n) div 1000"

definition dag_size :: "relyo_node \<Rightarrow> u64" where
  "dag_size n = g_total_count (node_dag n)"

definition mempool_size :: "relyo_node \<Rightarrow> nat" where
  "mempool_size n = length (mp_txs (rn_mempool n))"

lemma node_parts [simp]:
  "node_dag (with_dag n d) = d" "node_dag (n\<lparr>rn_limiter := rl\<rparr>) = node_dag n"
  "node_dag (n\<lparr>rn_tx_sender := ts\<rparr>) = node_dag n" "node_dag (n\<lparr>rn_mempool := mp\<rparr>) = node_dag n"
  "rn_mempool (with_dag n d) = rn_mempool n" "rn_limiter (with_dag n d) = rn_limiter n"
  "rn_tx_sender (with_dag n d) = rn_tx_sender n" "rn_config (with_dag n d) = rn_config n"
  "rn_node_id (with_dag n d) = rn_node_id n" "rn_started_at (with_dag n d) = rn_started_at n"
  by (simp_all add: node_dag_def with_dag_def)

section \<open>The ledger of a node against an abstract ledger\<close>

text \<open>
  The specification: balances and nonces of all addresses as functions on natural numbers, one
  atomic transfer per accepted transaction.
\<close>

record abstract_ledger =
  al_balance :: "address \<Rightarrow> nat"
  al_nonce :: "address \<Rightarrow> nat"

definition abs_ledger :: "dag_graph \<Rightarrow> abstract_ledger" where
  "abs_ledger g =
     \<lparr>al_balance = (\<lambda>a. unat (balance (g_state g) a)), al_nonce = (\<lambda>a. unat (nonce (g_state g) a))\<rparr>"

definition spec_enabled :: "abstract_ledger \<Rightarrow> transaction \<Rightarrow> bool" where
  "spec_enabled L tx \<longleftrightarrow>
     unat (tx_amount tx) + unat (tx_fee tx) \<le> al_balance L (tx_sender tx) \<and>
     unat (tx_nonce tx) = (al_nonce L (tx_sender tx) + 1) mod 2 ^ 64"

definition spec_transfer :: "abstract_ledger \<Rightarrow> transaction \<Rightarrow> abstract_ledger" where
  "spec_transfer L tx =
     (let debited = (al_balance L)(tx_sender tx :=
            al_balance L (tx_sender tx) - (unat (tx_amount tx) + unat (tx_fee tx)))
      in \<lparr>al_balance = debited(tx_receiver tx := debited (tx_receiver tx) + unat (tx_amount tx)),
          al_nonce = (al_nonce L)(tx_sender tx := unat (tx_nonce tx))\<rparr>)"

fun spec_run :: "abstract_ledger \<Rightarrow> transaction list \<Rightarrow> abstract_ledger option" where
  "spec_run L [] = Some L"
| "spec_run L (tx # txs) = (if spec_enabled L tx then spec_run (spec_transfer L tx) txs else None)"

lemma abs_accept:
  assumes acc: "acceptable C g tx" and small: "ledger_total (g_state g) < 2 ^ 64"
  shows "spec_enabled (abs_ledger g) tx"
    and "abs_ledger (accepted C now (lock_sender g tx) tx) = spec_transfer (abs_ledger g) tx"
    and "ledger_total (g_state (accepted C now (lock_sender g tx) tx)) + unat (tx_fee tx) = ledger_total (g_state g)"
proof -
  let ?s = "tx_sender tx" and ?r = "tx_receiver tx" and ?v = "unat (tx_amount tx)" and ?f = "unat (tx_fee tx)"
  have ok: "?v + ?f < 2 ^ 64" "tx_amount tx + tx_fee tx \<le> balance (g_state g) ?s"
    "tx_nonce tx = nonce (g_state g) ?s + 1"
    using acc by (simp_all add: acceptable_def)
  have "unat (tx_amount tx + tx_fee tx) = ?v + ?f" using ok(1) by (intro unat_add_no_wrap) simp
  then have funds: "?v + ?f \<le> unat (balance (g_state g) ?s)" using ok(2) by (simp add: word_le_unat)
  have "unat (tx_nonce tx) = (unat (nonce (g_state g) ?s) + 1) mod 2 ^ 64" by (simp add: ok(3) unat_word_ariths)
  with funds show "spec_enabled (abs_ledger g) tx" by (simp add: spec_enabled_def abs_ledger_def)
  have "balance_total (g_state g) < 2 ^ 64" using small by (simp add: ledger_total_def)
  note moved = ledger_accounts.payment(2) [OF this ok(1,2), of ?r]
  have "unat (balance (pay (g_state g) tx) a)
      = (if a = ?s then unat (balance (g_state g) a) - (?v + ?f) else unat (balance (g_state g) a))
        + (if a = ?r then ?v else 0)" for a
    using moved [of a] funds unfolding pay_def by (auto split: if_splits)
  moreover have "nonce (pay (g_state g) tx) = (nonce (g_state g))(?s := tx_nonce tx)"
    by (simp add: pay_def fun_eq_iff ledger_accounts.payment_nonce ok(3))
  ultimately show "abs_ledger (accepted C now (lock_sender g tx) tx) = spec_transfer (abs_ledger g) tx"
    by (simp add: abs_ledger_def spec_transfer_def Let_def fun_eq_iff)
  show "ledger_total (g_state (accepted C now (lock_sender g tx) tx)) + ?f = ledger_total (g_state g)"
    using pay_total [OF small ok(1,2)] by simp
qed

lemma abs_lock [simp]: "abs_ledger (lock_sender g tx) = abs_ledger g"
  by (simp add: abs_ledger_def)

lemma insert_batch_refines:
  assumes "insert_batch C now g txs = (hashes, g')" "ledger_total (g_state g) < 2 ^ 64"
  shows "\<exists>acc. subseq acc txs \<and> hashes = map (tx_hash C) acc \<and> spec_run (abs_ledger g) acc = Some (abs_ledger g')"
  using assms
proof (induction txs arbitrary: g hashes)
  case (Cons tx txs)
  show ?case
  proof (cases "acceptable C g tx")
    case True
    let ?g = "accepted C now (lock_sender g tx) tx"
    obtain hs where hs: "insert_batch C now ?g txs = (hs, g')" "hashes = tx_hash C tx # hs"
      using Cons.prems(1) by (auto simp: dag_insert_acceptable [OF True] split: prod.splits)
    have "ledger_total (g_state ?g) < 2 ^ 64"
      using abs_accept(3) [OF True Cons.prems(2), of now] Cons.prems(2) by linarith
    from Cons.IH [OF hs(1) this] obtain acc where acc: "subseq acc txs" "hs = map (tx_hash C) acc"
      "spec_run (abs_ledger ?g) acc = Some (abs_ledger g')" by blast
    with abs_accept [OF True Cons.prems(2)] hs(2) show ?thesis
      by (intro exI [of _ "tx # acc"]) simp
  next
    case False
    obtain r d where r: "dag_insert C now g tx = (r, d)" by fastforce
    with False obtain e where e: "r = Inl e" by (cases r) (auto simp: dag_insert_Inr)
    have d: "d \<in> {g, lock_sender g tx}" using dag_insert_Inl r e by blast
    then have same: "g_state d = g_state g" "abs_ledger d = abs_ledger g" by auto
    have "insert_batch C now d txs = (hashes, g')" using Cons.prems(1) by (simp add: r e)
    from Cons.IH [OF this] Cons.prems(2) same obtain acc where "subseq acc txs" "hashes = map (tx_hash C) acc"
      "spec_run (abs_ledger g) acc = Some (abs_ledger g')" by auto
    then show ?thesis by (intro exI [of _ acc] conjI list_emb_Cons)
  qed
qed simp

text \<open>C5: Processing a mempool batch refines the abstract ledger, when the funds of the node's ledger (all
  balances, stakes and pending unstakes) sum to less than \<open>2 ^ 64\<close>: the returned hashes are those of a
  subsequence of the drained batch, each of these transfers was enabled by the balance and nonce of its
  sender when its turn came, and the balances and nonces of all addresses afterwards are the result of
  applying exactly these transfers in order to exact balances.\<close>

theorem mempool_batch_refines:
  assumes "process_mempool_batch C ck n k = (hashes, n')" "ledger_total (g_state (node_dag n)) < 2 ^ 64"
  shows "\<exists>acc. subseq acc (fst (drain_batch (rn_mempool n) k)) \<and> hashes = map (tx_hash C) acc \<and>
    spec_run (abs_ledger (node_dag n)) acc = Some (abs_ledger (node_dag n'))"
proof -
  obtain batch mp g' where "drain_batch (rn_mempool n) k = (batch, mp)"
    and ins: "insert_batch C (ck_instant ck) (node_dag n) batch = (hashes, g')"
    and n': "n' = (with_dag n g')\<lparr>rn_mempool := mp\<rparr>"
    using assms(1) by (auto simp: process_mempool_batch_def split: prod.splits)
  then show ?thesis
    using insert_batch_refines [OF ins assms(2)] by simp
qed

lemma submit_cases:
  assumes "submit_transaction C ck n tx = (r, n')"
  shows "rn_mempool n' = rn_mempool n \<and>
    (if fst (limiter_check (rn_limiter n) (tx_sender tx) (int (ck_instant ck))) \<and> acceptable C (node_dag n) tx
     then r = Inr (tx_hash C tx) \<and>
       node_dag n' = accepted C (ck_instant ck) (lock_sender (node_dag n) tx) tx \<and>
       rn_tx_sender n' = rn_tx_sender n @ [tx]
     else (\<exists>e. r = Inl e) \<and> rn_tx_sender n' = rn_tx_sender n \<and>
       g_state (node_dag n') = g_state (node_dag n) \<and> g_nodes (node_dag n') = g_nodes (node_dag n))"
proof -
  let ?total = "total_circulating (g_state (node_dag n))"
  obtain ok rl where lim: "limiter_check (rn_limiter n) (tx_sender tx) (int (ck_instant ck)) = (ok, rl)" by fastforce
  obtain q d where ins: "dag_insert C (ck_instant ck) (node_dag n) tx = (q, d)" by fastforce
  have cap: "?total + tx_amount tx \<le> TOTAL_SUPPLY" if "acceptable C (node_dag n) tx"
  proof -
    have "sat_add ?total (tx_amount tx) \<le> SUPPLY_CAP" using that by (simp add: acceptable_def)
    then have "min (unat ?total + unat (tx_amount tx)) (2 ^ 64 - 1) \<le> 2500000000000000000"
      by (simp add: word_le_unat unat_sat_add SUPPLY_CAP_def RLY_UNIT_def)
    then have small: "unat ?total + unat (tx_amount tx) \<le> 2500000000000000000" by (simp add: min_def split: if_splits)
    then have "unat (?total + tx_amount tx) = unat ?total + unat (tx_amount tx)" by (intro unat_add_no_wrap) simp
    with small show ?thesis by (simp add: word_le_unat)
  qed
  have sub: "(r, n') =
      (if \<not> ok then (Inl (RateLimitExceeded (as_str (tx_sender tx))), n\<lparr>rn_limiter := rl\<rparr>)
       else if \<not> ?total + tx_amount tx \<le> TOTAL_SUPPLY
         then (Inl (SupplyCapExceeded (supply_message ?total (tx_amount tx))), n\<lparr>rn_limiter := rl\<rparr>)
       else case q of
         Inl e \<Rightarrow> (Inl e, with_dag (n\<lparr>rn_limiter := rl\<rparr>) d)
       | Inr h \<Rightarrow> (Inr h, (with_dag (n\<lparr>rn_limiter := rl\<rparr>) d)\<lparr>rn_tx_sender := rn_tx_sender n @ [tx]\<rparr>))"
    unfolding assms [symmetric] submit_transaction_def lim ins Let_def prod.case not_le by (cases q) simp_all
  show ?thesis
  proof (cases "ok \<and> acceptable C (node_dag n) tx")
    case True
    then have "ok" and acc: "acceptable C (node_dag n) tx" by blast+
    with sub lim cap [OF acc] ins dag_insert_acceptable [OF acc, of "ck_instant ck"] show ?thesis by auto
  next
    case False
    have q: "(\<exists>e. q = Inl e) \<and> g_state d = g_state (node_dag n) \<and> g_nodes d = g_nodes (node_dag n)" if ok
      using that False ins by (cases q) (auto simp: dag_insert_Inr dest: dag_insert_Inl)
    show ?thesis
    proof (cases "ok \<and> ?total + tx_amount tx \<le> TOTAL_SUPPLY")
      case True
      with sub q lim False show ?thesis by auto
    next
      case other: False
      then have "(\<exists>e. r = Inl e) \<and> n' = n\<lparr>rn_limiter := rl\<rparr>" using sub by (cases ok) simp_all
      with lim False show ?thesis by auto
    qed
  qed
qed

lemma submit_transaction_exact_parts:
  assumes "submit_transaction C ck n tx = (r, n')"
  shows "rn_mempool n' = rn_mempool n \<and>
    (acceptable C (node_dag n) tx \<and> node_dag n' = accepted C (ck_instant ck) (lock_sender (node_dag n) tx) tx \<or>
     g_state (node_dag n') = g_state (node_dag n) \<and> g_nodes (node_dag n') = g_nodes (node_dag n))"
  using submit_cases [OF assms] by (auto split: if_splits)

text \<open>C3: Submitting a transaction through a node succeeds exactly when the rate limiter admits its sender and the graph accepts it (the node's own supply check never decides alone); then the graph takes it and it goes to the broadcast channel once; otherwise nothing is sent and no balance, nonce or node of the graph changes. The mempool is not involved either way.\<close>

theorem submit_transaction_exact:
  assumes "submit_transaction C ck n tx = (r, n')"
  shows "rn_mempool n' = rn_mempool n \<and>
    (if fst (limiter_check (rn_limiter n) (tx_sender tx) (int (ck_instant ck))) \<and> acceptable C (node_dag n) tx
     then r = Inr (tx_hash C tx) \<and>
       node_dag n' = accepted C (ck_instant ck) (lock_sender (node_dag n) tx) tx \<and>
       rn_tx_sender n' = rn_tx_sender n @ [tx]
     else (\<exists>e. r = Inl e) \<and> rn_tx_sender n' = rn_tx_sender n \<and>
       g_state (node_dag n') = g_state (node_dag n) \<and> g_nodes (node_dag n') = g_nodes (node_dag n))"
  using assms by (rule submit_cases)

section \<open>Witnesses\<close>

definition demo_node :: relyo_node where
  "demo_node = (with_dag (node_new 0 default_node_config) demo_graph)
     \<lparr>rn_mempool := snd (mempool_insert demo_crypto (mempool_new 4) demo_transfer)\<rparr>"

definition demo_clock :: clock where
  "demo_clock = \<lparr>ck_instant = 9, ck_ms = 9\<rparr>"

lemma demo_node_parts:
  "node_dag demo_node = demo_graph" "rn_limiter demo_node = limiter_new 100"
  "ledger_total (g_state (node_dag demo_node)) = 5000000"
  by (simp_all add: demo_node_def node_new_def default_node_config_def Let_def demo_graph_parts demo_total)

lemma demo_limiter_admits: "fst (limiter_check (limiter_new 100) a t)"
  by (simp add: limiter_check_def limiter_new_def Let_def)

theorem submit_transaction_exact_witness:
  "fst (submit_transaction demo_crypto demo_clock demo_node demo_transfer)
     = Inr (tx_hash demo_crypto demo_transfer)"
proof -
  obtain r n' where s: "submit_transaction demo_crypto demo_clock demo_node demo_transfer = (r, n')" by fastforce
  from submit_transaction_exact [OF s] show ?thesis
    by (simp add: s demo_node_parts demo_limiter_admits demo_acceptable)
qed

theorem mempool_batch_refines_witness:
  "\<exists>acc. subseq acc (fst (drain_batch (rn_mempool demo_node) 5)) \<and>
     fst (process_mempool_batch demo_crypto demo_clock demo_node 5) = map (tx_hash demo_crypto) acc \<and>
     spec_run (abs_ledger demo_graph) acc
       = Some (abs_ledger (node_dag (snd (process_mempool_batch demo_crypto demo_clock demo_node 5))))"
proof -
  obtain hs n' where p: "process_mempool_batch demo_crypto demo_clock demo_node 5 = (hs, n')" by fastforce
  have "ledger_total (g_state (node_dag demo_node)) < 2 ^ 64" by (simp only: demo_node_parts(3)) simp
  from mempool_batch_refines [OF p this] show ?thesis by (simp add: p demo_node_parts)
qed

end
