(* ===== verification/Keystore.thy ===== *)
theory Keystore
  imports Addresses
begin

text \<open>
  \<open>relyo-wallet/src/keystore.rs\<close>: the encrypted key file.  Argon2, AES-GCM and the JSON text of
  the file are third-party code and arguments of the definitions, and so is the file system;
  \<open>vault_ok\<close> and \<open>files_ok\<close> state what their documentation promises.  The salt and nonce that the
  generator draws are arguments.  A passphrase is the list of its bytes.
\<close>

record key_store =
  ks_ciphertext :: bytes
  ks_salt :: bytes
  ks_nonce :: bytes
  ks_pubkey_checksum :: bytes
  ks_version :: u8

text \<open>\<open>hash_password_into\<close>, \<open>new_from_slice\<close> (its error), \<open>encrypt\<close>, \<open>decrypt\<close>, \<open>to_string_pretty\<close>,
  \<open>from_str\<close>.\<close>

record vault =
  kdf :: "bytes \<Rightarrow> bytes \<Rightarrow> string + bytes"
  aead_init_error :: "bytes \<Rightarrow> string option"
  aead_encrypt :: "bytes \<Rightarrow> bytes \<Rightarrow> bytes \<Rightarrow> string + bytes"
  aead_decrypt :: "bytes \<Rightarrow> bytes \<Rightarrow> bytes \<Rightarrow> bytes option"
  store_to_json :: "key_store \<Rightarrow> string + string"
  store_of_json :: "string \<Rightarrow> string + key_store"

definition vault_ok :: "vault \<Rightarrow> bool" where
  "vault_ok V \<longleftrightarrow>
     (\<forall>key nonce m c. aead_encrypt V key nonce m = Inr c \<longrightarrow> aead_decrypt V key nonce c = Some m) \<and>
     (\<forall>store t. store_to_json V store = Inr t \<longrightarrow> store_of_json V t = Inr store)"

record 's files =
  fs_read :: "'s \<Rightarrow> string \<Rightarrow> string + string"
  fs_write :: "'s \<Rightarrow> string \<Rightarrow> string \<Rightarrow> string + 's"
  fs_exists :: "'s \<Rightarrow> string \<Rightarrow> bool"

definition files_ok :: "'s files \<Rightarrow> bool" where
  "files_ok S \<longleftrightarrow> (\<forall>s p t s'. fs_write S s p t = Inr s' \<longrightarrow> fs_read S s' p = Inr t)"

section \<open>Operations\<close>

text \<open>\<open>map_err\<close> followed by \<open>?\<close>.\<close>

definition or_wallet_error :: "string \<Rightarrow> string + 'a \<Rightarrow> 'a result" where
  "or_wallet_error prefix r = map_sum (\<lambda>e. Wallet (prefix @ e)) id r"

definition init_cipher :: "vault \<Rightarrow> bytes \<Rightarrow> unit result" where
  "init_cipher V key =
     (case aead_init_error V key of Some e \<Rightarrow> Inl (Wallet (''cipher init failed: '' @ e)) | None \<Rightarrow> Inr ())"

definition build_store ::
    "crypto \<Rightarrow> vault \<Rightarrow> bytes \<Rightarrow> bytes \<Rightarrow> secret_key \<Rightarrow> string \<Rightarrow> key_store result" where
  "build_store C V salt nonce sk passphrase =
     try_then (or_wallet_error ''key derivation failed: '' (kdf V (string_bytes passphrase) salt)) (\<lambda>derived_key.
     try_then (init_cipher V derived_key) (\<lambda>_.
     try_then (or_wallet_error ''encryption failed: '' (aead_encrypt V derived_key nonce (sk_bytes sk))) (\<lambda>ciphertext.
     let kp = from_secret C sk
     in Inr \<lparr>ks_ciphertext = ciphertext, ks_salt = salt, ks_nonce = nonce,
             ks_pubkey_checksum = sha3_256 C (pk_bytes (kp_public_key kp)), ks_version = 2\<rparr>)))"

definition save_keystore ::
    "crypto \<Rightarrow> vault \<Rightarrow> 's files \<Rightarrow> bytes \<Rightarrow> bytes \<Rightarrow> 's \<Rightarrow> secret_key \<Rightarrow> string \<Rightarrow> string \<Rightarrow> 's result" where
  "save_keystore C V S salt nonce s sk passphrase path =
     try_then (build_store C V salt nonce sk passphrase) (\<lambda>store.
     try_then (map_sum Serialization id (store_to_json V store)) (\<lambda>json.
     or_wallet_error [] (fs_write S s path json)))"

definition wrong_passphrase :: relyo_error where
  "wrong_passphrase = Wallet ''incorrect passphrase or corrupted keystore''"

text \<open>\<open>try_into\<close> of a vector into \<open>[u8; 32]\<close>.\<close>

definition secret_of_bytes :: "bytes \<Rightarrow> secret_key result" where
  "secret_of_bytes bs = (if length bs = 32 then Inr (SecretKey bs) else Inl (Wallet ''invalid key length''))"

definition integrity_error :: relyo_error where
  "integrity_error = Wallet (''key integrity check failed '' @ [CHR 0xE2, CHR 0x80, CHR 0x94] @
     '' decrypted key does not match expected public key'')"

definition load_v2 :: "crypto \<Rightarrow> vault \<Rightarrow> key_store \<Rightarrow> string \<Rightarrow> keypair result" where
  "load_v2 C V store passphrase =
     try_then (or_wallet_error ''key derivation failed: '' (kdf V (string_bytes passphrase) (ks_salt store)))
       (\<lambda>derived_key.
     try_then (init_cipher V derived_key) (\<lambda>_.
     case aead_decrypt V derived_key (ks_nonce store) (ks_ciphertext store) of
       None \<Rightarrow> Inl wrong_passphrase
     | Some plaintext \<Rightarrow>
         try_then (secret_of_bytes plaintext) (\<lambda>sk.
         let kp = from_secret C sk
         in if sha3_256 C (pk_bytes (kp_public_key kp)) \<noteq> ks_pubkey_checksum store
            then Inl integrity_error else Inr kp)))"

definition derive_key_v1 :: "crypto \<Rightarrow> string \<Rightarrow> bytes \<Rightarrow> bytes" where
  "derive_key_v1 C passphrase salt =
     (sha3_256 C ^^ 10000) (sha3_256 C (string_bytes passphrase @ salt))"

text \<open>\<open>zip(key.iter().cycle())\<close> with \<open>e ^ k\<close>.\<close>

definition xor_cycle :: "bytes \<Rightarrow> bytes \<Rightarrow> bytes" where
  "xor_cycle key data =
     (if key = [] then []
      else map (\<lambda>i. xor (data ! i) (key ! (i mod length key))) [0..<length data])"

definition load_v1_legacy :: "crypto \<Rightarrow> key_store \<Rightarrow> string \<Rightarrow> keypair result" where
  "load_v1_legacy C store passphrase =
     (let derived = derive_key_v1 C passphrase (ks_salt store);
          decrypted = xor_cycle derived (ks_ciphertext store)
      in if sha3_256 C decrypted \<noteq> ks_pubkey_checksum store then Inl wrong_passphrase
         else try_then (secret_of_bytes decrypted) (\<lambda>sk. Inr (from_secret C sk)))"

definition load_keystore ::
    "crypto \<Rightarrow> vault \<Rightarrow> 's files \<Rightarrow> 's \<Rightarrow> string \<Rightarrow> string \<Rightarrow> keypair result" where
  "load_keystore C V S s path passphrase =
     try_then (or_wallet_error [] (fs_read S s path)) (\<lambda>data.
     try_then (map_sum Serialization id (store_of_json V data)) (\<lambda>store.
     if ks_version store = 1 then load_v1_legacy C store passphrase
     else if ks_version store = 2 then load_v2 C V store passphrase
     else Inl (Wallet (''unsupported keystore version: '' @ show_word (ks_version store)))))"

definition keystore_exists :: "'s files \<Rightarrow> 's \<Rightarrow> string \<Rightarrow> bool" where
  "keystore_exists S s path = fs_exists S s path"

section \<open>Facts\<close>

lemma or_wallet_error_Inr [simp]: "or_wallet_error p r = Inr v \<longleftrightarrow> r = Inr v"
  by (cases r) (simp_all add: or_wallet_error_def)

lemma or_wallet_error_ok [simp]: "or_wallet_error p (Inr v) = Inr v"
  by simp

lemma map_Serialization_Inr [simp]: "map_sum Serialization id r = Inr v \<longleftrightarrow> r = Inr v"
  by (cases r) simp_all

lemma init_cipher_Inr: "init_cipher V key = Inr u \<longleftrightarrow> aead_init_error V key = None"
  by (simp add: init_cipher_def split: option.split)

lemma secret_of_bytes_Inr: "secret_of_bytes bs = Inr sk \<longleftrightarrow> length bs = 32 \<and> sk = SecretKey bs"
  by (auto simp: secret_of_bytes_def)

lemma build_store_Inr:
  "build_store C V salt nonce sk pass = Inr store \<longleftrightarrow>
    (\<exists>key c. kdf V (string_bytes pass) salt = Inr key \<and> aead_init_error V key = None \<and>
       aead_encrypt V key nonce (sk_bytes sk) = Inr c \<and>
       store = \<lparr>ks_ciphertext = c, ks_salt = salt, ks_nonce = nonce,
         ks_pubkey_checksum = sha3_256 C (pk_bytes (kp_public_key (from_secret C sk))), ks_version = 2\<rparr>)"
  by (auto simp: build_store_def try_then_Inr init_cipher_Inr Let_def)

lemma load_v2_Inr:
  "load_v2 C V store pass = Inr kp \<longleftrightarrow>
    (\<exists>key m. kdf V (string_bytes pass) (ks_salt store) = Inr key \<and> aead_init_error V key = None \<and>
       aead_decrypt V key (ks_nonce store) (ks_ciphertext store) = Some m \<and> length m = 32 \<and>
       kp = from_secret C (SecretKey m) \<and> sha3_256 C (pk_bytes (kp_public_key kp)) = ks_pubkey_checksum store)"
  by (auto simp: load_v2_def try_then_Inr init_cipher_Inr secret_of_bytes_Inr Let_def
      split: option.splits if_splits)

lemma load_v1_Inr:
  "load_v1_legacy C store pass = Inr kp \<longleftrightarrow>
    (\<exists>m. m = xor_cycle (derive_key_v1 C pass (ks_salt store)) (ks_ciphertext store) \<and> length m = 32 \<and>
       sha3_256 C m = ks_pubkey_checksum store \<and> kp = from_secret C (SecretKey m))"
  by (auto simp: load_v1_legacy_def try_then_Inr secret_of_bytes_Inr Let_def)

lemma load_keystore_Inr:
  "load_keystore C V S s path pass = Inr kp \<longleftrightarrow>
    (\<exists>t store. fs_read S s path = Inr t \<and> store_of_json V t = Inr store \<and>
       (ks_version store = 1 \<and> load_v1_legacy C store pass = Inr kp \<or>
        ks_version store = 2 \<and> load_v2 C V store pass = Inr kp))"
  by (cases "fs_read S s path"; cases "store_of_json V (projr (fs_read S s path))")
    (auto simp: load_keystore_def or_wallet_error_def)

lemma saved_loads:
  assumes "vault_ok V" "files_ok S" "length (sk_bytes sk) = 32"
    and "save_keystore C V S salt nonce s sk pass path = Inr s'"
  shows "load_keystore C V S s' path pass = Inr (from_secret C sk)"
proof -
  obtain store t where st: "build_store C V salt nonce sk pass = Inr store" "store_to_json V store = Inr t"
    and "fs_write S s path t = Inr s'"
    using assms(4) by (auto simp: save_keystore_def try_then_Inr)
  then have "fs_read S s' path = Inr t" "store_of_json V t = Inr store"
    using assms(1,2) by (auto simp: files_ok_def vault_ok_def)
  moreover obtain key c where "kdf V (string_bytes pass) salt = Inr key" "aead_init_error V key = None"
    and enc: "aead_encrypt V key nonce (sk_bytes sk) = Inr c"
    and store: "store = \<lparr>ks_ciphertext = c, ks_salt = salt, ks_nonce = nonce,
         ks_pubkey_checksum = sha3_256 C (pk_bytes (kp_public_key (from_secret C sk))), ks_version = 2\<rparr>"
    using st(1) by (auto simp: build_store_Inr)
  moreover have "aead_decrypt V key nonce c = Some (sk_bytes sk)" using enc assms(1) by (simp add: vault_ok_def)
  ultimately show ?thesis
    using assms(3) by (auto simp: load_keystore_Inr load_v2_Inr)
qed

lemma xor_cycle_involution:
  assumes "key \<noteq> []"
  shows "xor_cycle key (xor_cycle key data) = data"
  using assms by (intro nth_equalityI) (simp_all add: xor_cycle_def xor.assoc)

text \<open>C37: Saving a key and loading it with the same passphrase gives back its key pair, whatever salt and nonce were drawn and whatever the file held before; a legacy file, whose ciphertext is the secret XORed with the key derived from passphrase and salt, loads to its key pair too.\<close>

theorem keystore_roundtrip:
  assumes "crypto_ok C" "vault_ok V" "files_ok S" "length (sk_bytes sk) = 32"
  shows "(save_keystore C V S salt nonce s sk pass path = Inr s' \<longrightarrow>
      load_keystore C V S s' path pass = Inr (from_secret C sk)) \<and>
    (fs_read S s path = Inr t \<and> store_of_json V t = Inr \<lparr>ks_ciphertext = xor_cycle (derive_key_v1 C pass salt) (sk_bytes sk),
       ks_salt = salt, ks_nonce = nonce, ks_pubkey_checksum = sha3_256 C (sk_bytes sk), ks_version = 1\<rparr> \<longrightarrow>
      load_keystore C V S s path pass = Inr (from_secret C sk))"
proof (intro conjI impI)
  assume "save_keystore C V S salt nonce s sk pass path = Inr s'"
  then show "load_keystore C V S s' path pass = Inr (from_secret C sk)" by (rule saved_loads [OF assms(2-4)])
next
  have "length (derive_key_v1 C pass salt) = 32"
    unfolding derive_key_v1_def using sha3_256_length [OF assms(1)]
    by (metis funpow.simps(2) funpow_swap1 old.nat.exhaust comp_apply)
  then have "xor_cycle (derive_key_v1 C pass salt) (xor_cycle (derive_key_v1 C pass salt) (sk_bytes sk)) = sk_bytes sk"
    by (intro xor_cycle_involution) auto
  moreover assume "fs_read S s path = Inr t \<and> store_of_json V t
      = Inr \<lparr>ks_ciphertext = xor_cycle (derive_key_v1 C pass salt) (sk_bytes sk), ks_salt = salt,
          ks_nonce = nonce, ks_pubkey_checksum = sha3_256 C (sk_bytes sk), ks_version = 1\<rparr>"
  ultimately show "load_keystore C V S s path pass = Inr (from_secret C sk)"
    using assms(4) by (auto simp: load_keystore_Inr load_v1_Inr)
qed

text \<open>C39: A key pair that loads is sound: its public key belongs to its 32-byte secret, and the checksum in the file is the hash of that public key (or, for a legacy file, of that secret); so a file of version 2 only ever loads to the key pair of one public-key hash, whatever the passphrase.\<close>

theorem loaded_key_sound:
  assumes "load_keystore C V S s path pass = Inr kp"
  shows "keypair_ok C kp \<and> length (signing_key kp) = 32 \<and>
    (\<exists>t store. fs_read S s path = Inr t \<and> store_of_json V t = Inr store \<and>
       (ks_version store = 2 \<and> ks_pubkey_checksum store = sha3_256 C (pk_bytes (kp_public_key kp)) \<or>
        ks_version store = 1 \<and> ks_pubkey_checksum store = sha3_256 C (signing_key kp)))"
  using assms by (auto simp: load_keystore_Inr load_v1_Inr load_v2_Inr) (auto simp: from_secret_def)

section \<open>Witnesses\<close>

definition demo_secret :: secret_key where
  "demo_secret = SecretKey (replicate 32 5)"

definition demo_store :: key_store where
  "demo_store =
     \<lparr>ks_ciphertext = map (xor 7) (replicate 32 5), ks_salt = [1], ks_nonce = [2],
      ks_pubkey_checksum = sha3_256 demo_crypto (pk_bytes (kp_public_key (from_secret demo_crypto demo_secret))),
      ks_version = 2\<rparr>"

text \<open>A vault with a constant pad and a text for one file, and a file system with one file.\<close>

definition demo_vault :: vault where
  "demo_vault =
     \<lparr>kdf = (\<lambda>p s. Inr (p @ s)), aead_init_error = (\<lambda>_. None),
      aead_encrypt = (\<lambda>_ _ m. Inr (map (xor 7) m)), aead_decrypt = (\<lambda>_ _ c. Some (map (xor 7) c)),
      store_to_json = (\<lambda>st. if st = demo_store then Inr ''k'' else Inl []),
      store_of_json = (\<lambda>t. if t = ''k'' then Inr demo_store else Inl [])\<rparr>"

definition demo_files :: "string option files" where
  "demo_files =
     \<lparr>fs_read = (\<lambda>s _. case s of None \<Rightarrow> Inl ''not found'' | Some t \<Rightarrow> Inr t), fs_write = (\<lambda>_ _ t. Inr (Some t)),
      fs_exists = (\<lambda>s _. s \<noteq> None)\<rparr>"

lemma demo_vault_ok [simp]: "vault_ok demo_vault"
  by (simp add: vault_ok_def demo_vault_def comp_def flip: xor.assoc)

lemma demo_files_ok [simp]: "files_ok demo_files"
  by (simp add: files_ok_def demo_files_def)

lemma demo_save:
  "save_keystore demo_crypto demo_vault demo_files [1] [2] None demo_secret ''pw'' ''f'' = Inr (Some ''k'')"
  by (simp add: save_keystore_def build_store_def init_cipher_def demo_vault_def demo_files_def demo_secret_def
      or_wallet_error_def) (simp add: demo_store_def demo_secret_def)

theorem keystore_roundtrip_witness:
  "load_keystore demo_crypto demo_vault demo_files (Some ''k'') ''f'' ''pw'' = Inr (from_secret demo_crypto demo_secret)"
proof -
  have "length (sk_bytes demo_secret) = 32" by (simp add: demo_secret_def)
  from keystore_roundtrip [OF demo_crypto_ok demo_vault_ok demo_files_ok this] demo_save show ?thesis by blast
qed

theorem loaded_key_sound_witness:
  "keypair_ok demo_crypto (from_secret demo_crypto demo_secret)"
proof -
  have "length (sk_bytes demo_secret) = 32" by (simp add: demo_secret_def)
  from loaded_key_sound [OF saved_loads [OF demo_vault_ok demo_files_ok this demo_save]] show ?thesis by blast
qed

end
