(* ===== verification/Economics.thy ===== *)
theory Economics
  imports Tokens Voting
begin

text \<open>
  The parts of the code that compute with \<open>f64\<close>: amounts in \<open>token.rs\<close>, node scores, the fee
  market and the staking tables of \<open>types.rs\<close>, \<open>relyo-consensus/src/rewards.rs\<close> and
  \<open>relyo-node/src/emission.rs\<close>.  The floating-point operations of the processor are an argument:
  the theorems hold for every rounding, so they say which guarantees survive it.
\<close>

section \<open>Floating point\<close>

text \<open>
  \<open>f_lit m k\<close> is the literal \<open>m / 10 ^ k\<close>; \<open>f_of_u64\<close>, \<open>f_of_usize\<close> and \<open>f_to_u64\<close> are the
  casts \<open>as f64\<close> and \<open>as u64\<close>; \<open>f_sum\<close> is the sum of an iterator.
\<close>

record 'f float_ops =
  f_lit :: "int \<Rightarrow> nat \<Rightarrow> 'f"
  f_of_u64 :: "u64 \<Rightarrow> 'f"
  f_of_usize :: "nat \<Rightarrow> 'f"
  f_to_u64 :: "'f \<Rightarrow> u64"
  f_add :: "'f \<Rightarrow> 'f \<Rightarrow> 'f"
  f_sub :: "'f \<Rightarrow> 'f \<Rightarrow> 'f"
  f_mul :: "'f \<Rightarrow> 'f \<Rightarrow> 'f"
  f_div :: "'f \<Rightarrow> 'f \<Rightarrow> 'f"
  f_neg :: "'f \<Rightarrow> 'f"
  f_exp :: "'f \<Rightarrow> 'f"
  f_min :: "'f \<Rightarrow> 'f \<Rightarrow> 'f"
  f_le :: "'f \<Rightarrow> 'f \<Rightarrow> bool"
  f_less :: "'f \<Rightarrow> 'f \<Rightarrow> bool"
  f_sum :: "'f list \<Rightarrow> 'f"

definition R0 :: "'f float_ops \<Rightarrow> 'f" where "R0 F = f_lit F 187500 0"
definition LAMBDA :: "'f float_ops \<Rightarrow> 'f" where "LAMBDA F = f_lit F 75 7"

definition rly_to_base :: "'f float_ops \<Rightarrow> 'f \<Rightarrow> u64" where
  "rly_to_base F rly =
     (if f_le F rly (f_lit F 0 0) then 0
      else f_to_u64 F (f_add F (f_mul F rly (f_of_u64 F RLY_UNIT)) (f_lit F 5 1)))"

definition base_to_rly :: "'f float_ops \<Rightarrow> u64 \<Rightarrow> 'f" where
  "base_to_rly F b = f_div F (f_of_u64 F b) (f_of_u64 F RLY_UNIT)"

section \<open>Staking tables\<close>

record staking_config =
  sc_min_stake :: u64
  sc_lock_period_epochs :: u64
  sc_lock_period_days :: u64
  sc_slash_penalty_bps :: u64
  sc_max_validators :: nat
  sc_unbonding_epochs :: u64

definition default_staking_config :: staking_config where
  "default_staking_config =
     \<lparr>sc_min_stake = 10000 * 100000000, sc_lock_period_epochs = 10, sc_lock_period_days = 30,
      sc_slash_penalty_bps = 1000, sc_max_validators = 1000, sc_unbonding_epochs = 5\<rparr>"

datatype slashing_offense = DoubleVote | ExtendedDowntime | InvalidBlock | CensorTransaction

fun penalty_bps :: "slashing_offense \<Rightarrow> u64" where
  "penalty_bps DoubleVote = 5000"
| "penalty_bps ExtendedDowntime = 500"
| "penalty_bps InvalidBlock = 3000"
| "penalty_bps CensorTransaction = 1000"

section \<open>The fee market\<close>

record 'f fee_market =
  fm_base_fee :: u64
  fm_multiplier_bps :: u64
  fm_min_fee :: u64
  fm_max_fee :: u64
  fm_congestion :: 'f

definition default_fee_market :: "'f float_ops \<Rightarrow> 'f fee_market" where
  "default_fee_market F =
     \<lparr>fm_base_fee = base_fee RELYO_CONFIG, fm_multiplier_bps = 10000,
      fm_min_fee = base_fee RELYO_CONFIG, fm_max_fee = base_fee RELYO_CONFIG * 1000,
      fm_congestion = f_lit F 0 0\<rparr>"

definition effective_fee :: "'f float_ops \<Rightarrow> 'f fee_market \<Rightarrow> u64" where
  "effective_fee F m =
     (let fee = f_to_u64 F (f_div F (f_mul F (f_of_u64 F (fm_base_fee m))
            (f_of_u64 F (fm_multiplier_bps m))) (f_lit F 10000 0))
      in min (max fee (fm_min_fee m)) (fm_max_fee m))"

definition update_congestion :: "'f float_ops \<Rightarrow> 'f fee_market \<Rightarrow> nat \<Rightarrow> nat \<Rightarrow> 'f fee_market" where
  "update_congestion F m mempool_size capacity =
     (let level = (if capacity > 0 then f_div F (f_of_usize F mempool_size) (f_of_usize F capacity)
                   else f_lit F 0 0);
          m' = m\<lparr>fm_congestion := level\<rparr>
      in if f_less F (f_lit F 8 1) level
           then m'\<lparr>fm_multiplier_bps := min (fm_multiplier_bps m * 11 div 10) 100000\<rparr>
         else if f_less F level (f_lit F 2 1)
           then m'\<lparr>fm_multiplier_bps := max (fm_multiplier_bps m * 9 div 10) 10000\<rparr>
         else m')"

inductive market_run :: "'f float_ops \<Rightarrow> 'f fee_market \<Rightarrow> bool" for F where
  market_start: "market_run F (default_fee_market F)"
| market_update: "market_run F m \<Longrightarrow> market_run F (update_congestion F m mempool_size capacity)"

section \<open>Node scores and rewards\<close>

record 'f node_score =
  ns_uptime_hours :: 'f
  ns_validated_txs :: u64
  ns_relayed_bytes :: u64

definition compute_score :: "'f float_ops \<Rightarrow> u64 \<Rightarrow> u64 \<Rightarrow> 'f node_score \<Rightarrow> 'f" where
  "compute_score F total_validations total_bandwidth s =
     (let uptime = f_min F (f_div F (ns_uptime_hours s) (f_lit F 24 0)) (f_lit F 1 0);
          validation = (if total_validations > 0
            then f_div F (f_of_u64 F (ns_validated_txs s)) (f_of_u64 F total_validations) else f_lit F 0 0);
          bandwidth = (if total_bandwidth > 0
            then f_div F (f_of_u64 F (ns_relayed_bytes s)) (f_of_u64 F total_bandwidth) else f_lit F 0 0)
      in f_add F (f_add F (f_mul F (f_lit F 40 2) uptime) (f_mul F (f_lit F 40 2) validation))
           (f_mul F (f_lit F 20 2) bandwidth))"

text \<open>The share of a score in the daily pool, as truncated by the cast.\<close>

definition float_share :: "'f float_ops \<Rightarrow> 'f \<Rightarrow> u64 \<Rightarrow> 'f \<Rightarrow> u64" where
  "float_share F total_score daily score =
     f_to_u64 F (f_mul F (f_div F score total_score) (f_of_u64 F daily))"

text \<open>The loop over the identifiers: the last one gets what is left of the daily pool.\<close>

fun reward_loop ::
    "('f \<Rightarrow> u64) \<Rightarrow> u64 \<Rightarrow> u64 \<Rightarrow> (node_id \<times> u64) list \<Rightarrow> (node_id \<times> 'f) list \<Rightarrow> (node_id \<times> u64) list" where
  "reward_loop share daily distributed rewards [] = rewards"
| "reward_loop share daily distributed rewards ((node, score) # rest) =
     (let reward = (if rest = [] then daily - distributed else share score)
      in reward_loop share daily (distributed + reward) (AList.update node reward rewards) rest)"

text \<open>\<open>order\<close> is the iteration order of the map of scores.\<close>

definition calculate_rewards ::
    "'f float_ops \<Rightarrow> ((node_id \<times> 'f) list \<Rightarrow> (node_id \<times> 'f) list) \<Rightarrow> u64 \<Rightarrow> (node_id \<times> 'f node_score) list \<Rightarrow>
       u64 \<Rightarrow> u64 \<Rightarrow> (node_id \<times> u64) list" where
  "calculate_rewards F order daily nodes total_validations total_bandwidth =
     (if nodes = [] then []
      else let scores = order (map (\<lambda>(node, s). (node, compute_score F total_validations total_bandwidth s)) nodes);
               total_score = f_sum F (map snd scores)
           in if f_le F total_score (f_lit F 0 0) then []
              else reward_loop (float_share F total_score daily) daily 0 [] scores)"

definition reward_calculator_new :: u64 where
  "reward_calculator_new = daily_reward_emission RELYO_CONFIG"

definition with_pool :: "u64 \<Rightarrow> u64" where
  "with_pool daily = daily"

definition default_reward_calculator :: u64 where
  "default_reward_calculator = reward_calculator_new"

section \<open>The exponential emission schedule\<close>

definition NODE_EPOCH_DEPTH :: u64 where "NODE_EPOCH_DEPTH = 100000"
definition TOTAL_EPOCHS :: u64 where "TOTAL_EPOCHS = 800000"

definition initial_reward :: "'f float_ops \<Rightarrow> u64" where
  "initial_reward F = f_to_u64 F (f_mul F (R0 F) (f_of_u64 F RLY_UNIT))"

definition exp_reward_at_epoch :: "'f float_ops \<Rightarrow> u64 \<Rightarrow> u64" where
  "exp_reward_at_epoch F epoch =
     (let r0 = f_of_u64 F (initial_reward F);
          decay = f_exp F (f_mul F (f_neg F (LAMBDA F)) (f_of_u64 F epoch));
          reward = f_to_u64 F (f_mul F r0 decay)
      in if reward = 0 then 0 else reward)"

definition epoch_at_depth :: "u64 \<Rightarrow> u64" where
  "epoch_at_depth depth = depth div NODE_EPOCH_DEPTH"

definition exp_reward_at_depth :: "'f float_ops \<Rightarrow> u64 \<Rightarrow> u64" where
  "exp_reward_at_depth F depth = exp_reward_at_epoch F (epoch_at_depth depth)"

definition total_emitted_by_epoch :: "'f float_ops \<Rightarrow> u64 \<Rightarrow> u64" where
  "total_emitted_by_epoch F epoch =
     (let r0 = f_of_u64 F (initial_reward F);
          total = f_mul F (f_div F r0 (LAMBDA F))
            (f_sub F (f_lit F 1 0) (f_exp F (f_mul F (f_neg F (LAMBDA F)) (f_of_u64 F epoch))))
      in min (f_to_u64 F total) (tc_total_supply RELYO_CONFIG))"

definition total_emitted_by_depth :: "'f float_ops \<Rightarrow> u64 \<Rightarrow> u64" where
  "total_emitted_by_depth F depth = total_emitted_by_epoch F (epoch_at_depth depth)"

definition emission_progress :: "'f float_ops \<Rightarrow> u64 \<Rightarrow> 'f" where
  "emission_progress F epoch =
     f_mul F (f_div F (f_of_u64 F (total_emitted_by_epoch F epoch))
       (f_of_u64 F (tc_total_supply RELYO_CONFIG))) (f_lit F 100 0)"

section \<open>Facts\<close>

lemma market_run_config:
  "market_run F m \<Longrightarrow> fm_base_fee m = base_fee RELYO_CONFIG \<and> fm_min_fee m = base_fee RELYO_CONFIG \<and>
     fm_max_fee m = base_fee RELYO_CONFIG * 1000"
  by (induction rule: market_run.induct) (simp_all add: default_fee_market_def update_congestion_def Let_def)

lemma scaled_div:
  "unat m \<le> 100000 \<Longrightarrow> k \<le> 11 \<Longrightarrow> unat (m * of_nat k div 10 :: u64) = unat m * k div 10"
proof -
  assume m: "unat m \<le> 100000" and k: "k \<le> 11"
  then have "unat m * k \<le> 100000 * 11" by (intro mult_le_mono)
  moreover have "unat (of_nat k :: u64) = k" using k by (simp add: unat_of_nat)
  ultimately have "unat (m * of_nat k) = unat m * k" by (subst unat_mult_no_wrap) simp_all
  then show ?thesis by (simp add: unat_div_distrib)
qed

lemma update_multiplier:
  assumes "10000 \<le> unat (fm_multiplier_bps m)" "unat (fm_multiplier_bps m) \<le> 100000"
  shows "unat (fm_multiplier_bps (update_congestion F m s c)) \<in>
    {unat (fm_multiplier_bps m), min (unat (fm_multiplier_bps m) * 11 div 10) 100000,
     max (unat (fm_multiplier_bps m) * 9 div 10) 10000}"
  using scaled_div [OF assms(2), of 11] scaled_div [OF assms(2), of 9]
  by (simp add: update_congestion_def Let_def unat_word_min unat_word_max)

lemma market_run_multiplier:
  "market_run F m \<Longrightarrow> 10000 \<le> unat (fm_multiplier_bps m) \<and> unat (fm_multiplier_bps m) \<le> 100000"
proof (induction rule: market_run.induct)
  case (market_update m s c)
  then show ?case using update_multiplier [of m F s c] by auto
qed (simp add: default_fee_market_def)

text \<open>The fee market stays within its bounds whatever the floating-point rounding and however the mempool fills: after any sequence of congestion updates from the default the multiplier is between 1x and 10x, one more update changes it by at most a tenth and without overflow, and the effective fee is between the base fee and 1000 times the base fee.\<close>

theorem fee_market_bounds:
  assumes "market_run F m"
  shows "10000 \<le> unat (fm_multiplier_bps m) \<and> unat (fm_multiplier_bps m) \<le> 100000 \<and>
    9 * unat (fm_multiplier_bps m) \<le> 10 * unat (fm_multiplier_bps (update_congestion F m s c)) + 9 \<and>
    10 * unat (fm_multiplier_bps (update_congestion F m s c)) \<le> 11 * unat (fm_multiplier_bps m) \<and>
    1000000 \<le> unat (effective_fee F m) \<and> unat (effective_fee F m) \<le> 1000000000"
proof -
  note mult = market_run_multiplier [OF assms]
  have "unat (fm_min_fee m) = 1000000" "unat (fm_max_fee m) = 1000000000"
    using market_run_config [OF assms] by (simp_all add: base_fee_num)
  then have "1000000 \<le> unat (effective_fee F m) \<and> unat (effective_fee F m) \<le> 1000000000"
    by (simp add: effective_fee_def Let_def unat_word_min unat_word_max)
  with mult update_multiplier [of m F s c] show ?thesis by auto
qed

lemma reward_loop_keys:
  "distinct (keys rewards) \<Longrightarrow>
    distinct (keys (reward_loop share daily d rewards xs)) \<and>
    set (keys (reward_loop share daily d rewards xs)) = set (keys rewards) \<union> set (keys xs)"
  by (induction share daily d rewards xs rule: reward_loop.induct) (auto simp: Let_def set_keys_update [simplified])

lemma reward_loop_sum:
  assumes "distinct (keys xs)" "set (keys rewards) \<inter> set (keys xs) = {}" "xs \<noteq> []"
    and "vsum (\<lambda>v. v) rewards = d"
  shows "vsum (\<lambda>v. v) (reward_loop share daily d rewards xs) = daily"
  using assms
proof (induction share daily d rewards xs rule: reward_loop.induct)
  case (2 share daily d rewards node score rest)
  let ?reward = "if rest = [] then daily - d else share score"
  have "map_of rewards node = None" using 2(3) by (auto simp: map_of_eq_None_iff)
  then have total: "vsum (\<lambda>v. v) (AList.update node ?reward rewards) = d + ?reward"
    using vsum_update [of "\<lambda>v. v" node ?reward rewards] 2(5) by simp
  show ?case
  proof (cases "rest = []")
    case True
    with total show ?thesis by simp
  next
    case False
    have disj: "set (keys (AList.update node ?reward rewards)) \<inter> set (keys rest) = {}"
      unfolding set_keys_update using 2(2,3) by auto
    with 2(1) [OF refl] 2(2) total False show ?thesis by (simp add: Let_def)
  qed
qed simp

lemma reward_loop_exact:
  assumes "distinct (keys xs)" "set (keys rewards) \<inter> set (keys xs) = {}" "xs \<noteq> []"
    and "vsum unat rewards = unat d"
    and "unat d + (\<Sum>(node, s)\<leftarrow>butlast xs. unat (share s)) \<le> unat daily"
  shows "vsum unat (reward_loop share daily d rewards xs) = unat daily"
  using assms
proof (induction share daily d rewards xs rule: reward_loop.induct)
  case (2 share daily d rewards node score rest)
  let ?reward = "if rest = [] then daily - d else share score"
  have "map_of rewards node = None" using 2(3) by (auto simp: map_of_eq_None_iff)
  then have total: "vsum unat (AList.update node ?reward rewards) = unat d + unat ?reward"
    using vsum_update [of unat node ?reward rewards] 2(5) by simp
  show ?case
  proof (cases "rest = []")
    case True
    with total 2(6) show ?thesis by (simp add: unat_sub_no_wrap word_le_unat)
  next
    case False
    then have le: "unat d + unat (share score) + (\<Sum>(node, s)\<leftarrow>butlast rest. unat (share s)) \<le> unat daily"
      using 2(6) by simp
    then have "unat (d + share score) = unat d + unat (share score)"
      using unat_u64_bound [of daily] by (intro unat_add_no_wrap) simp
    moreover have disj: "set (keys (AList.update node ?reward rewards)) \<inter> set (keys rest) = {}"
      unfolding set_keys_update using 2(2,3) by auto
    ultimately show ?thesis using 2(1) [OF refl] 2(2) total False le by (simp add: Let_def)
  qed
qed simp
text \<open>C36: A reward distribution pays out the whole pool and nothing else: when the scores have a positive total, exactly the nodes of the input get a reward, each once, and the rewards add up to the daily pool modulo 2^64 whatever the rounding and the iteration order of the map; they add up exactly as long as the truncated shares of all but the last node stay within the pool.\<close>

theorem rewards_distribute_pool:
  assumes "distinct (keys nodes)" "nodes \<noteq> []" "\<And>xs. mset (order xs) = mset xs"
    and scores: "scores = order (map (\<lambda>(node, s). (node, compute_score F tv tb s)) nodes)"
    and "\<not> f_le F (f_sum F (map snd scores)) (f_lit F 0 0)"
  shows "distinct (keys (calculate_rewards F order daily nodes tv tb)) \<and>
    set (keys (calculate_rewards F order daily nodes tv tb)) = set (keys nodes) \<and>
    vsum (\<lambda>v. v) (calculate_rewards F order daily nodes tv tb) = daily \<and>
    ((\<Sum>(node, s)\<leftarrow>butlast scores. unat (float_share F (f_sum F (map snd scores)) daily s)) \<le> unat daily \<longrightarrow>
       vsum unat (calculate_rewards F order daily nodes tv tb) = unat daily)"
proof -
  let ?xs = "map (\<lambda>(node, s). (node, compute_score F tv tb s)) nodes"
  have perm: "mset scores = mset ?xs" using assms(3) scores by simp
  have keys: "keys ?xs = keys nodes" by (induction nodes) auto
  have "distinct (keys scores)" using distinct_keys_perm [OF perm] assms(1) unfolding keys by simp
  moreover have "set (keys scores) = set (keys ?xs)" using mset_eq_setD [OF perm] by (simp only: set_map)
  then have "set (keys scores) = set (keys nodes)" unfolding keys .
  moreover have "scores \<noteq> []" using perm assms(2) by auto
  ultimately have xs: "distinct (keys scores)" "set (keys scores) = set (keys nodes)" "scores \<noteq> []"
    by blast+
  have calc: "calculate_rewards F order daily nodes tv tb
      = reward_loop (float_share F (f_sum F (map snd scores)) daily) daily 0 [] scores"
    using assms(2,5) by (simp add: calculate_rewards_def Let_def flip: scores)
  show ?thesis
    unfolding calc
    using xs reward_loop_keys [of "[]" _ daily 0 scores] reward_loop_sum [OF xs(1) _ xs(3), of "[]" 0]
      reward_loop_exact [OF xs(1) _ xs(3), of "[]" 0]
    by simp
qed

lemma emitted_le_supply: "total_emitted_by_epoch F e \<le> TOTAL_SUPPLY"
  by (simp add: total_emitted_by_epoch_def Let_def tc_total_supply_num)

text \<open>The total never exceeds the supply, so the \<open>remaining\<close> figure of the server is exact.\<close>

theorem exponential_emission_capped:
  "total_emitted_by_depth F d \<le> TOTAL_SUPPLY \<and>
   unat (sat_sub (tc_total_supply RELYO_CONFIG) (total_emitted_by_depth F d)) + unat (total_emitted_by_depth F d)
     = 2500000000000000000 \<and>
   unat (epoch_at_depth d) = unat d div 100000"
  using emitted_le_supply [of F "epoch_at_depth d"]
  by (simp add: total_emitted_by_depth_def unat_sat_sub tc_total_supply_num word_le_unat epoch_at_depth_def
      NODE_EPOCH_DEPTH_def unat_div_distrib)

section \<open>Witnesses\<close>

text \<open>Fixed-point arithmetic in thousandths, one of the roundings the theorems cover.\<close>

definition fixed_point :: "int float_ops" where
  "fixed_point =
     \<lparr>f_lit = (\<lambda>m k. m * 1000 div 10 ^ k), f_of_u64 = (\<lambda>w. 1000 * uint w), f_of_usize = (\<lambda>n. 1000 * int n),
      f_to_u64 = (\<lambda>x. word_of_int (x div 1000)), f_add = (+), f_sub = (-), f_mul = (\<lambda>x y. x * y div 1000),
      f_div = (\<lambda>x y. x * 1000 div y), f_neg = uminus, f_exp = (\<lambda>x. 1000 + x), f_min = min,
      f_le = (\<le>), f_less = (<), f_sum = sum_list\<rparr>"

theorem fee_market_bounds_witness:
  "unat (effective_fee fixed_point (update_congestion fixed_point (default_fee_market fixed_point) 90 100))
     \<le> 1000000000"
  using fee_market_bounds [OF market_update [OF market_start], of fixed_point 90 100 0 0] by simp

theorem rewards_distribute_pool_witness:
  "vsum unat (calculate_rewards fixed_point rev 1000
     [(NodeId ''a'', \<lparr>ns_uptime_hours = 24000, ns_validated_txs = 0, ns_relayed_bytes = 0\<rparr>),
      (NodeId ''b'', \<lparr>ns_uptime_hours = 12000, ns_validated_txs = 0, ns_relayed_bytes = 0\<rparr>)] 0 0) = 1000"
proof -
  let ?nodes = "[(NodeId ''a'', \<lparr>ns_uptime_hours = 24000, ns_validated_txs = 0, ns_relayed_bytes = 0\<rparr>),
      (NodeId ''b'', \<lparr>ns_uptime_hours = 12000, ns_validated_txs = 0, ns_relayed_bytes = 0\<rparr>)]"
  have s: "[(NodeId ''b'', 200), (NodeId ''a'', 400)]
      = rev (map (\<lambda>(node, s). (node, compute_score fixed_point 0 0 s)) ?nodes)"
    by (simp add: compute_score_def fixed_point_def)
  have "\<not> f_le fixed_point (f_sum fixed_point (map snd [(NodeId ''b'', 200), (NodeId ''a'', 400)]))
      (f_lit fixed_point 0 0)"
    by (simp add: fixed_point_def)
  from rewards_distribute_pool [of ?nodes rev "[(NodeId ''b'', 200), (NodeId ''a'', 400)]" fixed_point 0 0 1000,
      OF _ _ _ s this] show ?thesis
    by (simp add: float_share_def fixed_point_def)
qed

end
