(* ===== verification/Wallets.thy ===== *)
theory Wallets
  imports Keystore Economics Transactions
begin

text \<open>
  The clients of a node that build transactions: \<open>relyo-wallet/src/wallet.rs\<close>, and
  \<open>client.rs\<close> and \<open>merchant.rs\<close> of \<open>relyo-sdk\<close>.  The clock (\<open>now\<close>), the seed of a new key and the
  random bytes of the key file are arguments.
\<close>

section \<open>Wallet\<close>

record wallet =
  wl_keypair :: keypair
  wl_address :: address
  wl_keystore_path :: string

definition wallet_create ::
    "crypto \<Rightarrow> vault \<Rightarrow> 's files \<Rightarrow> bytes \<Rightarrow> bytes \<Rightarrow> bytes \<Rightarrow> 's \<Rightarrow> string \<Rightarrow> string \<Rightarrow> (wallet \<times> 's) result" where
  "wallet_create C V S seed salt iv s path passphrase =
     (let keypair = generate C seed;
          address = from_public_key C (kp_public_key keypair)
      in try_then (save_keystore C V S salt iv s (secret keypair) passphrase path) (\<lambda>s'.
         Inr (\<lparr>wl_keypair = keypair, wl_address = address, wl_keystore_path = path\<rparr>, s')))"

definition wallet_open ::
    "crypto \<Rightarrow> vault \<Rightarrow> 's files \<Rightarrow> 's \<Rightarrow> string \<Rightarrow> string \<Rightarrow> wallet result" where
  "wallet_open C V S s path passphrase =
     try_then (load_keystore C V S s path passphrase) (\<lambda>keypair.
     let address = from_public_key C (kp_public_key keypair)
     in Inr \<lparr>wl_keypair = keypair, wl_address = address, wl_keystore_path = path\<rparr>)"

definition wallet_public_key_hex :: "crypto \<Rightarrow> wallet \<Rightarrow> string" where
  "wallet_public_key_hex C w = hex_encode C (pk_bytes (kp_public_key (wl_keypair w)))"

definition create_transaction ::
    "crypto \<Rightarrow> u64 \<Rightarrow> wallet \<Rightarrow> address \<Rightarrow> u64 \<Rightarrow> u64 \<Rightarrow> transaction_hash \<Rightarrow> transaction_hash \<Rightarrow> transaction" where
  "create_transaction C now w receiver amount n p1 p2 =
     builder_sign C now (wl_keypair w)
       (builder_parents p1 p2 (builder_new (wl_address w) receiver amount (base_fee RELYO_CONFIG) n))"

definition create_transaction_with_pow ::
    "crypto \<Rightarrow> u64 \<Rightarrow> wallet \<Rightarrow> address \<Rightarrow> u64 \<Rightarrow> u64 \<Rightarrow> transaction_hash \<Rightarrow> transaction_hash \<Rightarrow> transaction" where
  "create_transaction_with_pow C now w receiver amount n p1 p2 =
     builder_sign C now (wl_keypair w)
       (builder_parents p1 p2 (builder_new (wl_address w) receiver amount (base_fee RELYO_CONFIG) n))"

definition wallet_sign :: "crypto \<Rightarrow> wallet \<Rightarrow> bytes \<Rightarrow> signature" where
  "wallet_sign C w message = sign C (wl_keypair w) message"

section \<open>Client\<close>

record relyo_client =
  cl_keypair :: "keypair option"
  cl_address :: "address option"

definition client_new :: relyo_client where
  "client_new = \<lparr>cl_keypair = None, cl_address = None\<rparr>"

definition with_new_wallet :: "crypto \<Rightarrow> bytes \<Rightarrow> relyo_client" where
  "with_new_wallet C seed =
     (let kp = generate C seed; addr = from_public_key C (kp_public_key kp)
      in \<lparr>cl_keypair = Some kp, cl_address = Some addr\<rparr>)"

definition with_secret :: "crypto \<Rightarrow> secret_key \<Rightarrow> relyo_client" where
  "with_secret C sk =
     (let kp = from_secret C sk; addr = from_public_key C (kp_public_key kp)
      in \<lparr>cl_keypair = Some kp, cl_address = Some addr\<rparr>)"

definition client_public_key_hex :: "crypto \<Rightarrow> relyo_client \<Rightarrow> string option" where
  "client_public_key_hex C c = map_option (\<lambda>kp. hex_encode C (pk_bytes (kp_public_key kp))) (cl_keypair c)"

definition transfer ::
    "crypto \<Rightarrow> u64 \<Rightarrow> relyo_client \<Rightarrow> address \<Rightarrow> u64 \<Rightarrow> u64 \<Rightarrow> transaction_hash \<Rightarrow> transaction_hash \<Rightarrow>
       transaction result" where
  "transfer C now c to amount n p1 p2 =
     (case cl_keypair c of
        None \<Rightarrow> Inl (Wallet ''no keypair loaded'')
      | Some kp \<Rightarrow>
          (case cl_address c of
             None \<Rightarrow> Inl (Wallet ''no address derived'')
           | Some addr \<Rightarrow>
               Inr (builder_sign C now kp
                 (builder_parents p1 p2 (builder_new addr to amount (base_fee RELYO_CONFIG) n)))))"

definition transfer_rly ::
    "crypto \<Rightarrow> 'f float_ops \<Rightarrow> u64 \<Rightarrow> relyo_client \<Rightarrow> address \<Rightarrow> 'f \<Rightarrow> u64 \<Rightarrow> transaction_hash \<Rightarrow> transaction_hash \<Rightarrow>
       transaction result" where
  "transfer_rly C F now c to amount_rly n p1 p2 =
     transfer C now c to (rly_to_base F amount_rly) n p1 p2"

definition client_validate_address :: "crypto \<Rightarrow> string \<Rightarrow> address result" where
  "client_validate_address C addr = parse_address C addr"

definition verify_transaction :: "crypto \<Rightarrow> transaction \<Rightarrow> unit result" where
  "verify_transaction C tx = validate C tx"

section \<open>Merchant\<close>

record 'f payment_request =
  pr_merchant_address :: string
  pr_amount :: u64
  pr_amount_rly :: 'f
  pr_reference_id :: string
  pr_memo :: string
  pr_expires_at :: u64

record merchant_api =
  ma_keypair :: keypair
  ma_address :: address

definition merchant_new :: "crypto \<Rightarrow> keypair \<Rightarrow> merchant_api" where
  "merchant_new C kp = \<lparr>ma_keypair = kp, ma_address = from_public_key C (kp_public_key kp)\<rparr>"

definition create_payment_request ::
    "crypto \<Rightarrow> 'f float_ops \<Rightarrow> u64 \<Rightarrow> merchant_api \<Rightarrow> 'f \<Rightarrow> string \<Rightarrow> u64 \<Rightarrow> 'f payment_request" where
  "create_payment_request C F now m amount_rly memo ttl_seconds =
     (let amount = rly_to_base F amount_rly;
          expires_at = now + ttl_seconds * 1000;
          ref_data = as_str (ma_address m) @ show_word amount @ show_word now @ memo;
          ref_hash = sha3_256 C (string_bytes ref_data);
          reference_id = hex_encode C (take 16 ref_hash)
      in \<lparr>pr_merchant_address = as_str (ma_address m), pr_amount = amount, pr_amount_rly = amount_rly,
          pr_reference_id = reference_id, pr_memo = memo, pr_expires_at = expires_at\<rparr>)"

definition verify_payment :: "crypto \<Rightarrow> transaction \<Rightarrow> 'f payment_request \<Rightarrow> bool result" where
  "verify_payment C tx request =
     (if as_str (tx_receiver tx) \<noteq> pr_merchant_address request then Inr False
      else if tx_amount tx < pr_amount request then Inr False
      else if tx_timestamp tx > pr_expires_at request then Inr False
      else try_then (validate C tx) (\<lambda>_. Inr True))"

definition create_refund ::
    "crypto \<Rightarrow> u64 \<Rightarrow> merchant_api \<Rightarrow> transaction \<Rightarrow> u64 \<Rightarrow> transaction_hash \<Rightarrow> transaction_hash \<Rightarrow> transaction" where
  "create_refund C now m original_tx n p1 p2 =
     builder_sign C now (ma_keypair m)
       (builder_parents p1 p2
         (builder_new (ma_address m) (tx_sender original_tx) (tx_amount original_tx) (base_fee RELYO_CONFIG) n))"

section \<open>Facts\<close>

text \<open>What the clients build is always the same base-fee transfer, signed by its sender.\<close>

definition base_transfer ::
    "crypto \<Rightarrow> u64 \<Rightarrow> keypair \<Rightarrow> address \<Rightarrow> u64 \<Rightarrow> u64 \<Rightarrow> transaction_hash \<Rightarrow> transaction_hash \<Rightarrow> transaction" where
  "base_transfer C now kp to amount n p1 p2 =
     builder_sign C now kp (builder_parents p1 p2
       (builder_new (from_public_key C (kp_public_key kp)) to amount (base_fee RELYO_CONFIG) n))"

lemma base_transfer_fields [simp]:
  "tx_sender (base_transfer C now kp to v n p q) = from_public_key C (kp_public_key kp)"
  "tx_receiver (base_transfer C now kp to v n p q) = to" "tx_amount (base_transfer C now kp to v n p q) = v"
  "tx_fee (base_transfer C now kp to v n p q) = base_fee RELYO_CONFIG" "tx_nonce (base_transfer C now kp to v n p q) = n"
  "tx_parent_1 (base_transfer C now kp to v n p q) = p" "tx_parent_2 (base_transfer C now kp to v n p q) = q"
  "tx_type (base_transfer C now kp to v n p q) = Transfer" "tx_timestamp (base_transfer C now kp to v n p q) = now"
  by (simp_all add: base_transfer_def builder_parents_def builder_new_def)

lemma base_transfer_valid:
  assumes "crypto_ok C" "keypair_ok C kp"
  shows "validate C (base_transfer C now kp to v n p q) = Inr () \<longleftrightarrow>
    v \<noteq> 0 \<and> to \<noteq> from_public_key C (kp_public_key kp)"
  using builder_sign_verifies [OF assms]
  by (auto simp: base_transfer_def validate_Inr builder_parents_def builder_new_def is_genesis_def)

definition wallet_ok :: "crypto \<Rightarrow> wallet \<Rightarrow> bool" where
  "wallet_ok C w \<longleftrightarrow>
     keypair_ok C (wl_keypair w) \<and> wl_address w = from_public_key C (kp_public_key (wl_keypair w))"

lemma wallet_transaction:
  "wallet_ok C w \<Longrightarrow> create_transaction C now w to v n p q = base_transfer C now (wl_keypair w) to v n p q"
  "wallet_ok C w \<Longrightarrow> create_transaction_with_pow C now w to v n p q = base_transfer C now (wl_keypair w) to v n p q"
  by (simp_all add: create_transaction_def create_transaction_with_pow_def base_transfer_def wallet_ok_def)

lemma wallet_create_parts:
  "wallet_create C V S seed salt iv s path pass = Inr (w, s') \<longleftrightarrow>
    save_keystore C V S salt iv s (SecretKey seed) pass path = Inr s' \<and>
    w = \<lparr>wl_keypair = generate C seed, wl_address = from_public_key C (kp_public_key (generate C seed)),
         wl_keystore_path = path\<rparr>"
  by (auto simp: wallet_create_def try_then_Inr Let_def secret_def generate_def)

text \<open>A wallet survives its file: when a wallet was created at a path, opening the path with the same passphrase gives the same keys and address, and every transaction the wallet creates is signed by its sender and validates exactly when its amount is positive and its receiver is another address.\<close>

theorem wallet_reopens:
  assumes "crypto_ok C" "vault_ok V" "files_ok S" "length seed = 32"
    and "wallet_create C V S seed salt iv s path pass = Inr (w, s')"
  shows "wallet_open C V S s' path pass = Inr w \<and>
    (validate C (create_transaction C now w to v n p q) = Inr () \<longleftrightarrow> v \<noteq> 0 \<and> to \<noteq> wl_address w)"
proof -
  have w: "w = \<lparr>wl_keypair = generate C seed, wl_address = from_public_key C (kp_public_key (generate C seed)),
         wl_keystore_path = path\<rparr>" and save: "save_keystore C V S salt iv s (SecretKey seed) pass path = Inr s'"
    using assms(5) by (simp_all add: wallet_create_parts)
  have "load_keystore C V S s' path pass = Inr (generate C seed)"
    using saved_loads [OF assms(2,3) _ save] assms(4) by (simp add: from_secret_def generate_def)
  moreover have "wallet_ok C w" by (simp add: w wallet_ok_def)
  ultimately show ?thesis
    using base_transfer_valid [OF assms(1), of "wl_keypair w"]
    by (simp add: wallet_transaction wallet_open_def Let_def w)
qed

text \<open>The three clients agree: a client without a key refuses to transfer, and a client and a wallet with the same key build the same transaction at the same time.\<close>

theorem clients_agree:
  "transfer C now client_new to v n p q = Inl (Wallet ''no keypair loaded'') \<and>
   transfer C now (with_secret C sk) to v n p q
     = Inr (create_transaction C now \<lparr>wl_keypair = from_secret C sk,
         wl_address = from_public_key C (kp_public_key (from_secret C sk)), wl_keystore_path = path\<rparr> to v n p q)"
  by (simp add: transfer_def client_new_def with_secret_def create_transaction_def Let_def)

text \<open>Payments and refunds: a merchant recognises a base-fee transfer of a customer as a payment exactly when it goes to the merchant's address with at least the requested amount not after the expiry, provided it validates; and the refund of a recognised payment goes from the merchant to the payer with the paid amount and validates.\<close>

theorem payment_and_refund:
  assumes "crypto_ok C" "keypair_ok C mk" "keypair_ok C kp" "v \<noteq> 0"
    and "to \<noteq> from_public_key C (kp_public_key kp)"
    and request: "request = create_payment_request C F now (merchant_new C mk) amount memo ttl"
    and tx: "tx = base_transfer C t kp to v n p q"
  shows "(verify_payment C tx request = Inr True \<longleftrightarrow>
      to = from_public_key C (kp_public_key mk) \<and> unat (rly_to_base F amount) \<le> unat v \<and>
      unat t \<le> unat (now + ttl * 1000)) \<and>
    (verify_payment C tx request = Inr True \<longrightarrow>
      validate C (create_refund C now' (merchant_new C mk) tx n' p' q') = Inr () \<and>
      tx_receiver (create_refund C now' (merchant_new C mk) tx n' p' q') = tx_sender tx \<and>
      tx_amount (create_refund C now' (merchant_new C mk) tx n' p' q') = v)"
proof -
  let ?me = "from_public_key C (kp_public_key mk)"
  have valid: "validate C tx = Inr ()" using base_transfer_valid [OF assms(1,3)] assms(4,5) by (simp add: tx)
  have verify: "verify_payment C tx request = Inr True \<longleftrightarrow>
      to = ?me \<and> unat (rly_to_base F amount) \<le> unat v \<and> unat t \<le> unat (now + ttl * 1000)"
    using address.expand [of to ?me]
    by (auto simp: verify_payment_def valid word_less_unat not_less)
      (auto simp: request create_payment_request_def merchant_new_def Let_def tx word_less_unat not_less)
  have refund: "create_refund C now' (merchant_new C mk) tx n' p' q'
      = base_transfer C now' mk (from_public_key C (kp_public_key kp)) v n' p' q'"
    by (simp add: create_refund_def merchant_new_def base_transfer_def [of C now'] tx)
  show ?thesis
    using base_transfer_valid [OF assms(1,2), of now' "from_public_key C (kp_public_key kp)" v n' p' q'] assms(4,5)
    unfolding verify refund by (auto simp: tx)
qed

text \<open>Nothing ties a payment to one request: its reference is never compared.\<close>

theorem payment_reusable:
  assumes "verify_payment C tx request = Inr True"
    and "pr_merchant_address request' = pr_merchant_address request"
    and "pr_amount request' \<le> pr_amount request" "pr_expires_at request \<le> pr_expires_at request'"
  shows "verify_payment C tx request' = Inr True"
  using assms by (auto simp: verify_payment_def try_then_Inr split: if_splits)

section \<open>Witnesses\<close>

theorem wallet_reopens_witness:
  "\<exists>w. wallet_open demo_crypto demo_vault demo_files (Some ''k'') ''f'' ''pw'' = Inr w"
proof -
  let ?seed = "replicate 32 5 :: bytes"
  have "wallet_create demo_crypto demo_vault demo_files ?seed [1] [2] None ''f'' ''pw'' = Inr
     (\<lparr>wl_keypair = generate demo_crypto ?seed,
       wl_address = from_public_key demo_crypto (kp_public_key (generate demo_crypto ?seed)),
       wl_keystore_path = ''f''\<rparr>, Some ''k'')"
    using demo_save by (simp add: wallet_create_parts demo_secret_def)
  moreover have "length ?seed = 32" by simp
  ultimately show ?thesis using wallet_reopens [OF demo_crypto_ok demo_vault_ok demo_files_ok] by blast
qed

lemma demo_addresses_differ:
  "from_public_key demo_crypto (kp_public_key (generate demo_crypto (replicate 32 4)))
     \<noteq> from_public_key demo_crypto (kp_public_key (generate demo_crypto (replicate 32 5)))"
  by code_simp

theorem payment_and_refund_witness:
  "verify_payment demo_crypto
     (base_transfer demo_crypto 0 (generate demo_crypto (replicate 32 5))
       (from_public_key demo_crypto (kp_public_key (generate demo_crypto (replicate 32 4)))) 1 1 zero_hash zero_hash)
     (create_payment_request demo_crypto fixed_point 0
       (merchant_new demo_crypto (generate demo_crypto (replicate 32 4))) 0 ''memo'' 1) = Inr True"
proof -
  have "rly_to_base fixed_point 0 = 0" by (simp add: rly_to_base_def fixed_point_def)
  then show ?thesis
    using payment_and_refund [where F = fixed_point and v = 1 and now = 0 and amount = 0 and memo = "''memo''"
        and ttl = 1 and t = 0 and n = 1 and p = zero_hash and q = zero_hash,
        OF demo_crypto_ok keypair_ok_intros(2) keypair_ok_intros(2) _ demo_addresses_differ refl refl]
    by simp
qed

end
