(* ===== verification/Rpc.thy ===== *)
theory Rpc
  imports Node Wallets GraphShape
begin

text \<open>
  The JSON-RPC server of a node (\<open>relyo-node/src/rpc.rs\<close>) and the commands of
  \<open>relyo-wallet/src/main.rs\<close> that call it.  Values of \<open>serde_json\<close> are a type variable with the
  operations the code uses; a result object is the list of its fields.  The network between
  wallet and node is a function from requests to responses.
\<close>

section \<open>Values\<close>

text \<open>
  \<open>params.get(0)\<close>, \<open>as_str\<close>, \<open>from_value\<close> on the server; \<open>json!([...])\<close> and \<open>json!(1)\<close> on the client.
\<close>

record 'j json_ops =
  j_get0 :: "'j \<Rightarrow> 'j option"
  j_as_str :: "'j \<Rightarrow> string option"
  j_to_tx :: "'j \<Rightarrow> string + transaction"
  j_empty :: 'j
  j_str1 :: "string \<Rightarrow> 'j"
  j_tx1 :: "transaction \<Rightarrow> 'j"
  j_one :: 'j

definition json_ok :: "'j json_ops \<Rightarrow> bool" where
  "json_ok J \<longleftrightarrow>
     (\<forall>s. \<exists>v. j_get0 J (j_str1 J s) = Some v \<and> j_as_str J v = Some s) \<and>
     (\<forall>tx. \<exists>v. j_get0 J (j_tx1 J tx) = Some v \<and> j_to_tx J v = Inr tx)"

datatype 'f rpc_value = RStr string | RNum u64 | RFloat 'f | RStrs "string list"

type_synonym 'f fields = "(string \<times> 'f rpc_value) list"

record 'j rpc_request =
  rq_jsonrpc :: string
  rq_method :: string
  rq_params :: 'j
  rq_id :: 'j

record ('j, 'f) rpc_response =
  rs_jsonrpc :: string
  rs_result :: "'f fields option"
  rs_error :: "(int \<times> string) option"
  rs_id :: 'j

definition INVALID_REQUEST :: int where "INVALID_REQUEST = - 32600"
definition METHOD_NOT_FOUND :: int where "METHOD_NOT_FOUND = - 32601"
definition INVALID_PARAMS :: int where "INVALID_PARAMS = - 32602"
definition TX_REJECTED :: int where "TX_REJECTED = - 32000"

definition rpc_success :: "'j \<Rightarrow> 'f fields \<Rightarrow> ('j, 'f) rpc_response" where
  "rpc_success i r = \<lparr>rs_jsonrpc = ''2.0'', rs_result = Some r, rs_error = None, rs_id = i\<rparr>"

definition rpc_error :: "'j \<Rightarrow> int \<Rightarrow> string \<Rightarrow> ('j, 'f) rpc_response" where
  "rpc_error i code message = \<lparr>rs_jsonrpc = ''2.0'', rs_result = None, rs_error = Some (code, message), rs_id = i\<rparr>"

text \<open>The \<open>#[error(...)]\<close> texts of the error enum.\<close>

fun error_text :: "relyo_error \<Rightarrow> string" where
  "error_text (Crypto s) = ''cryptographic error: '' @ s"
| "error_text InvalidSignature = ''invalid signature''"
| "error_text (BatchVerifyError n t) =
     ''batch signature verification failed: '' @ show_nat n @ '' invalid out of '' @ show_nat t"
| "error_text (InvalidAddress s) = ''invalid address: '' @ s"
| "error_text (InvalidTransaction s) = ''invalid transaction: '' @ s"
| "error_text (InsufficientBalance have need) =
     ''insufficient balance: have '' @ show_word have @ '', need '' @ show_word need"
| "error_text (DuplicateNonce n) = ''duplicate nonce: '' @ show_word n"
| "error_text (SupplyCapExceeded s) = ''supply cap exceeded: '' @ s"
| "error_text (InvalidParent s) = ''invalid parent reference: '' @ s"
| "error_text (TransactionNotFound s) = ''transaction not found: '' @ s"
| "error_text (DoubleSpend s) = ''double spend detected for transaction '' @ s"
| "error_text (Dag s) = ''dag error: '' @ s"
| "error_text (Consensus s) = ''consensus error: '' @ s"
| "error_text (Network s) = ''network error: '' @ s"
| "error_text (Storage s) = ''storage error: '' @ s"
| "error_text (Serialization s) = ''serialization error: '' @ s"
| "error_text (RateLimitExceeded s) = ''rate limit exceeded for '' @ s"
| "error_text (NodeNotFound s) = ''node not found: '' @ s"
| "error_text (Config s) = ''configuration error: '' @ s"
| "error_text (Wallet s) = ''wallet error: '' @ s"
| "error_text GenesisExists = ''genesis already exists''"
| "error_text (Timeout n) = ''operation timed out after '' @ show_word n @ ''ms''"
| "error_text (Overflow s) = ''arithmetic overflow: '' @ s"
| "error_text (MerkleError s) = ''merkle proof verification failed: '' @ s"
| "error_text (SnapshotError s) = ''snapshot error: '' @ s"
| "error_text (StakingError s) = ''staking error: '' @ s"
| "error_text (SlashingError s) = ''slashing error: '' @ s"
| "error_text (FeeMarketError s) = ''fee market error: '' @ s"
| "error_text (PowError s) = ''proof of work error: '' @ s"
| "error_text (CheckpointError s) = ''checkpoint error: '' @ s"
| "error_text ChannelClosed = ''channel closed''"
| "error_text (PeerError s) = ''peer error: '' @ s"
| "error_text (SyncError s) = ''sync error: '' @ s"

text \<open>\<open>format!("{:?}", status)\<close>.\<close>

fun status_debug :: "transaction_status \<Rightarrow> string" where
  "status_debug Pending = ''Pending''"
| "status_debug Voting = ''Voting''"
| "status_debug Confirmed = ''Confirmed''"
| "status_debug Rejected = ''Rejected''"

section \<open>Handlers\<close>

definition handle_get_balance ::
    "crypto \<Rightarrow> 'j json_ops \<Rightarrow> 'f float_ops \<Rightarrow> relyo_node \<Rightarrow> 'j \<Rightarrow> 'j \<Rightarrow> ('j, 'f) rpc_response" where
  "handle_get_balance C J F n params i =
     (case Option.bind (j_get0 J params) (j_as_str J) of
        None \<Rightarrow> rpc_error i INVALID_PARAMS ''expected [address]''
      | Some addr_str \<Rightarrow>
          (case parse_address C addr_str of
             Inl e \<Rightarrow> rpc_error i INVALID_PARAMS (''invalid address: '' @ error_text e)
           | Inr addr \<Rightarrow>
               let b = balance (g_state (node_dag n)) addr; k = nonce (g_state (node_dag n)) addr
               in rpc_success i [(''address'', RStr (as_str addr)), (''balance'', RNum b),
                    (''balance_rly'', RFloat (base_to_rly F b)), (''nonce'', RNum k)]))"

definition handle_get_nonce ::
    "crypto \<Rightarrow> 'j json_ops \<Rightarrow> relyo_node \<Rightarrow> 'j \<Rightarrow> 'j \<Rightarrow> ('j, 'f) rpc_response" where
  "handle_get_nonce C J n params i =
     (case Option.bind (j_get0 J params) (j_as_str J) of
        None \<Rightarrow> rpc_error i INVALID_PARAMS ''expected [address]''
      | Some addr_str \<Rightarrow>
          (case parse_address C addr_str of
             Inl e \<Rightarrow> rpc_error i INVALID_PARAMS (''invalid address: '' @ error_text e)
           | Inr addr \<Rightarrow> rpc_success i [(''nonce'', RNum (nonce (g_state (node_dag n)) addr))]))"

definition handle_get_tips :: "crypto \<Rightarrow> relyo_node \<Rightarrow> 'j \<Rightarrow> ('j, 'f) rpc_response" where
  "handle_get_tips C n i =
     (let tips = map (to_hex C) (ts_tips (g_tips (node_dag n)))
      in rpc_success i [(''tips'', RStrs tips), (''count'', RNum (of_nat (length tips)))])"

definition handle_submit_tx ::
    "crypto \<Rightarrow> 'j json_ops \<Rightarrow> clock \<Rightarrow> relyo_node \<Rightarrow> 'j \<Rightarrow> 'j \<Rightarrow> ('j, 'f) rpc_response \<times> relyo_node" where
  "handle_submit_tx C J ck n params i =
     (case j_get0 J params of
        None \<Rightarrow> (rpc_error i INVALID_PARAMS ''expected [transaction_object]'', n)
      | Some tx_value \<Rightarrow>
          (case j_to_tx J tx_value of
             Inl e \<Rightarrow> (rpc_error i INVALID_PARAMS (''invalid transaction: '' @ e), n)
           | Inr tx \<Rightarrow>
               (case submit_transaction C ck n tx of
                  (Inr hash, n') \<Rightarrow>
                    (rpc_success i [(''hash'', RStr (to_hex C hash)), (''status'', RStr ''accepted'')], n')
                | (Inl e, n') \<Rightarrow> (rpc_error i TX_REJECTED (''transaction rejected: '' @ error_text e), n'))))"

definition handle_get_transaction ::
    "crypto \<Rightarrow> 'j json_ops \<Rightarrow> 'f float_ops \<Rightarrow> relyo_node \<Rightarrow> 'j \<Rightarrow> 'j \<Rightarrow> ('j, 'f) rpc_response" where
  "handle_get_transaction C J F n params i =
     (case Option.bind (j_get0 J params) (j_as_str J) of
        None \<Rightarrow> rpc_error i INVALID_PARAMS ''expected [tx_hash]''
      | Some hash_hex \<Rightarrow>
          (case from_hex C hash_hex of
             Inl e \<Rightarrow> rpc_error i INVALID_PARAMS (''invalid hash: '' @ error_text e)
           | Inr hash \<Rightarrow>
               (case get_node (node_dag n) hash of
                  None \<Rightarrow> rpc_error i INVALID_PARAMS ''transaction not found''
                | Some node \<Rightarrow>
                    let tx = dn_tx node
                    in rpc_success i
                      [(''hash'', RStr (to_hex C hash)), (''sender'', RStr (as_str (tx_sender tx))),
                       (''receiver'', RStr (as_str (tx_receiver tx))), (''amount'', RNum (tx_amount tx)),
                       (''amount_rly'', RFloat (base_to_rly F (tx_amount tx))), (''fee'', RNum (tx_fee tx)),
                       (''timestamp'', RNum (tx_timestamp tx)), (''nonce'', RNum (tx_nonce tx)),
                       (''parent_1'', RStr (to_hex C (tx_parent_1 tx))),
                       (''parent_2'', RStr (to_hex C (tx_parent_2 tx))),
                       (''status'', RStr (status_debug (dn_status node))), (''weight'', RNum (dn_weight node)),
                       (''depth'', RNum (dn_depth node)),
                       (''confirmation_depth'', RNum (confirmation_depth (node_dag n) hash))])))"

definition handle_get_stats :: "'f float_ops \<Rightarrow> u64 \<Rightarrow> relyo_node \<Rightarrow> 'j \<Rightarrow> ('j, 'f) rpc_response" where
  "handle_get_stats F now n i =
     (let dag = node_dag n; circulating = total_circulating (g_state dag)
      in rpc_success i
        [(''dag_size'', RNum (g_total_count dag)), (''max_depth'', RNum (g_max_depth dag)),
         (''tip_count'', RNum (of_nat (tip_count (g_tips dag)))),
         (''mempool_size'', RNum (of_nat (mempool_size n))), (''uptime_secs'', RNum (uptime_secs now n)),
         (''circulating_supply'', RNum circulating),
         (''circulating_supply_rly'', RFloat (base_to_rly F circulating)),
         (''total_supply'', RNum (tc_total_supply RELYO_CONFIG)),
         (''node_id'', RStr (node_str (rn_node_id n)))])"

definition handle_get_emission :: "'f float_ops \<Rightarrow> relyo_node \<Rightarrow> 'j \<Rightarrow> ('j, 'f) rpc_response" where
  "handle_get_emission F n i =
     (let depth = g_max_depth (node_dag n);
          reward = exp_reward_at_depth F depth;
          epoch = epoch_at_depth depth;
          total_emitted = total_emitted_by_depth F depth
      in rpc_success i
        [(''current_depth'', RNum depth), (''current_epoch'', RNum epoch), (''reward_per_tx'', RNum reward),
         (''reward_per_tx_rly'', RFloat (base_to_rly F reward)), (''total_emitted'', RNum total_emitted),
         (''total_emitted_rly'', RFloat (base_to_rly F total_emitted)),
         (''remaining'', RNum (sat_sub (tc_total_supply RELYO_CONFIG) total_emitted)),
         (''decay_model'', RStr ''exponential''), (''total_epochs'', RNum TOTAL_EPOCHS)])"

definition handle_rpc ::
    "crypto \<Rightarrow> 'j json_ops \<Rightarrow> 'f float_ops \<Rightarrow> clock \<Rightarrow> relyo_node \<Rightarrow> 'j rpc_request \<Rightarrow>
       ('j, 'f) rpc_response \<times> relyo_node" where
  "handle_rpc C J F ck n req =
     (if rq_jsonrpc req \<noteq> ''2.0'' then (rpc_error (rq_id req) INVALID_REQUEST ''jsonrpc must be \"2.0\"'', n)
      else if rq_method req = ''rly_getBalance'' then (handle_get_balance C J F n (rq_params req) (rq_id req), n)
      else if rq_method req = ''rly_getNonce'' then (handle_get_nonce C J n (rq_params req) (rq_id req), n)
      else if rq_method req = ''rly_getTips'' then (handle_get_tips C n (rq_id req), n)
      else if rq_method req = ''rly_submitTransaction'' then handle_submit_tx C J ck n (rq_params req) (rq_id req)
      else if rq_method req = ''rly_getTransaction''
        then (handle_get_transaction C J F n (rq_params req) (rq_id req), n)
      else if rq_method req = ''rly_getStats'' then (handle_get_stats F (ck_ms ck) n (rq_id req), n)
      else if rq_method req = ''rly_getEmission'' then (handle_get_emission F n (rq_id req), n)
      else (rpc_error (rq_id req) METHOD_NOT_FOUND (''method '' @ [CHR 0x27] @ rq_method req @ [CHR 0x27] @ '' not found''), n))"

section \<open>Facts\<close>

lemma response_fields [simp]:
  "rs_id (rpc_success i r) = i" "rs_jsonrpc (rpc_success i r) = ''2.0''" "rs_result (rpc_success i r) = Some r"
  "rs_error (rpc_success i r) = None" "rs_id (rpc_error i c m) = i" "rs_jsonrpc (rpc_error i c m) = ''2.0''"
  "rs_result (rpc_error i c m) = None" "rs_error (rpc_error i c m) = Some (c, m)"
  by (simp_all add: rpc_success_def rpc_error_def)

text \<open>A response to the request with identifier \<open>i\<close>: a result or an error, never both.\<close>

definition answers :: "('j, 'f) rpc_response \<Rightarrow> 'j \<Rightarrow> bool" where
  "answers r i \<longleftrightarrow> rs_id r = i \<and> rs_jsonrpc r = ''2.0'' \<and> (rs_result r = None \<longleftrightarrow> rs_error r \<noteq> None)"

lemma answers_intros [simp]: "answers (rpc_success i r) i" "answers (rpc_error i c m) i"
  by (simp_all add: answers_def)

lemma handlers_answer:
  "answers (handle_get_balance C J F n params i) i" "answers (handle_get_nonce C J n params i) i"
  "answers (handle_get_tips C n i) i" "answers (handle_get_transaction C J F n params i) i"
  "answers (handle_get_stats F now n i) i" "answers (handle_get_emission F n i) i"
  by (simp_all add: handle_get_balance_def handle_get_nonce_def handle_get_tips_def handle_get_transaction_def
      handle_get_stats_def handle_get_emission_def Let_def split: option.split sum.split)

lemma handle_submit_cases:
  assumes "handle_submit_tx C J ck n params i = (resp, n')"
  shows "answers resp i \<and>
    (n' = n \<and> rs_error resp \<noteq> None \<or>
     (\<exists>v tx. j_get0 J params = Some v \<and> j_to_tx J v = Inr tx \<and> n' = snd (submit_transaction C ck n tx) \<and>
        (rs_error resp = None \<longleftrightarrow> is_ok (fst (submit_transaction C ck n tx)))))"
proof (cases "j_get0 J params")
  case (Some v)
  show ?thesis
  proof (cases "j_to_tx J v")
    case (Inr tx)
    obtain r m where s: "submit_transaction C ck n tx = (r, m)" by fastforce
    from Some Inr s assms show ?thesis by (cases r) (auto simp: handle_submit_tx_def)
  qed (use assms in \<open>auto simp: handle_submit_tx_def Some\<close>)
qed (use assms in \<open>auto simp: handle_submit_tx_def\<close>)

text \<open>The server answers every request, with its identifier and either a result or an error, and only a well-formed \<open>rly_submitTransaction\<close> of JSON-RPC 2.0 can change the node: then the node is as after submitting the transaction of the request, and the answer is a result exactly when the submission succeeded; all other requests leave the node as it is.\<close>

theorem rpc_dispatch_safe:
  assumes "handle_rpc C J F ck n req = (resp, n')"
  shows "rs_id resp = rq_id req \<and> rs_jsonrpc resp = ''2.0'' \<and> (rs_result resp = None \<longleftrightarrow> rs_error resp \<noteq> None) \<and>
    (n' = n \<or>
     rq_jsonrpc req = ''2.0'' \<and> rq_method req = ''rly_submitTransaction'' \<and>
     (\<exists>v tx. j_get0 J (rq_params req) = Some v \<and> j_to_tx J v = Inr tx \<and>
        n' = snd (submit_transaction C ck n tx) \<and> (rs_error resp = None \<longleftrightarrow> is_ok (fst (submit_transaction C ck n tx)))))"
proof -
  note sub = handle_submit_cases [of C J ck n "rq_params req" "rq_id req" resp n']
  then have "answers resp (rq_id req)"
    using assms unfolding handle_rpc_def by (auto simp: handlers_answer split: if_splits)
  moreover have "n' = n \<or> rq_jsonrpc req = ''2.0'' \<and> rq_method req = ''rly_submitTransaction'' \<and>
      handle_submit_tx C J ck n (rq_params req) (rq_id req) = (resp, n')"
    using assms unfolding handle_rpc_def by (auto split: if_splits)
  ultimately show ?thesis using sub unfolding answers_def by blast
qed

text \<open>A transaction of the graph can be looked up by its hash: \<open>rly_getTransaction\<close> on the hexadecimal form of the hash of a node returns that node's sender, receiver, amount and status, and \<open>rly_getBalance\<close> on a derived address returns its balance and nonce.\<close>

theorem rpc_lookups:
  assumes "crypto_ok C" "json_ok J" "get_node (node_dag n) h = Some node" "length (hash_bytes h) = 32"
    and "addr = from_public_key C pk"
  shows "\<exists>fs gs.
    rs_result (handle_get_transaction C J F n (j_str1 J (to_hex C h)) i) = Some fs \<and>
    map_of fs ''hash'' = Some (RStr (to_hex C h)) \<and>
    map_of fs ''sender'' = Some (RStr (as_str (tx_sender (dn_tx node)))) \<and>
    map_of fs ''receiver'' = Some (RStr (as_str (tx_receiver (dn_tx node)))) \<and>
    map_of fs ''amount'' = Some (RNum (tx_amount (dn_tx node))) \<and>
    map_of fs ''status'' = Some (RStr (status_debug (dn_status node))) \<and>
    rs_result (handle_get_balance C J F n (j_str1 J (as_str addr)) i) = Some gs \<and>
    map_of gs ''balance'' = Some (RNum (balance (g_state (node_dag n)) addr)) \<and>
    map_of gs ''nonce'' = Some (RNum (nonce (g_state (node_dag n)) addr))"
proof -
  have str: "Option.bind (j_get0 J (j_str1 J s)) (j_as_str J) = Some s" for s
    using assms(2) by (auto simp: json_ok_def bind_eq_Some_conv)
  have hex: "from_hex C (to_hex C h) = Inr h"
    using assms(4) by (simp add: from_hex_def to_hex_def crypto_okD [OF assms(1)])
  have "parse_address C (as_str addr) = Inr addr"
    using from_public_key_valid [OF assms(1)] by (simp add: parse_address_def assms(5) from_public_key_def)
  then show ?thesis
    by (simp add: handle_get_transaction_def handle_get_balance_def str hex assms(3) Let_def)
qed

section \<open>Witnesses\<close>

text \<open>Values that are one string or one transaction.\<close>

definition demo_json :: "(string + transaction) json_ops" where
  "demo_json =
     \<lparr>j_get0 = Some, j_as_str = (\<lambda>v. case v of Inl s \<Rightarrow> Some s | Inr _ \<Rightarrow> None),
      j_to_tx = (\<lambda>v. case v of Inl _ \<Rightarrow> Inl [] | Inr tx \<Rightarrow> Inr tx), j_empty = Inl [], j_str1 = Inl, j_tx1 = Inr,
      j_one = Inl ''1''\<rparr>"

lemma demo_json_ok [simp]: "json_ok demo_json"
  by (simp add: json_ok_def demo_json_def)

theorem rpc_dispatch_safe_witness:
  "rs_id (fst (handle_rpc demo_crypto demo_json fixed_point demo_clock demo_node
     \<lparr>rq_jsonrpc = ''2.0'', rq_method = ''rly_getTips'', rq_params = Inl [], rq_id = Inl ''7''\<rparr>)) = Inl ''7''"
proof -
  obtain resp n' where r: "handle_rpc demo_crypto demo_json fixed_point demo_clock demo_node
     \<lparr>rq_jsonrpc = ''2.0'', rq_method = ''rly_getTips'', rq_params = Inl [], rq_id = Inl ''7''\<rparr> = (resp, n')"
    by fastforce
  from rpc_dispatch_safe [OF r] show ?thesis by (simp add: r)
qed

theorem rpc_lookups_witness:
  "\<exists>fs. rs_result (handle_get_transaction demo_crypto demo_json fixed_point demo_node
     (j_str1 demo_json (to_hex demo_crypto (tx_hash demo_crypto demo_genesis_tx))) (Inl ''7'')) = Some fs"
proof -
  let ?h = "tx_hash demo_crypto demo_genesis_tx"
  have "?h \<in> set (keys (g_nodes demo_graph))" by (simp only: demo_graph_parts list.set) simp
  then obtain node where "get_node (node_dag demo_node) ?h = Some node"
    using has_key_iff [of "g_nodes demo_graph" ?h]
    by (auto simp: get_node_def demo_node_parts has_key_def simp del: set_map)
  moreover have "length (hash_bytes ?h) = 32"
    using crypto_okD(1) [OF demo_crypto_ok] by (simp add: tx_hash_def sha3_256_multi_def)
  ultimately show ?thesis using rpc_lookups [OF demo_crypto_ok demo_json_ok _ _ refl] by blast
qed

end
