(* ===== verification/WalletCli.thy ===== *)
theory WalletCli
  imports Rpc
begin

text \<open>
  The commands of \<open>relyo-wallet/src/main.rs\<close> that build or look up transactions, against the
  JSON-RPC server of a node.  \<open>srv\<close> is the other side of the HTTP request: it takes the state of
  the node and a request, and gives a response, or the error of the transport.  Printing and the
  exit code are the result: \<open>Inl\<close> with a message when the command fails.
\<close>

type_synonym ('n, 'j, 'f) server = "'n \<Rightarrow> 'j rpc_request \<Rightarrow> (string + ('j, 'f) rpc_response) \<times> 'n"

definition rpc_call ::
    "'j json_ops \<Rightarrow> ('n, 'j, 'f) server \<Rightarrow> 'n \<Rightarrow> string \<Rightarrow> 'j \<Rightarrow> (string + 'f fields) \<times> 'n" where
  "rpc_call J srv s m params =
     (let body = \<lparr>rq_jsonrpc = ''2.0'', rq_method = m, rq_params = params, rq_id = j_one J\<rparr>;
          (resp, s') = srv s body
      in case resp of
           Inl e \<Rightarrow> (Inl e, s')
         | Inr json \<Rightarrow>
             (case rs_error json of
                Some (_, msg) \<Rightarrow> (Inl (''RPC error: '' @ msg), s')
              | None \<Rightarrow>
                  (case rs_result json of
                     Some r \<Rightarrow> (Inr r, s')
                   | None \<Rightarrow> (Inl (''RPC response missing '' @ [CHR 0x27] @ ''result'' @ [CHR 0x27] @ '' field''), s'))))"

text \<open>\<open>v[name].as_u64().unwrap_or(0)\<close> and the strings of \<open>v["tips"]\<close>.\<close>

definition field_u64 :: "'f fields \<Rightarrow> string \<Rightarrow> u64" where
  "field_u64 fs name = (case map_of fs name of Some (RNum n) \<Rightarrow> n | _ \<Rightarrow> 0)"

definition field_strs :: "'f fields \<Rightarrow> string \<Rightarrow> string list" where
  "field_strs fs name = (case map_of fs name of Some (RStrs ss) \<Rightarrow> ss | _ \<Rightarrow> [])"

definition choose_parents :: "crypto \<Rightarrow> string list \<Rightarrow> (transaction_hash \<times> transaction_hash) result" where
  "choose_parents C tips =
     try_then (if tips \<noteq> [] then from_hex C (tips ! 0) else Inr zero_hash) (\<lambda>parent_1.
     try_then (if length tips > 1 then from_hex C (tips ! 1) else Inr parent_1) (\<lambda>parent_2.
     Inr (parent_1, parent_2)))"

definition wallet_send ::
    "crypto \<Rightarrow> 'j json_ops \<Rightarrow> 'f float_ops \<Rightarrow> ('n, 'j, 'f) server \<Rightarrow> u64 \<Rightarrow> wallet \<Rightarrow> string \<Rightarrow> 'f \<Rightarrow> 'n \<Rightarrow>
       (string + string) \<times> 'n" where
  "wallet_send C J F srv now w to amount s =
     (case parse_address C to of
        Inl e \<Rightarrow> (Inl (error_text e), s)
      | Inr receiver \<Rightarrow>
          let amount_base = rly_to_base F amount;
              (nonce_resp, s1) = rpc_call J srv s ''rly_getNonce'' (j_str1 J (as_str (wl_address w)))
          in case nonce_resp of Inl e \<Rightarrow> (Inl e, s1) | Inr nr \<Rightarrow>
          let next_nonce = field_u64 nr ''nonce'' + 1;
              (tips_resp, s2) = rpc_call J srv s1 ''rly_getTips'' (j_empty J)
          in case tips_resp of Inl e \<Rightarrow> (Inl e, s2) | Inr tr \<Rightarrow>
          (case choose_parents C (field_strs tr ''tips'') of
             Inl e \<Rightarrow> (Inl (error_text e), s2)
           | Inr (parent_1, parent_2) \<Rightarrow>
               let tx = create_transaction_with_pow C now w receiver amount_base next_nonce parent_1 parent_2;
                   (submit_resp, s3) = rpc_call J srv s2 ''rly_submitTransaction'' (j_tx1 J tx)
               in case submit_resp of
                    Inl e \<Rightarrow> (Inl e, s3)
                  | Inr fs \<Rightarrow>
                      (case map_of fs ''hash'' of
                         Some (RStr h) \<Rightarrow> (Inr h, s3)
                       | Some _ \<Rightarrow> (Inr ''?'', s3)
                       | None \<Rightarrow> (Inl ''Transaction rejected by node.'', s3))))"

text \<open>The \<open>sign\<close> command: no node is asked, both parents are the zero hash.\<close>

definition wallet_sign_offline ::
    "crypto \<Rightarrow> 'f float_ops \<Rightarrow> u64 \<Rightarrow> wallet \<Rightarrow> string \<Rightarrow> 'f \<Rightarrow> u64 \<Rightarrow> transaction result" where
  "wallet_sign_offline C F now w to amount n =
     try_then (parse_address C to) (\<lambda>receiver.
     Inr (create_transaction_with_pow C now w receiver (rly_to_base F amount) n zero_hash zero_hash))"

definition wallet_balance ::
    "'j json_ops \<Rightarrow> ('n, 'j, 'f) server \<Rightarrow> string \<Rightarrow> 'n \<Rightarrow> (string + u64 \<times> u64) \<times> 'n" where
  "wallet_balance J srv addr_str s =
     (let (resp, s') = rpc_call J srv s ''rly_getBalance'' (j_str1 J addr_str)
      in case resp of
           Inl e \<Rightarrow> (Inl e, s')
         | Inr fs \<Rightarrow> (Inr (field_u64 fs ''balance'', field_u64 fs ''nonce''), s'))"

section \<open>Facts\<close>

text \<open>A node behind a network that delivers: one request at a time.\<close>

definition node_server ::
    "crypto \<Rightarrow> 'j json_ops \<Rightarrow> 'f float_ops \<Rightarrow> clock \<Rightarrow> (relyo_node, 'j, 'f) server" where
  "node_server C J F ck n req = (let (resp, n') = handle_rpc C J F ck n req in (Inr resp, n'))"

lemma json_str1: "json_ok J \<Longrightarrow> Option.bind (j_get0 J (j_str1 J s)) (j_as_str J) = Some s"
  by (auto simp: json_ok_def bind_eq_Some_conv)

lemma call_nonce:
  assumes "json_ok J" "parse_address C a = Inr addr"
  shows "rpc_call J (node_server C J F ck) n ''rly_getNonce'' (j_str1 J a)
    = (Inr [(''nonce'', RNum (nonce (g_state (node_dag n)) addr))], n)"
  by (simp add: rpc_call_def node_server_def handle_rpc_def handle_get_nonce_def json_str1 [OF assms(1)] assms(2))

lemma call_tips:
  "rpc_call J (node_server C J F ck) n ''rly_getTips'' v
    = (Inr [(''tips'', RStrs (map (to_hex C) (ts_tips (g_tips (node_dag n))))),
        (''count'', RNum (of_nat (length (ts_tips (g_tips (node_dag n))))))], n)"
  by (simp add: rpc_call_def node_server_def handle_rpc_def handle_get_tips_def Let_def)

lemma call_submit:
  assumes "json_ok J"
  shows "rpc_call J (node_server C J F ck) n ''rly_submitTransaction'' (j_tx1 J tx)
    = (case submit_transaction C ck n tx of
         (Inr h, n') \<Rightarrow> (Inr [(''hash'', RStr (to_hex C h)), (''status'', RStr ''accepted'')], n')
       | (Inl e, n') \<Rightarrow> (Inl (''RPC error: transaction rejected: '' @ error_text e), n'))"
proof -
  obtain v where "j_get0 J (j_tx1 J tx) = Some v" "j_to_tx J v = Inr tx" using assms by (auto simp: json_ok_def)
  then show ?thesis
    by (simp add: rpc_call_def node_server_def handle_rpc_def handle_submit_tx_def split: prod.split sum.split)
qed

text \<open>The two parents that \<open>send\<close> picks from a list of tips.\<close>

definition tip_parents :: "transaction_hash list \<Rightarrow> transaction_hash \<times> transaction_hash" where
  "tip_parents tips =
     (case tips of [] \<Rightarrow> (zero_hash, zero_hash) | [h] \<Rightarrow> (h, h) | h # k # _ \<Rightarrow> (h, k))"

lemma choose_parents_tips:
  assumes "crypto_ok C" "\<And>h. h \<in> set tips \<Longrightarrow> length (hash_bytes h) = 32"
  shows "choose_parents C (map (to_hex C) tips) = Inr (tip_parents tips)"
proof -
  have "from_hex C (to_hex C h) = Inr h" if "h \<in> set tips" for h
    using assms(2) [OF that] by (simp add: from_hex_def to_hex_def crypto_okD [OF assms(1)])
  then show ?thesis
    by (cases tips; cases "tl tips") (auto simp: choose_parents_def tip_parents_def)
qed

lemma tip_in_graph:
  assumes "crypto_ok C" "graph_ok C g" "h \<in> set (ts_tips (g_tips g))"
  shows "has_key (g_nodes g) h \<and> length (hash_bytes h) = 32"
proof -
  obtain node where node: "map_of (g_nodes g) h = Some node"
    using graph_okD(4) [OF assms(2)] assms(3) by (auto simp: has_tip_def)
  then have "tx_hash C (dn_tx node) = h" using graph_okD(3) [OF assms(2)] by (simp add: node_ok_def)
  then have "length (hash_bytes h) = 32"
    using crypto_okD(1) [OF assms(1)] by (auto simp: tx_hash_def sha3_256_multi_def)
  with node show ?thesis by (simp add: has_key_def)
qed

text \<open>The transaction that \<open>send\<close> submits.\<close>

definition sent_transaction :: "crypto \<Rightarrow> u64 \<Rightarrow> wallet \<Rightarrow> address \<Rightarrow> u64 \<Rightarrow> dag_graph \<Rightarrow> transaction" where
  "sent_transaction C now w receiver v g =
     (let (p, q) = tip_parents (ts_tips (g_tips g))
      in base_transfer C now (wl_keypair w) receiver v (nonce (g_state g) (wl_address w) + 1) p q)"

lemma sent_acceptable:
  assumes "crypto_ok C" "wallet_ok C w" "graph_ok C g"
  shows "acceptable C g (sent_transaction C now w receiver v g) \<longleftrightarrow>
    v \<noteq> 0 \<and> receiver \<noteq> wl_address w \<and> ts_tips (g_tips g) \<noteq> [] \<and>
    unat v + 1000000 \<le> unat (balance (g_state g) (wl_address w)) \<and>
    \<not> has_key (g_nodes g) (tx_hash C (sent_transaction C now w receiver v g)) \<and>
    sat_add (total_circulating (g_state g)) v \<le> SUPPLY_CAP \<and>
    \<not> has_key (committed_nonces (g_conflicts g)) (as_str (wl_address w), nonce (g_state g) (wl_address w) + 1)"
proof -
  let ?tx = "sent_transaction C now w receiver v g" and ?tips = "ts_tips (g_tips g)"
  obtain p q where pq: "tip_parents ?tips = (p, q)" by fastforce
  have addr: "from_public_key C (kp_public_key (wl_keypair w)) = wl_address w" and kp: "keypair_ok C (wl_keypair w)"
    using assms(2) by (simp_all add: wallet_ok_def)
  have tx: "?tx = base_transfer C now (wl_keypair w) receiver v (nonce (g_state g) (wl_address w) + 1) p q"
    by (simp add: sent_transaction_def pq)
  have "\<not> has_key (g_nodes g) zero_hash" using assms(3) by (simp add: graph_okD)
  then have parents: "has_key (g_nodes g) p \<and> has_key (g_nodes g) q \<longleftrightarrow> ?tips \<noteq> []"
    using pq tip_in_graph [OF assms(1,3)] by (auto simp: tip_parents_def split: list.splits)
  have cost: "unat v + unat (base_fee RELYO_CONFIG) < 2 ^ 64 \<and> v + base_fee RELYO_CONFIG \<le> b \<longleftrightarrow>
      unat v + 1000000 \<le> unat b" for b
  proof (cases "unat v + unat (base_fee RELYO_CONFIG) < 2 ^ 64")
    case True
    then have "unat (v + base_fee RELYO_CONFIG) = unat v + 1000000" by (subst unat_add_no_wrap) simp_all
    with True show ?thesis by (simp add: word_le_unat)
  next
    case False
    then show ?thesis using unat_u64_bound [of b] by simp
  qed
  show ?thesis
    unfolding acceptable_def tx
    using base_transfer_valid [OF assms(1) kp] parents cost [of "balance (g_state g) (wl_address w)"]
    by (auto simp: addr nonce_key_def is_genesis_def)
qed

text \<open>C26: Sending from the wallet to a well-formed node is complete: the command asks the node for the sender's nonce and the tips, builds one signed transfer from them and submits it; it reports the hash exactly when the node's submission accepts this transaction and leaves the node as that submission does. When the node's rate limiter admits the sender, that happens exactly when the amount is positive and affordable with the fee, the receiver is another address, the graph has a tip, the supply check passes, and the transaction and its nonce are new: signature, nonce and parents are never the reason for a refusal.\<close>

theorem wallet_send_exact:
  assumes "crypto_ok C" "json_ok J" "wallet_ok C w" "graph_ok C (node_dag n)" "parse_address C to = Inr receiver"
    and tx: "tx = sent_transaction C now w receiver (rly_to_base F amount) (node_dag n)"
  shows "wallet_send C J F (node_server C J F ck) now w to amount n =
      (case submit_transaction C ck n tx of
         (Inr h, n') \<Rightarrow> (Inr (to_hex C h), n')
       | (Inl e, n') \<Rightarrow> (Inl (''RPC error: transaction rejected: '' @ error_text e), n')) \<and>
    (fst (limiter_check (rn_limiter n) (wl_address w) (int (ck_instant ck))) \<longrightarrow>
     (is_ok (fst (submit_transaction C ck n tx)) \<longleftrightarrow>
      rly_to_base F amount \<noteq> 0 \<and> receiver \<noteq> wl_address w \<and> ts_tips (g_tips (node_dag n)) \<noteq> [] \<and>
      unat (rly_to_base F amount) + 1000000 \<le> unat (balance (g_state (node_dag n)) (wl_address w)) \<and>
      \<not> has_key (g_nodes (node_dag n)) (tx_hash C tx) \<and>
      sat_add (total_circulating (g_state (node_dag n))) (rly_to_base F amount) \<le> SUPPLY_CAP \<and>
      \<not> has_key (committed_nonces (g_conflicts (node_dag n)))
           (as_str (wl_address w), nonce (g_state (node_dag n)) (wl_address w) + 1)))"
proof -
  let ?g = "node_dag n" and ?v = "rly_to_base F amount"
  obtain p q where pq: "tip_parents (ts_tips (g_tips ?g)) = (p, q)" by fastforce
  have "parse_address C (as_str (wl_address w)) = Inr (wl_address w)"
    using assms(3) from_public_key_valid [OF assms(1)] by (simp add: wallet_ok_def parse_address_def from_public_key_def)
  note nonce = call_nonce [OF assms(2) this, of F ck n]
  have parents: "choose_parents C (map (to_hex C) (ts_tips (g_tips ?g))) = Inr (p, q)"
    using choose_parents_tips [OF assms(1)] tip_in_graph [OF assms(1,4)] pq by metis
  have "create_transaction_with_pow C now w receiver ?v (nonce (g_state ?g) (wl_address w) + 1) p q = tx"
    by (simp add: tx sent_transaction_def pq wallet_transaction [OF assms(3)])
  then have send: "wallet_send C J F (node_server C J F ck) now w to amount n =
      (case submit_transaction C ck n tx of
         (Inr h, n') \<Rightarrow> (Inr (to_hex C h), n')
       | (Inl e, n') \<Rightarrow> (Inl (''RPC error: transaction rejected: '' @ error_text e), n'))"
    by (simp add: wallet_send_def assms(5) nonce call_tips call_submit [OF assms(2)] parents field_u64_def
        field_strs_def split: prod.split sum.split)
  have sender: "tx_sender tx = wl_address w"
    using assms(3) by (simp add: tx sent_transaction_def pq wallet_ok_def)
  obtain r n' where s: "submit_transaction C ck n tx = (r, n')" by fastforce
  have "is_ok r \<longleftrightarrow> acceptable C ?g tx" if "fst (limiter_check (rn_limiter n) (wl_address w) (int (ck_instant ck)))"
    using submit_cases [OF s] that by (auto simp: sender split: if_splits)
  with send sent_acceptable [OF assms(1,3,4), of now receiver ?v] show ?thesis
    by (simp add: s flip: tx)
qed

text \<open>What the \<open>sign\<close> command signs can never be submitted: its parents are both the zero hash and its type is not genesis, so every node with a well-formed graph refuses it.\<close>

theorem offline_transaction_refused:
  assumes "wallet_ok C w" "wallet_sign_offline C F now w to amount k = Inr tx" "graph_ok C (node_dag n)"
  shows "\<exists>e. fst (submit_transaction C ck n tx) = Inl e"
proof -
  obtain receiver where tx: "tx = base_transfer C now (wl_keypair w) receiver (rly_to_base F amount) k zero_hash zero_hash"
    using assms(2) by (auto simp: wallet_sign_offline_def try_then_Inr wallet_transaction [OF assms(1)])
  have "\<not> acceptable C (node_dag n) tx"
    using graph_okD(2) [OF assms(3)] by (simp add: acceptable_def tx is_genesis_def)
  moreover obtain r n' where "submit_transaction C ck n tx = (r, n')" by fastforce
  ultimately show ?thesis using submit_cases by fastforce
qed

section \<open>Witnesses\<close>

definition demo_wallet :: wallet where
  "demo_wallet = \<lparr>wl_keypair = demo_kp, wl_address = demo_addr, wl_keystore_path = ''f''\<rparr>"

lemma demo_wallet_ok [simp]: "wallet_ok demo_crypto demo_wallet"
  by (simp add: wallet_ok_def demo_wallet_def demo_addr_def) (simp add: demo_kp_def)

lemma demo_graph_ok: "graph_ok demo_crypto (node_dag demo_node)"
  using grown_ok [OF demo_grown] by (simp add: demo_node_parts)

definition demo_receiver :: address where
  "demo_receiver = from_public_key demo_crypto (PublicKey (replicate 32 4))"

lemma demo_receiver_parses: "parse_address demo_crypto (as_str demo_receiver) = Inr demo_receiver"
  using from_public_key_valid [OF demo_crypto_ok] by (simp add: parse_address_def demo_receiver_def from_public_key_def)

lemma demo_sent_hash:
  "tx_hash demo_crypto (sent_transaction demo_crypto 9 demo_wallet demo_receiver 100000 demo_graph)
     \<noteq> tx_hash demo_crypto demo_genesis_tx"
  by code_simp

lemma demo_receiver_differs: "demo_receiver \<noteq> demo_addr"
  by code_simp

text \<open>Sending 0.001 RLY from an account with 0.05 RLY.\<close>

theorem wallet_send_exact_witness:
  "\<exists>h. fst (wallet_send demo_crypto demo_json fixed_point (node_server demo_crypto demo_json fixed_point demo_clock)
      9 demo_wallet (as_str demo_receiver) 1 demo_node) = Inr h"
proof -
  let ?h = "tx_hash demo_crypto demo_genesis_tx"
  let ?tx = "sent_transaction demo_crypto 9 demo_wallet demo_receiver 100000 demo_graph"
  have v: "rly_to_base fixed_point 1 = 100000" by (simp add: rly_to_base_def fixed_point_def RLY_UNIT_def)
  have keys: "has_key (g_nodes demo_graph) x \<longleftrightarrow> x = ?h" for x by (simp add: has_key_iff demo_graph_parts)
  have tips: "ts_tips (g_tips demo_graph) \<noteq> []"
    by (simp add: demo_graph_def insert_genesis_def demo_genesis_tx_def is_genesis_def graph_new_def builder_new_def
        zero_hash_def is_zero_def add_tip_def tips_new_def Let_def)
  have "unat (sat_add (total_circulating (g_state demo_graph)) 100000) = 5100000"
    by (simp add: unat_sat_add total_circulating_unat demo_graph_parts demo_total)
  then have cap: "sat_add (total_circulating (g_state demo_graph)) 100000 \<le> SUPPLY_CAP"
    by (simp add: word_le_unat)
  have admitted: "fst (limiter_check (rn_limiter demo_node) (wl_address demo_wallet) (int (ck_instant demo_clock)))"
    by (simp add: demo_node_parts demo_limiter_admits)
  have wallet: "wl_address demo_wallet = demo_addr" by (simp add: demo_wallet_def)
  obtain r n' where s: "submit_transaction demo_crypto demo_clock demo_node ?tx = (r, n')" by fastforce
  note exact = wallet_send_exact [where F = fixed_point and amount = 1 and now = 9 and ck = demo_clock,
      OF demo_crypto_ok demo_json_ok demo_wallet_ok demo_graph_ok demo_receiver_parses refl]
  then have "is_ok r"
    using admitted demo_sent_hash demo_receiver_differs cap tips
    by (simp add: s v demo_node_parts keys wallet demo_graph_parts demo_balance_credit conflicts_new_def)
  with exact show ?thesis by (cases r) (simp_all add: s v demo_node_parts)
qed

theorem offline_transaction_refused_witness:
  "\<exists>e. fst (submit_transaction demo_crypto demo_clock demo_node
     (create_transaction_with_pow demo_crypto 9 demo_wallet demo_receiver 0 1 zero_hash zero_hash)) = Inl e"
proof -
  have "wallet_sign_offline demo_crypto fixed_point 9 demo_wallet (as_str demo_receiver) 0 1
      = Inr (create_transaction_with_pow demo_crypto 9 demo_wallet demo_receiver 0 1 zero_hash zero_hash)"
    by (simp add: wallet_sign_offline_def demo_receiver_parses rly_to_base_def fixed_point_def)
  from offline_transaction_refused [OF demo_wallet_ok this demo_graph_ok] show ?thesis .
qed

end
