(* ===== verification/WalletMain.thy ===== *)
theory WalletMain
  imports WalletCli
begin

text \<open>
  The program \<open>relyo-wallet\<close> (\<open>relyo-wallet/src/main.rs\<close>): the six commands, each one opening the key
  file as it needs, on top of \<open>WalletCli\<close>. A run ends with the printed lines and the new states of the
  file system and of the node, or with an error: the message that \<open>main\<close> returns or the lines it prints
  before \<open>exit(1)\<close>. JSON text and path printing are arguments.
\<close>

datatype 'f wallet_command =
    Create string
  | Info string
  | SignOffline string string 'f u64
  | Send string string 'f string
  | Balance "string option" string "string option"
  | Validate string

datatype wallet_failure = Failed string | Exit "string list"

record wallet_env =
  show_keystore :: "string \<Rightarrow> string"
  tx_json :: "transaction \<Rightarrow> string + string"

text \<open>\<open>?\<close> on an error of the library.\<close>

definition or_failed :: "'x result \<Rightarrow> wallet_failure + 'x" where
  "or_failed r = map_sum (\<lambda>e. Failed (error_text e)) id r"

definition then_do :: "wallet_failure + 'x \<Rightarrow> ('x \<Rightarrow> wallet_failure + 'y) \<Rightarrow> wallet_failure + 'y" where
  "then_do r k = (case r of Inl e \<Rightarrow> Inl e | Inr v \<Rightarrow> k v)"

definition wallet_lines :: "crypto \<Rightarrow> wallet \<Rightarrow> string list" where
  "wallet_lines C w =
     [''Address:    '' @ as_str (wl_address w), ''Public Key: '' @ wallet_public_key_hex C w]"

definition cmd_create ::
    "crypto \<Rightarrow> vault \<Rightarrow> 's files \<Rightarrow> wallet_env \<Rightarrow> bytes \<Rightarrow> bytes \<Rightarrow> bytes \<Rightarrow> string \<Rightarrow> string \<Rightarrow> 's \<Rightarrow>
       wallet_failure + (string list \<times> 's)" where
  "cmd_create C V S E seed salt iv path pass s =
     (if keystore_exists S s path
      then Inl (Exit [''Error: keystore already exists at '' @ show_keystore E path,
        ''Delete it first or use a different path.''])
      else then_do (or_failed (wallet_create C V S seed salt iv s path pass)) (\<lambda>(w, s').
        Inr ([''Wallet created successfully!''] @ wallet_lines C w @
          [''Keystore:   '' @ show_keystore E path, [],
           ''IMPORTANT: Back up your keystore file and remember your passphrase.'',
           ''           If you lose either, your funds will be unrecoverable.''], s')))"

definition cmd_info ::
    "crypto \<Rightarrow> vault \<Rightarrow> 's files \<Rightarrow> string \<Rightarrow> string \<Rightarrow> 's \<Rightarrow> wallet_failure + string list" where
  "cmd_info C V S path pass s =
     then_do (or_failed (wallet_open C V S s path pass)) (\<lambda>w. Inr (wallet_lines C w))"

definition cmd_sign ::
    "crypto \<Rightarrow> vault \<Rightarrow> 's files \<Rightarrow> wallet_env \<Rightarrow> 'f float_ops \<Rightarrow> u64 \<Rightarrow> string \<Rightarrow> string \<Rightarrow> string \<Rightarrow> 'f \<Rightarrow> u64 \<Rightarrow> 's \<Rightarrow>
       wallet_failure + string list" where
  "cmd_sign C V S E F now path pass to amount n s =
     then_do (or_failed (wallet_open C V S s path pass)) (\<lambda>w.
     then_do (or_failed (wallet_sign_offline C F now w to amount n)) (\<lambda>tx.
     then_do (map_sum Failed id (tx_json E tx)) (\<lambda>json.
     Inr [''Signed Transaction:'', json, [], ''Transaction Hash: '' @ to_hex C (tx_hash C tx)])))"

text \<open>\<open>send\<close>: the lines printed on the way are left out, the result is the hash or the failure.\<close>

definition cmd_send ::
    "crypto \<Rightarrow> vault \<Rightarrow> 's files \<Rightarrow> 'j json_ops \<Rightarrow> 'f float_ops \<Rightarrow> ('n, 'j, 'f) server \<Rightarrow> u64 \<Rightarrow> string \<Rightarrow> string \<Rightarrow>
       string \<Rightarrow> 'f \<Rightarrow> 's \<Rightarrow> 'n \<Rightarrow> (wallet_failure + string) \<times> 'n" where
  "cmd_send C V S J F srv now path pass to amount s n =
     (case or_failed (wallet_open C V S s path pass) of
        Inl e \<Rightarrow> (Inl e, n)
      | Inr w \<Rightarrow> (let (r, n') = wallet_send C J F srv now w to amount n in (map_sum Failed id r, n')))"

definition cmd_balance ::
    "crypto \<Rightarrow> vault \<Rightarrow> 's files \<Rightarrow> 'j json_ops \<Rightarrow> ('n, 'j, 'f) server \<Rightarrow> string \<Rightarrow> string option \<Rightarrow> string option \<Rightarrow>
       's \<Rightarrow> 'n \<Rightarrow> (wallet_failure + string list) \<times> 'n" where
  "cmd_balance C V S J srv path address pass s n =
     (case (case address of
              Some a \<Rightarrow> Inr a
            | None \<Rightarrow>
                (case pass of
                   None \<Rightarrow> Inl (Exit [''Error: provide --passphrase or an address argument.''])
                 | Some p \<Rightarrow> then_do (or_failed (wallet_open C V S s path p)) (\<lambda>w. Inr (as_str (wl_address w))))) of
        Inl e \<Rightarrow> (Inl e, n)
      | Inr addr_str \<Rightarrow>
          (let (r, n') = wallet_balance J srv addr_str n in
           (then_do (map_sum Failed id r) (\<lambda>(b, k).
              Inr [''Address: '' @ addr_str, ''Balance: '' @ format_rly b, ''Nonce:   '' @ show_word k]), n')))"

definition cmd_validate :: "crypto \<Rightarrow> string \<Rightarrow> wallet_failure + string list" where
  "cmd_validate C a =
     (case validate_address C a of
        Inr _ \<Rightarrow> Inr [''Valid Relyo address.'']
      | Inl e \<Rightarrow> Inl (Exit [''Invalid address: '' @ error_text e]))"

text \<open>\<open>main\<close>: \<open>net\<close> is the server behind an address; a failure leaves the file system as it was.\<close>

definition wallet_main ::
    "crypto \<Rightarrow> vault \<Rightarrow> 's files \<Rightarrow> wallet_env \<Rightarrow> 'j json_ops \<Rightarrow> 'f float_ops \<Rightarrow> (string \<Rightarrow> ('n, 'j, 'f) server) \<Rightarrow>
       bytes \<Rightarrow> bytes \<Rightarrow> bytes \<Rightarrow> u64 \<Rightarrow> string \<Rightarrow> 'f wallet_command \<Rightarrow> 's \<Rightarrow> 'n \<Rightarrow>
       (wallet_failure + string list) \<times> 's \<times> 'n" where
  "wallet_main C V S E J F net seed salt iv now path cmd s n =
     (case cmd of
        Create pass \<Rightarrow>
          (case cmd_create C V S E seed salt iv path pass s of
             Inl e \<Rightarrow> (Inl e, s, n) | Inr (out, s') \<Rightarrow> (Inr out, s', n))
      | Info pass \<Rightarrow> (cmd_info C V S path pass s, s, n)
      | SignOffline pass to amount k \<Rightarrow> (cmd_sign C V S E F now path pass to amount k s, s, n)
      | Send pass to amount rpc \<Rightarrow>
          (let (r, n') = cmd_send C V S J F (net rpc) now path pass to amount s n
           in (map_sum id (\<lambda>h. [''Transaction accepted!'', ''Hash: '' @ h]) r, s, n'))
      | Balance address rpc pass \<Rightarrow> (let (r, n') = cmd_balance C V S J (net rpc) path address pass s n in (r, s, n'))
      | Validate address \<Rightarrow> (cmd_validate C address, s, n))"

section \<open>Facts\<close>

lemma then_do_simps [simp]: "then_do (Inl e) k = Inl e" "then_do (Inr v) k = k v"
  by (simp_all add: then_do_def)

lemma then_do_Inr: "then_do r k = Inr w \<longleftrightarrow> (\<exists>v. r = Inr v \<and> k v = Inr w)"
  by (cases r) (auto simp: then_do_def)

lemma or_failed_Inr [simp]: "or_failed r = Inr v \<longleftrightarrow> r = Inr v"
  by (cases r) (auto simp: or_failed_def)

lemma or_failed_ok [simp]: "or_failed (Inr v) = Inr v"
  by (simp add: or_failed_def)

lemma call_balance:
  assumes "json_ok J" "parse_address C a = Inr addr"
  shows "wallet_balance J (node_server C J F ck) a n
    = (Inr (balance (g_state (node_dag n)) addr, nonce (g_state (node_dag n)) addr), n)"
proof -
  have "as_str addr = a" using assms(2) by (auto simp: parse_address_def try_then_Inr)
  then show ?thesis
    by (simp add: wallet_balance_def rpc_call_def node_server_def handle_rpc_def handle_get_balance_def
        json_str1 [OF assms(1)] assms(2) field_u64_def Let_def)
qed

section \<open>Properties\<close>


text \<open>\<open>create\<close> on an existing path, an unknown passphrase source and an invalid address fail without
  a request to the node: an existing key file stays as it is, \<open>balance\<close> without address and
  passphrase changes nothing, and \<open>validate\<close> succeeds exactly on addresses.\<close>

theorem wallet_refusals:
  "(fs_exists S s path \<longrightarrow> (\<exists>ls. cmd_create C V S E seed salt iv path pass s = Inl (Exit ls))) \<and>
   (\<exists>ls. cmd_balance C V S J srv path None None s n = (Inl (Exit ls), n)) \<and>
   (wallet_open C V S s path pass = Inl e \<longrightarrow>
      cmd_send C V S J F srv now path pass to amount s n = (Inl (Failed (error_text e)), n) \<and>
      cmd_info C V S path pass s = Inl (Failed (error_text e))) \<and>
   (cmd_validate C a = Inr [''Valid Relyo address.''] \<longleftrightarrow> (\<exists>addr. parse_address C a = Inr addr))"
  by (auto simp: cmd_create_def keystore_exists_def cmd_balance_def cmd_send_def cmd_info_def cmd_validate_def
      parse_address_def try_then_def or_failed_def then_do_def split: sum.split)

section \<open>Witnesses\<close>

definition demo_env :: wallet_env where
  "demo_env = \<lparr>show_keystore = id, tx_json = (\<lambda>_. Inr [])\<rparr>"


theorem wallet_refusals_witness:
  "\<exists>ls. cmd_create demo_crypto demo_vault demo_files demo_env [1] [1] [2] ''f'' ''pw'' (Some ''k'') = Inl (Exit ls)"
proof -
  have "fs_exists demo_files (Some ''k'') ''f''" by (simp add: demo_files_def)
  then show ?thesis by (rule mp [OF wallet_refusals [THEN conjunct1]])
qed

end
