(* ===== verification/EventLoop.thy ===== *)
theory EventLoop
  imports Node
begin

text \<open>
  The event loop of \<open>relyo-node/src/main.rs\<close>: outgoing broadcasts, connections of banned peers,
  gossip messages, and the two timers, together with the transactions that the RPC server submits
  concurrently.  \<open>libp2p\<close> peers are a type variable and what the loop asks of the swarm is a list
  of actions; the database of banned peers (\<open>redb\<close>) and bincode are arguments.
\<close>

section \<open>State\<close>

datatype 'p action = PublishTransaction bytes | PublishVote bytes | DisconnectPeer 'p

text \<open>\<open>rocksdb::DB::get\<close> and \<open>put\<close> on the table of banned peers; both may fail.\<close>

record ('d, 'p) ban_db =
  db_get :: "'d \<Rightarrow> 'p \<Rightarrow> string + bytes option"
  db_put :: "'d \<Rightarrow> 'p \<Rightarrow> bytes \<Rightarrow> string + 'd"

record ('d, 'p) loop_state =
  ls_node :: relyo_node
  ls_banned :: 'd
  ls_actions :: "'p action list"

datatype 'p swarm_event = ConnectionEstablished 'p | GossipMessage 'p bytes | OtherSwarmEvent

datatype 'p loop_event =
    OutgoingTx
  | Swarm "'p swarm_event"
  | MempoolTick
  | CleanupTick
  | RpcSubmit transaction

definition act :: "('d, 'p) loop_state \<Rightarrow> 'p action \<Rightarrow> ('d, 'p) loop_state" where
  "act s a = s\<lparr>ls_actions := ls_actions s @ [a]\<rparr>"

section \<open>Steps\<close>

text \<open>\<open>Some(tx) = tx_receiver.recv()\<close>: the oldest sent transaction is taken and published.\<close>

definition outgoing_tx :: "wire \<Rightarrow> u64 \<Rightarrow> ('d, 'p) loop_state \<Rightarrow> ('d, 'p) loop_state" where
  "outgoing_tx W now s =
     (case rn_tx_sender (ls_node s) of
        [] \<Rightarrow> s
      | tx # rest \<Rightarrow>
          let s' = s\<lparr>ls_node := (ls_node s)\<lparr>rn_tx_sender := rest\<rparr>\<rparr>
          in case tx_broadcast W now tx of
               Inl _ \<Rightarrow> s'
             | Inr net_msg \<Rightarrow>
                 (case message_to_bytes W net_msg of
                    Inl _ \<Rightarrow> s'
                  | Inr data \<Rightarrow> act s' (PublishTransaction data)))"

text \<open>A failing read of the database counts as not banned.\<close>

definition connection_check ::
    "('d, 'p) ban_db \<Rightarrow> ('d, 'p) loop_state \<Rightarrow> 'p \<Rightarrow> ('d, 'p) loop_state" where
  "connection_check D s p =
     (let found = (case db_get D (ls_banned s) p of Inl _ \<Rightarrow> None | Inr v \<Rightarrow> v)
      in if found \<noteq> None then act s (DisconnectPeer p) else s)"

definition handle_broadcast ::
    "crypto \<Rightarrow> wire \<Rightarrow> ('d, 'p) ban_db \<Rightarrow> clock \<Rightarrow> ('d, 'p) loop_state \<Rightarrow> 'p \<Rightarrow> bytes \<Rightarrow>
       ('d, 'p) loop_state" where
  "handle_broadcast C W D ck s source payload =
     (case dec_tx W payload of
        Inl _ \<Rightarrow> s
      | Inr tx \<Rightarrow>
          (case submit_transaction C ck (ls_node s) tx of
             (Inr _, n) \<Rightarrow> s\<lparr>ls_node := n\<rparr>
           | (Inl e, n) \<Rightarrow>
               let s' = s\<lparr>ls_node := n\<rparr> in
               (case e of
                  SupplyCapExceeded _ \<Rightarrow>
                    let s'' = (case db_put D (ls_banned s) source [0x31] of
                                 Inl _ \<Rightarrow> s' | Inr d \<Rightarrow> s'\<lparr>ls_banned := d\<rparr>)
                    in act s'' (DisconnectPeer source)
                | _ \<Rightarrow> s')))"

definition handle_vote_request ::
    "wire \<Rightarrow> u64 \<Rightarrow> ('d, 'p) loop_state \<Rightarrow> bytes \<Rightarrow> ('d, 'p) loop_state" where
  "handle_vote_request W now s payload =
     (case dec_hash W payload of
        Inl _ \<Rightarrow> s
      | Inr h \<Rightarrow>
          let vote = \<lparr>vp_tx_hash = h, vp_accept = contains (node_dag (ls_node s)) h,
                      vp_node_id = node_str (rn_node_id (ls_node s))\<rparr>
          in case vote_response W now vote of
               Inl _ \<Rightarrow> s
             | Inr response \<Rightarrow>
                 (case message_to_bytes W response of
                    Inl _ \<Rightarrow> s
                  | Inr data \<Rightarrow> act s (PublishVote data)))"

definition handle_vote_response ::
    "wire \<Rightarrow> u64 \<Rightarrow> ('d, 'p) loop_state \<Rightarrow> bytes \<Rightarrow> ('d, 'p) loop_state" where
  "handle_vote_response W now s payload =
     (case dec_vote W payload of
        Inl _ \<Rightarrow> s
      | Inr vote \<Rightarrow>
          let n = ls_node s
          in s\<lparr>ls_node := n\<lparr>rn_consensus :=
                 process_remote_vote now (rn_consensus n) (vp_tx_hash vote) (NodeId (vp_node_id vote))
                   (vp_accept vote)\<rparr>\<rparr>)"

definition handle_gossip ::
    "crypto \<Rightarrow> wire \<Rightarrow> ('d, 'p) ban_db \<Rightarrow> clock \<Rightarrow> ('d, 'p) loop_state \<Rightarrow> 'p \<Rightarrow> bytes \<Rightarrow>
       ('d, 'p) loop_state" where
  "handle_gossip C W D ck s source data =
     (case message_from_bytes W data of
        Inl _ \<Rightarrow> s
      | Inr net_msg \<Rightarrow>
          (case nm_msg_type net_msg of
             TransactionBroadcast \<Rightarrow> handle_broadcast C W D ck s source (nm_payload net_msg)
           | VoteRequest \<Rightarrow> handle_vote_request W (ck_ms ck) s (nm_payload net_msg)
           | VoteResponse \<Rightarrow> handle_vote_response W (ck_ms ck) s (nm_payload net_msg)
           | _ \<Rightarrow> s))"

definition loop_step ::
    "crypto \<Rightarrow> wire \<Rightarrow> ('d, 'p) ban_db \<Rightarrow> clock \<Rightarrow> ('d, 'p) loop_state \<Rightarrow> 'p loop_event \<Rightarrow>
       ('d, 'p) loop_state" where
  "loop_step C W D ck s ev =
     (case ev of
        OutgoingTx \<Rightarrow> outgoing_tx W (ck_ms ck) s
      | Swarm (ConnectionEstablished p) \<Rightarrow> connection_check D s p
      | Swarm (GossipMessage p data) \<Rightarrow> handle_gossip C W D ck s p data
      | Swarm OtherSwarmEvent \<Rightarrow> s
      | MempoolTick \<Rightarrow> s\<lparr>ls_node := snd (process_mempool_batch C ck (ls_node s) 1000)\<rparr>
      | CleanupTick \<Rightarrow>
          s\<lparr>ls_node := (ls_node s)\<lparr>rn_limiter :=
              limiter_cleanup (rn_limiter (ls_node s)) (int (ck_instant ck))\<rparr>\<rparr>
      | RpcSubmit tx \<Rightarrow> s\<lparr>ls_node := snd (submit_transaction C ck (ls_node s) tx)\<rparr>)"

text \<open>\<open>relyo-node run --testnet\<close>: a fresh node with its genesis, then the loop.\<close>

definition loop_start ::
    "crypto \<Rightarrow> clock \<Rightarrow> node_config \<Rightarrow> 'd \<Rightarrow> ('d, 'p) loop_state" where
  "loop_start C ck config banned =
     \<lparr>ls_node = init_genesis C ck (node_new (ck_ms ck) config), ls_banned = banned, ls_actions = []\<rparr>"

inductive node_run ::
    "crypto \<Rightarrow> wire \<Rightarrow> ('d, 'p) ban_db \<Rightarrow> node_config \<Rightarrow> ('d, 'p) loop_state \<Rightarrow> bool" for C W D config where
  node_start: "node_run C W D config (loop_start C ck config banned)"
| node_step: "node_run C W D config s \<Longrightarrow> node_run C W D config (loop_step C W D ck s ev)"

text \<open>The states that any sequence of events leads to.\<close>

inductive loop_reaches ::
    "crypto \<Rightarrow> wire \<Rightarrow> ('d, 'p) ban_db \<Rightarrow> ('d, 'p) loop_state \<Rightarrow> ('d, 'p) loop_state \<Rightarrow> bool" for C W D s where
  reach_here: "loop_reaches C W D s s"
| reach_step: "loop_reaches C W D s s' \<Longrightarrow> loop_reaches C W D s (loop_step C W D ck s' ev)"

section \<open>Invariants of the node and the loop\<close>

text \<open>What the handlers do to the node: submissions, votes, batches, and updates of two fields.\<close>

lemma handle_broadcast_node:
  "ls_node (handle_broadcast C W D ck s source payload) =
    (case dec_tx W payload of Inl _ \<Rightarrow> ls_node s | Inr tx \<Rightarrow> snd (submit_transaction C ck (ls_node s) tx))"
proof (cases "dec_tx W payload")
  case (Inr tx)
  obtain r n where s: "submit_transaction C ck (ls_node s) tx = (r, n)" by fastforce
  show ?thesis
  proof (cases r)
    case (Inl e)
    with Inr s show ?thesis
      by (cases e; cases "db_put D (ls_banned s) source [0x31]") (simp_all add: handle_broadcast_def act_def)
  qed (simp add: handle_broadcast_def Inr s)
qed (simp add: handle_broadcast_def)

text \<open>The transaction that an event hands to the node, if any.\<close>

definition gossip_tx :: "wire \<Rightarrow> bytes \<Rightarrow> transaction option" where
  "gossip_tx W data =
     (case message_from_bytes W data of
        Inr m \<Rightarrow> if nm_msg_type m = TransactionBroadcast
                 then (case dec_tx W (nm_payload m) of Inr tx \<Rightarrow> Some tx | Inl _ \<Rightarrow> None) else None
      | Inl _ \<Rightarrow> None)"

fun event_tx :: "wire \<Rightarrow> 'p loop_event \<Rightarrow> transaction option" where
  "event_tx W (RpcSubmit tx) = Some tx"
| "event_tx W (Swarm (GossipMessage p data)) = gossip_tx W data"
| "event_tx W _ = None"

text \<open>
  What the node's operations keep, when the transactions it is handed satisfy \<open>ok\<close>: the loop keeps it
  too. \<open>open_invariant\<close> is the case of a node that anyone may hand anything.
\<close>

locale node_invariant =
  fixes C :: crypto and inv :: "relyo_node \<Rightarrow> bool" and ok :: "transaction \<Rightarrow> bool"
  assumes submit_inv: "inv n \<Longrightarrow> ok tx \<Longrightarrow> inv (snd (submit_transaction C ck n tx))"
    and vote_inv: "inv n \<Longrightarrow> inv (n\<lparr>rn_consensus := process_remote_vote now (rn_consensus n) h voter acc\<rparr>)"
    and batch_inv: "inv n \<Longrightarrow> inv (snd (process_mempool_batch C ck n k))"
    and sender_inv: "inv n \<Longrightarrow> set ts \<subseteq> set (rn_tx_sender n) \<Longrightarrow> inv (n\<lparr>rn_tx_sender := ts\<rparr>)"
    and limiter_inv: "inv n \<Longrightarrow> inv (n\<lparr>rn_limiter := rl\<rparr>)"
begin

lemma gossip_inv:
  assumes "inv (ls_node s)" "\<And>tx. gossip_tx W data = Some tx \<Longrightarrow> ok tx"
  shows "inv (ls_node (handle_gossip C W D ck s source data))"
proof -
  have "inv (ls_node (handle_vote_response W (ck_ms ck) s payload))" for payload
    using assms(1) vote_inv [OF assms(1)] by (simp add: handle_vote_response_def Let_def split: sum.split)
  moreover have "ls_node (handle_vote_request W (ck_ms ck) s payload) = ls_node s" for payload
    by (simp add: handle_vote_request_def act_def Let_def split: sum.split)
  ultimately show ?thesis
    using assms by (auto simp: handle_gossip_def handle_broadcast_node gossip_tx_def submit_inv
      split: sum.splits message_type.splits)
qed

lemma step_inv:
  assumes "inv (ls_node s)" "\<And>tx. event_tx W ev = Some tx \<Longrightarrow> ok tx"
  shows "inv (ls_node (loop_step C W D ck s ev))"
proof (cases ev)
  case OutgoingTx
  with assms show ?thesis
    by (simp add: loop_step_def outgoing_tx_def act_def Let_def sender_inv subset_insertI split: list.split sum.split)
next
  case (Swarm sev)
  with assms gossip_inv [OF assms(1)] show ?thesis
    by (cases sev) (simp_all add: loop_step_def connection_check_def act_def Let_def)
qed (use assms in \<open>simp_all add: loop_step_def batch_inv limiter_inv submit_inv\<close>)

end

locale open_invariant = node_invariant C inv "\<lambda>_. True" for C inv
begin

lemma reach_inv: "loop_reaches C W D s s' \<Longrightarrow> inv (ls_node s) \<Longrightarrow> inv (ls_node s')"
  by (induction rule: loop_reaches.induct) (simp_all add: step_inv)

end

section \<open>Supply\<close>

text \<open>The funds of a node stay below a bound that fits in 64 bits.\<close>

definition capped :: "nat \<Rightarrow> relyo_node \<Rightarrow> bool" where
  "capped k n \<longleftrightarrow> ledger_total (g_state (node_dag n)) \<le> k \<and> k < 2 ^ 64"

lemma set_status_state [simp]: "g_state (set_status g h st) = g_state g"
  by (simp add: set_status_def)

lemma receive_vote_state: "g_state (ce_dag (receive_vote now e v)) = g_state (ce_dag e)"
  by (simp add: receive_vote_cases apply_outcome_def split: option.split vote_outcome.split)

lemma accepted_total:
  assumes "acceptable C g tx" "ledger_total (g_state g) \<le> k" "k < 2 ^ 64"
  shows "ledger_total (g_state (accepted C now (lock_sender g tx) tx)) \<le> k"
proof -
  have "ledger_total (g_state g) < 2 ^ 64" using assms(2,3) by linarith
  from abs_accept(3) [OF assms(1) this, of now] assms(2) show ?thesis by linarith
qed

lemma insert_batch_total:
  "insert_batch C now g txs = (hashes, g') \<Longrightarrow> ledger_total (g_state g) \<le> k \<Longrightarrow> k < 2 ^ 64 \<Longrightarrow>
     ledger_total (g_state g') \<le> k"
proof (induction txs arbitrary: g hashes)
  case (Cons tx txs)
  show ?case
  proof (cases "acceptable C g tx")
    case True
    with Cons.prems accepted_total [OF True] Cons.IH show ?thesis
      by (auto simp: dag_insert_acceptable [OF True] split: prod.splits)
  next
    case False
    obtain r d where r: "dag_insert C now g tx = (r, d)" by fastforce
    with False obtain e where e: "r = Inl e" by (cases r) (auto simp: dag_insert_Inr)
    have "d \<in> {g, lock_sender g tx}" using dag_insert_Inl r e by blast
    then have "g_state d = g_state g" by auto
    with Cons r e show ?thesis by simp
  qed
qed simp

interpretation supply_node: open_invariant C "capped k" for C k
proof
  fix n and ck :: clock and tx assume inv: "capped k n"
  obtain r n' where s: "submit_transaction C ck n tx = (r, n')" by fastforce
  show "capped k (snd (submit_transaction C ck n tx))"
    using submit_transaction_exact_parts [OF s] inv accepted_total [of C "node_dag n" tx k "ck_instant ck"]
    by (auto simp: s capped_def)
next
  fix n now h voter acc assume inv: "capped k n"
  show "capped k (n\<lparr>rn_consensus := process_remote_vote now (rn_consensus n) h voter acc\<rparr>)"
    using inv receive_vote_state by (simp add: capped_def node_dag_def process_remote_vote_def)
next
  fix n and ck :: clock and m assume inv: "capped k n"
  obtain hs g' where "insert_batch C (ck_instant ck) (node_dag n) (fst (drain_batch (rn_mempool n) m)) = (hs, g')"
    by fastforce
  with insert_batch_total [OF this] inv show "capped k (snd (process_mempool_batch C ck n m))"
    by (auto simp: process_mempool_batch_def capped_def split: prod.split)
qed (simp_all add: capped_def)

text \<open>C27: No run of the event loop creates funds: whatever peers, voters, timers and RPC clients do, from any state whose funds fit in 64 bits, the sum of all balances, stakes and pending unstakes never exceeds what it was.\<close>

theorem loop_conserves_supply:
  assumes "loop_reaches C W D s s'" "ledger_total (g_state (node_dag (ls_node s))) < 2 ^ 64"
  shows "ledger_total (g_state (node_dag (ls_node s'))) \<le> ledger_total (g_state (node_dag (ls_node s)))"
  using supply_node.reach_inv [OF assms(1), of "ledger_total (g_state (node_dag (ls_node s)))"] assms(2)
  by (simp add: capped_def)

section \<open>What the loop keeps\<close>

text \<open>A predicate on the hash, transaction and status of every node of a graph.\<close>

definition all_nodes ::
    "(transaction_hash \<Rightarrow> transaction \<Rightarrow> transaction_status \<Rightarrow> bool) \<Rightarrow> dag_graph \<Rightarrow> bool" where
  "all_nodes P g \<longleftrightarrow> (\<forall>h n. get_node g h = Some n \<longrightarrow> P h (dn_tx n) (dn_status n))"

lemma all_nodes_status:
  assumes "all_nodes P g" "\<And>k tx old. P k tx old \<Longrightarrow> P k tx st"
  shows "all_nodes P (set_status g h st)"
proof -
  have old: "map_of (g_nodes g) k = Some n \<Longrightarrow> P k (dn_tx n) (dn_status n)" for k n
    using assms(1) by (simp add: all_nodes_def get_node_def)
  show ?thesis by (auto simp: all_nodes_def get_node_def set_status_def map_of_entry intro: old assms(2) [OF old])
qed

lemma all_nodes_accepted:
  assumes "all_nodes P g" "P (tx_hash C tx) tx Pending"
  shows "all_nodes P (accepted C now (lock_sender g tx) tx)"
  using assms
  by (auto simp: all_nodes_def get_node_def accepted_def attach_nodes link_def split: if_splits)

lemma all_nodes_genesis:
  assumes "all_nodes P g" "is_genesis tx" "P (tx_hash C tx) tx Confirmed"
  shows "all_nodes P (snd (insert_genesis C now g tx))"
  using assms by (auto simp: all_nodes_def get_node_def insert_genesis_def Let_def map_of_update)

section \<open>A node with a single validator\<close>

text \<open>The engine while only the local validator is registered and a quorum needs two votes.\<close>

definition lone_tally :: "node_id \<Rightarrow> vote_tally \<Rightarrow> bool" where
  "lone_tally self t \<longleftrightarrow>
     tl_voters t = [] \<and> tl_accept t + tl_reject t = 0 \<or> tl_voters t = [self] \<and> tl_accept t + tl_reject t = 1"

definition lone :: "node_id \<Rightarrow> consensus_engine \<Rightarrow> bool" where
  "lone self e \<longleftrightarrow>
     ce_validators e = [(self, 1)] \<and> ce_events e = [] \<and> 1 < va_quorum (ce_aggregator e) \<and>
     (\<forall>h. lone_tally self (tally_at (ce_aggregator e) h))"

lemma lone_dag [simp]: "lone self (e\<lparr>ce_dag := d\<rparr>) = lone self e"
  by (simp add: lone_def)

lemma lone_count: "lone_tally self t \<Longrightarrow> vt_voter v = self \<Longrightarrow> lone_tally self (count_vote v p t)"
  by (auto simp: lone_tally_def count_vote_def Let_def algebra_simps)

lemma lone_pending:
  "lone_tally self t \<Longrightarrow> 1 < va_quorum va \<Longrightarrow> evaluate va t = OutcomePending"
  by (auto simp: lone_tally_def evaluate_def word_less_unat)

lemma lone_receive:
  assumes "lone self e"
  shows "lone self (receive_vote now e v) \<and>
    ce_dag (receive_vote now e v) \<in> {ce_dag e, set_status (ce_dag e) (vt_tx_hash v) Voting}"
proof (cases "admitted now e v")
  case None
  with assms show ?thesis by (simp add: receive_vote_cases)
next
  case (Some p)
  let ?va = "ce_aggregator e" and ?t = "count_vote v p (tally_at (ce_aggregator e) (vt_tx_hash v))"
  have voter: "vt_voter v = self"
    using Some assms by (simp add: admitted_def lone_def split: if_splits)
  have t: "lone_tally self ?t" using assms voter by (simp add: lone_count lone_def)
  then have pending: "evaluate ?va ?t = OutcomePending" using assms by (simp add: lone_pending lone_def)
  with Some have eq: "receive_vote now e v =
      e\<lparr>ce_aggregator := put_vote ?va (v, p), ce_dag := set_status (ce_dag e) (vt_tx_hash v) Voting\<rparr>"
    by (simp add: receive_vote_cases record_vote_outcome apply_outcome_def)
  have "lone_tally self (tally_at (put_vote ?va (v, p)) h)" for h
    using assms t by (auto simp: box.tally_put lone_def)
  with assms show ?thesis by (simp add: eq lone_def)
qed

lemma lone_new:
  "1 < cc_quorum cfg \<Longrightarrow> lone self (engine_new d cfg self)"
  by (simp add: lone_def engine_new_def lone_tally_def) (simp add: with_weighted_quorum_def empty_tally_def)

section \<open>A node that starts from its own genesis\<close>

definition genesis_hash :: "crypto \<Rightarrow> transaction_hash" where
  "genesis_hash C = tx_hash C (genesis_transaction C (genesis_keypair C))"

definition idle_entry :: "crypto \<Rightarrow> transaction_hash \<Rightarrow> transaction \<Rightarrow> transaction_status \<Rightarrow> bool" where
  "idle_entry C h tx st \<longleftrightarrow>
     tx_type tx = Genesis \<and> tx_amount tx = 0 \<and> tx_fee tx = 0 \<and>
     (st \<in> {Pending, Voting} \<or> st = Confirmed \<and> h = genesis_hash C)"

text \<open>No funds, and nothing in the mempool.\<close>

definition idle :: "crypto \<Rightarrow> relyo_node \<Rightarrow> bool" where
  "idle C n \<longleftrightarrow>
     lone (rn_node_id n) (rn_consensus n) \<and> mp_txs (rn_mempool n) = [] \<and>
     ledger_total (g_state (node_dag n)) = 0 \<and> all_nodes (idle_entry C) (node_dag n)"

lemma genesis_start:
  fixes ck :: clock
  defines "n \<equiv> \<lambda>C ck now config. init_genesis C ck (node_new now config)"
  shows "all_nodes (idle_entry C) (node_dag (n C ck now config)) \<and>
    ledger_total (g_state (node_dag (n C ck now config))) = 0 \<and> mp_txs (rn_mempool (n C ck now config)) = []"
proof -
  let ?tx = "genesis_transaction C (genesis_keypair C)" and ?g = "graph_new ledger_new tips_new conflicts_new"
  have gen: "is_genesis ?tx" "tx_amount ?tx = 0" "tx_fee ?tx = 0" "tx_type ?tx = Genesis"
    by (simp_all add: genesis_transaction_def is_genesis_def is_zero_def zero_hash_def Let_def)
  let ?d = "snd (insert_genesis C (ck_instant ck) ?g ?tx)"
  have dag: "snd (create_genesis C (ck_instant ck) ?g (genesis_keypair C)) = ?d"
    by (simp add: create_genesis_def split: prod.split sum.split)
  have "all_nodes (idle_entry C) ?d"
    by (rule all_nodes_genesis) (simp_all add: gen idle_entry_def genesis_hash_def all_nodes_def get_node_def graph_new_def)
  moreover have "ledger_total (g_state ?d) = 0"
    using gen by (simp add: insert_genesis_def Let_def graph_new_def demo_total)
  ultimately show ?thesis
    using dag by (simp add: n_def init_genesis_def node_new_def Let_def mempool_new_def)
      (simp add: node_dag_def with_dag_def engine_new_def)
qed

lemma idle_start:
  fixes ck :: clock
  assumes "1 < cc_quorum (nd_consensus config)"
  shows "idle C (init_genesis C ck (node_new now config))"
  using genesis_start [of C ck now config] lone_new [OF assms, of "NodeId (nd_node_name config)"]
  by (simp add: idle_def) (simp add: init_genesis_def node_new_def with_dag_def engine_new_def Let_def lone_def)

text \<open>What a graph without funds accepts.\<close>

lemma free_accept:
  assumes "ledger_total (g_state g) = 0" "acceptable C g tx"
  shows "tx_type tx = Genesis \<and> tx_amount tx = 0 \<and> tx_fee tx = 0"
proof -
  have "unat (balance (g_state g) (tx_sender tx)) \<le> ledger_total (g_state g)"
    unfolding ledger_total_def balance_total_def balance_def using get_or_member le_add1 le_trans by metis
  moreover have "spec_enabled (abs_ledger g) tx" using abs_accept(1) [OF assms(2)] assms(1) by simp
  ultimately have "unat (tx_amount tx) = 0" "unat (tx_fee tx) = 0"
    using assms(1) by (simp_all add: spec_enabled_def abs_ledger_def)
  then have zero: "tx_amount tx = 0" "tx_fee tx = 0" by (simp_all add: unat_eq_0)
  then have "is_genesis tx"
    using assms(2) by (simp add: acceptable_def validate_Inr base_fee_num)
  with zero show ?thesis by (simp add: is_genesis_def)
qed

lemma idle_accept:
  assumes "ledger_total (g_state g) = 0" "all_nodes (idle_entry C) g" "acceptable C g tx"
  shows "all_nodes (idle_entry C) (accepted C now (lock_sender g tx) tx) \<and>
    ledger_total (g_state (accepted C now (lock_sender g tx) tx)) = 0"
  using free_accept [OF assms(1,3)] all_nodes_accepted [of "idle_entry C"] assms(2) abs_accept(3) [OF assms(3)] assms(1)
  by (simp add: idle_entry_def)

lemma idle_submit:
  assumes "idle C n"
  shows "idle C (snd (submit_transaction C ck n tx))"
proof -
  obtain r n' where s: "submit_transaction C ck n tx = (r, n')" by fastforce
  have frame: "rn_node_id n' = rn_node_id n \<and> (\<exists>d. rn_consensus n' = (rn_consensus n)\<lparr>ce_dag := d\<rparr>)"
    using s by (auto simp: submit_transaction_def Let_def with_dag_def split: prod.splits sum.splits if_splits
      intro: exI [of _ "ce_dag (rn_consensus n)"])
  note exact = submit_transaction_exact_parts [OF s]
  show ?thesis
  proof (cases "acceptable C (node_dag n) tx \<and> node_dag n' = accepted C (ck_instant ck) (lock_sender (node_dag n) tx) tx")
    case True
    with assms frame exact idle_accept [of "node_dag n" C tx "ck_instant ck"] show ?thesis
      by (auto simp: s idle_def)
  next
    case False
    with exact have "g_state (node_dag n') = g_state (node_dag n) \<and> g_nodes (node_dag n') = g_nodes (node_dag n)"
      by blast
    with assms frame exact show ?thesis by (auto simp: s idle_def all_nodes_def get_node_def)
  qed
qed

lemma idle_vote:
  assumes "idle C n"
  shows "idle C (n\<lparr>rn_consensus := process_remote_vote now (rn_consensus n) h voter acc\<rparr>)"
proof -
  let ?v = "\<lparr>vt_voter = voter, vt_tx_hash = h, vt_accept = acc, vt_timestamp = now\<rparr>"
  have "lone (rn_node_id n) (rn_consensus n)" using assms by (simp add: idle_def)
  note lr = lone_receive [OF this, of now ?v]
  have nodes: "all_nodes (idle_entry C) (set_status (node_dag n) h Voting)"
    using assms by (intro all_nodes_status) (auto simp: idle_def idle_entry_def)
  with lr assms show ?thesis
    by (auto simp: idle_def process_remote_vote_def node_dag_def)
qed

lemma drain_empty: "mp_txs mp = [] \<Longrightarrow> drain_batch mp k = ([], mp)"
  by (simp add: drain_batch_def)

lemma idle_batch: "idle C n \<Longrightarrow> snd (process_mempool_batch C ck n k) = n"
  by (simp add: idle_def process_mempool_batch_def drain_empty with_dag_def node_dag_def)

lemma idle_node_updates [simp]:
  "idle C (n\<lparr>rn_tx_sender := ts\<rparr>) = idle C n" "idle C (n\<lparr>rn_limiter := rl\<rparr>) = idle C n"
  by (simp_all add: idle_def)

interpretation idle_node: open_invariant C "idle C" for C
  by unfold_locales (simp_all add: idle_submit idle_vote idle_batch)

text \<open>The same without the engine: a node without funds, whatever its validators and its quorum.\<close>

definition free_entry :: "transaction_hash \<Rightarrow> transaction \<Rightarrow> transaction_status \<Rightarrow> bool" where
  "free_entry h tx st \<longleftrightarrow> tx_type tx = Genesis \<and> tx_amount tx = 0 \<and> tx_fee tx = 0"

definition unfunded :: "relyo_node \<Rightarrow> bool" where
  "unfunded n \<longleftrightarrow> mp_txs (rn_mempool n) = [] \<and> ledger_total (g_state (node_dag n)) = 0 \<and>
     all_nodes free_entry (node_dag n)"

lemma unfunded_start: "unfunded (init_genesis C ck (node_new now config))" for ck :: clock
  using genesis_start [of C ck now config] by (auto simp: unfunded_def all_nodes_def idle_entry_def free_entry_def)

lemma unfunded_submit:
  assumes "unfunded n"
  shows "unfunded (snd (submit_transaction C ck n tx))"
proof -
  obtain r n' where s: "submit_transaction C ck n tx = (r, n')" by fastforce
  note exact = submit_transaction_exact_parts [OF s]
  show ?thesis
  proof (cases "acceptable C (node_dag n) tx \<and> node_dag n' = accepted C (ck_instant ck) (lock_sender (node_dag n) tx) tx")
    case True
    then have acc: "acceptable C (node_dag n) tx" by simp
    have total: "ledger_total (g_state (node_dag n)) = 0" using assms by (simp add: unfunded_def)
    have "all_nodes free_entry (node_dag n')"
      using True assms free_accept [OF total acc]
      by (auto simp: unfunded_def free_entry_def intro: all_nodes_accepted)
    with True exact assms abs_accept(3) [OF acc] total show ?thesis by (simp add: s unfunded_def)
  next
    case False
    with exact have "g_state (node_dag n') = g_state (node_dag n) \<and> g_nodes (node_dag n') = g_nodes (node_dag n)"
      by blast
    with assms exact show ?thesis by (auto simp: s unfunded_def all_nodes_def get_node_def)
  qed
qed

lemma receive_vote_nodes:
  "all_nodes free_entry (ce_dag e) \<Longrightarrow> all_nodes free_entry (ce_dag (receive_vote now e v))"
  by (auto simp: receive_vote_cases apply_outcome_def free_entry_def
      intro: all_nodes_status split: option.split vote_outcome.split)

interpretation unfunded_node: open_invariant C unfunded for C
proof
  fix n now h voter acc assume "unfunded n"
  then show "unfunded (n\<lparr>rn_consensus := process_remote_vote now (rn_consensus n) h voter acc\<rparr>)"
    by (simp add: unfunded_def node_dag_def process_remote_vote_def receive_vote_state receive_vote_nodes)
next
  fix n and ck :: clock and k assume "unfunded n"
  then show "unfunded (snd (process_mempool_batch C ck n k))"
    by (simp add: unfunded_def process_mempool_batch_def drain_empty with_dag_def node_dag_def)
qed (simp_all add: unfunded_submit, simp_all add: unfunded_def)

lemma unfunded_run: "node_run C W D config s \<Longrightarrow> unfunded (ls_node s)"
  by (induction rule: node_run.induct) (simp_all add: loop_start_def unfunded_start unfunded_node.step_inv)

lemma idle_run:
  "node_run C W D config s \<Longrightarrow> 1 < cc_quorum (nd_consensus config) \<Longrightarrow> idle C (ls_node s)"
  by (induction rule: node_run.induct) (simp_all add: loop_start_def idle_start idle_node.step_inv)

text \<open>C28: A node started from the program's own genesis never holds funds: whatever peers, voters and RPC clients
  send, and whatever its configuration, in every state of its event loop the sum of all balances, stakes
  and pending unstakes is zero, its mempool is empty, and every transaction in its graph is a free
  transaction of type genesis with amount and fee zero, so no transfer is ever accepted.\<close>

theorem node_never_funded:
  assumes "node_run C W D config s"
  shows "ledger_total (g_state (node_dag (ls_node s))) = 0 \<and> mempool_size (ls_node s) = 0 \<and>
    (\<forall>h n. get_node (node_dag (ls_node s)) h = Some n \<longrightarrow>
       tx_type (dn_tx n) = Genesis \<and> tx_amount (dn_tx n) = 0 \<and> tx_fee (dn_tx n) = 0)"
  using unfunded_run [OF assms] by (auto simp: unfunded_def mempool_size_def all_nodes_def free_entry_def)

text \<open>C29: A node of the program never finalizes anything: no code registers a second validator, so with a quorum of two or more (the default is 14) no run of its event loop emits a finalization, and no node but the genesis has the status confirmed or rejected.\<close>

theorem node_never_finalizes:
  assumes "node_run C W D config s" "1 < cc_quorum (nd_consensus config)"
  shows "ce_events (rn_consensus (ls_node s)) = [] \<and>
    (\<forall>h n. get_node (node_dag (ls_node s)) h = Some n \<and> h \<noteq> genesis_hash C \<longrightarrow> dn_status n \<in> {Pending, Voting})"
  using idle_run [OF assms] by (auto simp: idle_def lone_def all_nodes_def idle_entry_def)

section \<open>Messages between nodes\<close>

text \<open>A broadcast arrives as sent: when the loop takes a sent transaction from its channel it publishes one message, and any node that receives these bytes, from whatever peer and at whatever time, submits exactly this transaction to itself (for codecs that decode what they encode).\<close>

theorem broadcast_delivers:
  assumes "wire_ok W" "rn_tx_sender (ls_node s) = tx # rest" "enc_tx W tx = Inr payload"
    and "enc_msg W (message_new (ck_ms ck) TransactionBroadcast payload) = Inr data"
  shows "rn_tx_sender (ls_node (loop_step C W D ck s OutgoingTx)) = rest \<and>
    ls_actions (loop_step C W D ck s OutgoingTx) = ls_actions s @ [PublishTransaction data] \<and>
    ls_node (loop_step C W D ck' r (Swarm (GossipMessage q data)))
      = snd (submit_transaction C ck' (ls_node r) tx)"
proof -
  have "dec_msg W data = Inr (message_new (ck_ms ck) TransactionBroadcast payload)" "dec_tx W payload = Inr tx"
    using assms by (simp_all add: wire_ok_def)
  then show ?thesis
    using assms(2-4)
    by (simp add: loop_step_def outgoing_tx_def tx_broadcast_def message_to_bytes_def act_def handle_gossip_def
        message_from_bytes_def handle_broadcast_node) (simp add: message_new_def handle_broadcast_node)
qed

text \<open>What the loop does to the table of bans.\<close>

lemma broadcast_bans:
  "ls_banned (handle_broadcast C W D ck s source payload) = ls_banned s \<or>
    db_put D (ls_banned s) source [0x31] = Inr (ls_banned (handle_broadcast C W D ck s source payload))"
proof (cases "dec_tx W payload")
  case (Inr tx)
  obtain r n where s: "submit_transaction C ck (ls_node s) tx = (r, n)" by fastforce
  show ?thesis
  proof (cases r)
    case (Inl e)
    then show ?thesis
      by (cases e; simp add: handle_broadcast_def Inr s act_def Let_def split: sum.split)
  qed (simp add: handle_broadcast_def Inr s)
qed (simp add: handle_broadcast_def)

lemma loop_step_bans:
  "ls_banned (loop_step C W D ck s ev) = ls_banned s \<or>
    (\<exists>source. db_put D (ls_banned s) source [0x31] = Inr (ls_banned (loop_step C W D ck s ev)))"
proof (cases ev)
  case OutgoingTx
  then show ?thesis by (simp add: loop_step_def outgoing_tx_def act_def Let_def split: list.split sum.split)
next
  case (Swarm sev)
  have vote: "ls_banned (handle_vote_request W now s data) = ls_banned s"
    "ls_banned (handle_vote_response W now s data) = ls_banned s" for now data
    by (simp_all add: handle_vote_request_def handle_vote_response_def act_def Let_def split: sum.split)
  have "ls_banned (handle_gossip C W D ck s p data) = ls_banned s \<or>
      db_put D (ls_banned s) p [0x31] = Inr (ls_banned (handle_gossip C W D ck s p data))" for p data
    using broadcast_bans [of C W D ck s p]
    by (auto simp: handle_gossip_def vote split: sum.split message_type.split)
  with Swarm show ?thesis by (cases sev) (auto simp: loop_step_def connection_check_def act_def Let_def)
qed (simp_all add: loop_step_def)

text \<open>What the documentation of the database promises: a write that succeeds sets its key and no other.\<close>

definition db_ok :: "('d, 'p) ban_db \<Rightarrow> bool" where
  "db_ok D \<longleftrightarrow> (\<forall>d p v d'. db_put D d p v = Inr d' \<longrightarrow>
     (\<forall>q. db_get D d' q = (if q = p then Inr (Some v) else db_get D d q)))"

lemma ban_kept:
  "loop_reaches C W D s s' \<Longrightarrow> db_ok D \<Longrightarrow> db_get D (ls_banned s) p = Inr (Some v) \<Longrightarrow>
     \<exists>v'. db_get D (ls_banned s') p = Inr (Some v')"
proof (induction rule: loop_reaches.induct)
  case (reach_step s' ck ev)
  then obtain v' where v': "db_get D (ls_banned s') p = Inr (Some v')" by blast
  show ?case
    using loop_step_bans [of C W D ck s' ev]
  proof (elim disjE exE)
    fix q assume "db_put D (ls_banned s') q [0x31] = Inr (ls_banned (loop_step C W D ck s' ev))"
    then have "db_get D (ls_banned (loop_step C W D ck s' ev)) p
        = (if p = q then Inr (Some [0x31]) else db_get D (ls_banned s') p)"
      using reach_step.prems(1) unfolding db_ok_def by blast
    with v' show ?thesis by simp
  qed (use v' in simp)
qed auto

text \<open>C30: A peer whose transaction exceeds the supply is banned for good: if the rate limiter admits the sender,
  the circulating supply plus the amount (added as the release build adds, modulo \<open>2 ^ 64\<close>) exceeds the
  total supply and the write to the table of bans succeeds, then its gossip is answered with a
  disconnection and leaves the graph alone, and in every later state of the event loop every connection of
  the peer is disconnected at once (for a database that returns the last value written to a key); the
  transaction's signature plays no part, since the supply is compared before anything is validated.\<close>

theorem supply_excess_bans:
  fixes C :: crypto and W :: wire and D :: "('d, 'p) ban_db" and s s'' :: "('d, 'p) loop_state"
    and ck ck' :: clock and source :: 'p and payload :: bytes
  assumes "db_ok D" "dec_tx W payload = Inr tx"
    and "fst (limiter_check (rn_limiter (ls_node s)) (tx_sender tx) (int (ck_instant ck)))"
    and "TOTAL_SUPPLY < total_circulating (g_state (node_dag (ls_node s))) + tx_amount tx"
    and "db_put D (ls_banned s) source [0x31] = Inr d"
    and "loop_reaches C W D (handle_broadcast C W D ck s source payload) s''"
  shows "ls_actions (handle_broadcast C W D ck s source payload) = ls_actions s @ [DisconnectPeer source] \<and>
    node_dag (ls_node (handle_broadcast C W D ck s source payload)) = node_dag (ls_node s) \<and>
    ls_actions (loop_step C W D ck' s'' (Swarm (ConnectionEstablished source)))
      = ls_actions s'' @ [DisconnectPeer source]"
proof -
  obtain rl where lim: "limiter_check (rn_limiter (ls_node s)) (tx_sender tx) (int (ck_instant ck)) = (True, rl)"
    using assms(3) by (cases "limiter_check (rn_limiter (ls_node s)) (tx_sender tx) (int (ck_instant ck))") simp
  obtain m where sub: "submit_transaction C ck (ls_node s) tx
      = (Inl (SupplyCapExceeded m), (ls_node s)\<lparr>rn_limiter := rl\<rparr>)"
    using assms(4) by (simp add: submit_transaction_def lim)
  have s': "handle_broadcast C W D ck s source payload
      = act (s\<lparr>ls_node := (ls_node s)\<lparr>rn_limiter := rl\<rparr>, ls_banned := d\<rparr>) (DisconnectPeer source)"
    by (simp add: handle_broadcast_def assms(2,5) sub)
  have "db_get D d source = Inr (Some [0x31])" using assms(1,5) unfolding db_ok_def by fastforce
  with ban_kept [OF assms(6,1), of source "[0x31]"] obtain v where "db_get D (ls_banned s'') source = Inr (Some v)"
    by (auto simp: s' act_def)
  then show ?thesis by (simp add: s' act_def loop_step_def connection_check_def)
qed

text \<open>The node name in a vote message is taken as the voter, whoever sent it.\<close>

theorem vote_sender_not_checked:
  assumes "dec_vote W payload = Inr vote"
    and "map_of (ce_validators (rn_consensus (ls_node s))) (NodeId (vp_node_id vote)) = Some p"
    and "cc_min_validator_voting_power (ce_config (rn_consensus (ls_node s))) \<le> p"
  shows "tally_at (ce_aggregator (rn_consensus (ls_node (handle_vote_response W now s payload)))) (vp_tx_hash vote)
    \<in> {count_vote \<lparr>vt_voter = NodeId (vp_node_id vote), vt_tx_hash = vp_tx_hash vote,
         vt_accept = vp_accept vote, vt_timestamp = now\<rparr> p
         (tally_at (ce_aggregator (rn_consensus (ls_node s))) (vp_tx_hash vote)), empty_tally}"
proof -
  have "sat_sub now now = (0 :: u64)" by (simp add: sat_sub_def)
  then have "admitted now (rn_consensus (ls_node s)) \<lparr>vt_voter = NodeId (vp_node_id vote),
      vt_tx_hash = vp_tx_hash vote, vt_accept = vp_accept vote, vt_timestamp = now\<rparr> = Some p"
    using assms(2,3) by (simp add: admitted_def not_le [symmetric])
  then show ?thesis
    by (simp add: handle_vote_response_def assms(1) process_remote_vote_def receive_vote_tally Let_def)
qed

section \<open>Witnesses\<close>

text \<open>A codec for one transaction and one message, and a ban list.\<close>

definition demo_message :: network_message where
  "demo_message = message_new 9 TransactionBroadcast [1]"

definition demo_wire :: wire where
  "demo_wire =
     \<lparr>enc_tx = (\<lambda>tx. if tx = demo_transfer then Inr [1] else Inl []),
      dec_tx = (\<lambda>b. if b = [1] then Inr demo_transfer else Inl []),
      enc_hash = (\<lambda>_. Inl []), dec_hash = (\<lambda>_. Inl []),
      enc_vote = (\<lambda>_. Inl []), dec_vote = (\<lambda>_. Inl []),
      enc_msg = (\<lambda>m. if m = demo_message then Inr [2] else Inl []),
      dec_msg = (\<lambda>b. if b = [2] then Inr demo_message else Inl [])\<rparr>"

definition demo_bans :: "(nat list, nat) ban_db" where
  "demo_bans =
     \<lparr>db_get = (\<lambda>d p. Inr (if p \<in> set d then Some [0x31] else None)),
      db_put = (\<lambda>d p v. if v = [0x31] then Inr (p # d) else Inl [])\<rparr>"

definition demo_loop :: "(nat list, nat) loop_state" where
  "demo_loop = \<lparr>ls_node = demo_node\<lparr>rn_tx_sender := [demo_transfer]\<rparr>, ls_banned = [], ls_actions = []\<rparr>"

theorem node_never_funded_witness:
  "ledger_total (g_state (node_dag (ls_node (loop_step demo_crypto demo_wire demo_bans demo_clock
     (loop_start demo_crypto demo_clock default_node_config []) (RpcSubmit demo_transfer))))) = 0"
proof -
  have "node_run demo_crypto demo_wire demo_bans default_node_config
      (loop_step demo_crypto demo_wire demo_bans demo_clock
        (loop_start demo_crypto demo_clock default_node_config []) (RpcSubmit demo_transfer))"
    by (intro node_run.intros)
  from node_never_funded [OF this] show ?thesis by simp
qed

theorem node_never_finalizes_witness:
  "ce_events (rn_consensus (ls_node (loop_step demo_crypto demo_wire demo_bans demo_clock
     (loop_start demo_crypto demo_clock default_node_config []) MempoolTick))) = []"
proof -
  have "node_run demo_crypto demo_wire demo_bans default_node_config
      (loop_step demo_crypto demo_wire demo_bans demo_clock
        (loop_start demo_crypto demo_clock default_node_config []) MempoolTick)"
    by (intro node_run.intros)
  from node_never_finalizes [OF this] show ?thesis
    by (simp add: default_node_config_def default_consensus_config_def)
qed

theorem broadcast_delivers_witness:
  "ls_actions (loop_step demo_crypto demo_wire demo_bans demo_clock demo_loop OutgoingTx) = [PublishTransaction [2]] \<and>
   ls_node (loop_step demo_crypto demo_wire demo_bans demo_clock demo_loop (Swarm (GossipMessage 7 [2])))
     = snd (submit_transaction demo_crypto demo_clock (ls_node demo_loop) demo_transfer)"
proof -
  have "wire_ok demo_wire" by (simp add: wire_ok_def demo_wire_def)
  moreover have "rn_tx_sender (ls_node demo_loop) = demo_transfer # []" by (simp add: demo_loop_def)
  moreover have "enc_tx demo_wire demo_transfer = Inr [1]" by (simp add: demo_wire_def)
  moreover have "enc_msg demo_wire (message_new (ck_ms demo_clock) TransactionBroadcast [1]) = Inr [2]"
    by (simp add: demo_wire_def demo_message_def demo_clock_def)
  ultimately show ?thesis
    using broadcast_delivers [of demo_wire demo_loop demo_transfer "[]" "[1]" demo_clock "[2]" demo_crypto demo_bans
        demo_clock demo_loop 7]
    by (simp add: demo_loop_def)
qed

theorem supply_excess_bans_witness:
  "ls_actions (loop_step demo_crypto (demo_wire\<lparr>dec_tx := \<lambda>_. Inr (demo_transfer\<lparr>tx_amount := TOTAL_SUPPLY\<rparr>)\<rparr>)
       demo_bans demo_clock
       (loop_step demo_crypto (demo_wire\<lparr>dec_tx := \<lambda>_. Inr (demo_transfer\<lparr>tx_amount := TOTAL_SUPPLY\<rparr>)\<rparr>)
         demo_bans demo_clock
         (handle_broadcast demo_crypto (demo_wire\<lparr>dec_tx := \<lambda>_. Inr (demo_transfer\<lparr>tx_amount := TOTAL_SUPPLY\<rparr>)\<rparr>)
           demo_bans demo_clock demo_loop 7 [1])
         MempoolTick)
       (Swarm (ConnectionEstablished 7)))
     = [DisconnectPeer 7, DisconnectPeer 7]"
proof -
  let ?W = "demo_wire\<lparr>dec_tx := \<lambda>_. Inr (demo_transfer\<lparr>tx_amount := TOTAL_SUPPLY\<rparr>)\<rparr>"
  have circ: "unat (total_circulating (g_state demo_graph)) = 5000000"
    by (simp add: total_circulating_unat demo_graph_parts demo_total)
  have node: "node_dag (ls_node demo_loop) = demo_graph" "rn_limiter (ls_node demo_loop) = limiter_new 100"
    by (simp_all add: demo_loop_def demo_node_parts)
  have "db_ok demo_bans" by (auto simp: db_ok_def demo_bans_def split: if_splits)
  moreover have "dec_tx ?W [1] = Inr (demo_transfer\<lparr>tx_amount := TOTAL_SUPPLY\<rparr>)" by simp
  moreover have "fst (limiter_check (rn_limiter (ls_node demo_loop))
      (tx_sender (demo_transfer\<lparr>tx_amount := TOTAL_SUPPLY\<rparr>)) (int (ck_instant demo_clock)))"
    by (simp add: node demo_limiter_admits)
  moreover have "unat (total_circulating (g_state demo_graph) + TOTAL_SUPPLY) = 5000000 + unat TOTAL_SUPPLY"
    by (subst unat_add_no_wrap) (simp_all add: circ)
  then have "TOTAL_SUPPLY < total_circulating (g_state (node_dag (ls_node demo_loop)))
      + tx_amount (demo_transfer\<lparr>tx_amount := TOTAL_SUPPLY\<rparr>)"
    by (simp add: node word_less_nat_alt)
  moreover have "db_put demo_bans (ls_banned demo_loop) 7 [0x31] = Inr [7]"
    by (simp add: demo_bans_def demo_loop_def)
  moreover have "loop_reaches demo_crypto ?W demo_bans (handle_broadcast demo_crypto ?W demo_bans demo_clock demo_loop 7 [1])
      (loop_step demo_crypto ?W demo_bans demo_clock (handle_broadcast demo_crypto ?W demo_bans demo_clock demo_loop 7 [1]) MempoolTick)"
    by (intro reach_step reach_here)
  ultimately have "ls_actions (handle_broadcast demo_crypto ?W demo_bans demo_clock demo_loop 7 [1]) = ls_actions demo_loop @ [DisconnectPeer 7] \<and>
      ls_actions (loop_step demo_crypto ?W demo_bans demo_clock (loop_step demo_crypto ?W demo_bans demo_clock
        (handle_broadcast demo_crypto ?W demo_bans demo_clock demo_loop 7 [1]) MempoolTick) (Swarm (ConnectionEstablished 7)))
      = ls_actions (loop_step demo_crypto ?W demo_bans demo_clock
        (handle_broadcast demo_crypto ?W demo_bans demo_clock demo_loop 7 [1]) MempoolTick) @ [DisconnectPeer 7]"
    using supply_excess_bans [of demo_bans ?W "[1]" "demo_transfer\<lparr>tx_amount := TOTAL_SUPPLY\<rparr>" demo_loop demo_clock
        7 "[7]" demo_crypto _ demo_clock] by blast
  moreover have "ls_actions demo_loop = []" by (simp add: demo_loop_def)
  moreover have "ls_actions (loop_step demo_crypto ?W demo_bans demo_clock t MempoolTick) = ls_actions t" for t
    by (simp add: loop_step_def)
  ultimately show ?thesis by simp
qed

theorem loop_conserves_supply_witness:
  "ledger_total (g_state (node_dag (ls_node (loop_step demo_crypto demo_wire demo_bans demo_clock demo_loop OutgoingTx))))
     \<le> 5000000"
proof -
  have total: "ledger_total (g_state (node_dag (ls_node demo_loop))) = 5000000"
    using demo_node_parts(3) by (simp add: demo_loop_def)
  then have "ledger_total (g_state (node_dag (ls_node demo_loop))) < 2 ^ 64" by simp
  from loop_conserves_supply [OF reach_step [OF reach_here] this] show ?thesis by (simp only: total)
qed

end
