(* ===== verification/Persist.thy ===== *)
theory Persist
  imports Transactions
begin

text \<open>
  \<open>relyo-dag/src/storage.rs\<close>: the persistent tables.  The database engine (\<open>redb\<close>) and the
  serialiser (\<open>bincode\<close>) are arguments; \<open>redb_ok\<close> and \<open>codec_ok\<close> state what their documentation
  promises.  Every engine call may fail.  A write transaction that is dropped before its commit
  leaves no trace: the caller still holds the old database.
\<close>

section \<open>The engine\<close>

datatype db_key = KBytes bytes | KStr string | KU64 u64
datatype db_value = VBytes bytes | VU64 u64

record ('d, 'w, 'r) redb =
  begin_write :: "'d \<Rightarrow> string + 'w"
  open_write :: "'w \<Rightarrow> string \<Rightarrow> string + 'w"
  insert_cell :: "'w \<Rightarrow> string \<Rightarrow> db_key \<Rightarrow> db_value \<Rightarrow> string + 'w"
  commit :: "'w \<Rightarrow> string + 'd"
  begin_read :: "'d \<Rightarrow> string + 'r"
  open_read :: "'r \<Rightarrow> string \<Rightarrow> string + unit"
  read_cell :: "'r \<Rightarrow> string \<Rightarrow> db_key \<Rightarrow> string + db_value option"
  table_len :: "'r \<Rightarrow> string \<Rightarrow> string + nat"
  create_db :: "string \<Rightarrow> string + 'd"

type_synonym 'x cells = "'x \<Rightarrow> string \<Rightarrow> db_key \<Rightarrow> db_value option"

text \<open>\<open>cont\<close> and \<open>wcont\<close>: the cells of a database and of an open write transaction.\<close>

definition redb_ok :: "('d, 'w, 'r) redb \<Rightarrow> 'd cells \<Rightarrow> 'w cells \<Rightarrow> bool" where
  "redb_ok R cont wcont \<longleftrightarrow>
     (\<forall>d w. begin_write R d = Inr w \<longrightarrow> wcont w = cont d) \<and>
     (\<forall>w t w'. open_write R w t = Inr w' \<longrightarrow> wcont w' = wcont w) \<and>
     (\<forall>w t k v w'. insert_cell R w t k v = Inr w' \<longrightarrow> wcont w' = (wcont w)(t := (wcont w t)(k \<mapsto> v))) \<and>
     (\<forall>w d. commit R w = Inr d \<longrightarrow> cont d = wcont w) \<and>
     (\<forall>d r t k v. begin_read R d = Inr r \<and> open_read R r t = Inr () \<and> read_cell R r t k = Inr v \<longrightarrow>
        v = cont d t k)"

record codec =
  ser_tx :: "transaction \<Rightarrow> string + bytes"
  de_tx :: "bytes \<Rightarrow> string + transaction"
  ser_status :: "transaction_status \<Rightarrow> string + bytes"
  de_status :: "bytes \<Rightarrow> string + transaction_status"

definition codec_ok :: "codec \<Rightarrow> bool" where
  "codec_ok E \<longleftrightarrow>
     (\<forall>x b. ser_tx E x = Inr b \<longrightarrow> de_tx E b = Inr x) \<and>
     (\<forall>x b. ser_status E x = Inr b \<longrightarrow> de_status E b = Inr x)"

section \<open>Operations\<close>

text \<open>\<open>map_err(|e| RelyoError::Storage(...))\<close>, and the conversion of a serialisation error by \<open>?\<close>.\<close>

definition storage_error :: "string + 'a \<Rightarrow> 'a result" where
  "storage_error r = map_sum Storage id r"

definition serialization_error :: "string + 'a \<Rightarrow> 'a result" where
  "serialization_error r = map_sum Serialization id r"

text \<open>The steps that every writing, and every reading, method repeats.\<close>

definition put_cell :: "('d, 'w, 'r) redb \<Rightarrow> 'd \<Rightarrow> string \<Rightarrow> db_key \<Rightarrow> db_value \<Rightarrow> 'd result" where
  "put_cell R d table k v =
     try_then (storage_error (begin_write R d)) (\<lambda>w.
     try_then (storage_error (open_write R w table)) (\<lambda>w.
     try_then (storage_error (insert_cell R w table k v)) (\<lambda>w.
     storage_error (commit R w))))"

definition get_cell :: "('d, 'w, 'r) redb \<Rightarrow> 'd \<Rightarrow> string \<Rightarrow> db_key \<Rightarrow> db_value option result" where
  "get_cell R d table k =
     try_then (storage_error (begin_read R d)) (\<lambda>r.
     try_then (storage_error (open_read R r table)) (\<lambda>_.
     storage_error (read_cell R r table k)))"

text \<open>The value of a cell of a table of byte strings, and of integers.\<close>

fun cell_bytes :: "db_value \<Rightarrow> bytes" where
  "cell_bytes (VBytes b) = b"
| "cell_bytes (VU64 _) = []"

fun cell_u64 :: "db_value \<Rightarrow> u64" where
  "cell_u64 (VU64 n) = n"
| "cell_u64 (VBytes _) = 0"

fun open_tables :: "('d, 'w, 'r) redb \<Rightarrow> 'w \<Rightarrow> string list \<Rightarrow> 'w result" where
  "open_tables R w [] = Inr w"
| "open_tables R w (t # ts) = try_then (storage_error (open_write R w t)) (\<lambda>w. open_tables R w ts)"

definition open_storage :: "('d, 'w, 'r) redb \<Rightarrow> string \<Rightarrow> 'd result" where
  "open_storage R path =
     try_then (storage_error (create_db R (path @ ''/relyo.redb''))) (\<lambda>d.
     try_then (storage_error (begin_write R d)) (\<lambda>w.
     try_then (open_tables R w [''transactions'', ''status'', ''meta'', ''balances'', ''nonces'', ''checkpoints'']) (\<lambda>w.
     storage_error (commit R w))))"

definition put_transaction ::
    "('d, 'w, 'r) redb \<Rightarrow> codec \<Rightarrow> 'd \<Rightarrow> transaction_hash \<Rightarrow> transaction \<Rightarrow> 'd result" where
  "put_transaction R E d h tx =
     try_then (serialization_error (ser_tx E tx)) (\<lambda>data.
     put_cell R d ''transactions'' (KBytes (hash_bytes h)) (VBytes data))"

definition get_transaction ::
    "('d, 'w, 'r) redb \<Rightarrow> codec \<Rightarrow> 'd \<Rightarrow> transaction_hash \<Rightarrow> transaction option result" where
  "get_transaction R E d h =
     try_then (get_cell R d ''transactions'' (KBytes (hash_bytes h))) (\<lambda>found.
     case found of
       Some data \<Rightarrow> try_then (serialization_error (de_tx E (cell_bytes data))) (\<lambda>tx. Inr (Some tx))
     | None \<Rightarrow> Inr None)"

definition put_status ::
    "('d, 'w, 'r) redb \<Rightarrow> codec \<Rightarrow> 'd \<Rightarrow> transaction_hash \<Rightarrow> transaction_status \<Rightarrow> 'd result" where
  "put_status R E d h status =
     try_then (serialization_error (ser_status E status)) (\<lambda>data.
     put_cell R d ''status'' (KBytes (hash_bytes h)) (VBytes data))"

definition get_status ::
    "('d, 'w, 'r) redb \<Rightarrow> codec \<Rightarrow> 'd \<Rightarrow> transaction_hash \<Rightarrow> transaction_status option result" where
  "get_status R E d h =
     try_then (get_cell R d ''status'' (KBytes (hash_bytes h))) (\<lambda>found.
     case found of
       Some data \<Rightarrow> try_then (serialization_error (de_status E (cell_bytes data))) (\<lambda>s. Inr (Some s))
     | None \<Rightarrow> Inr None)"

definition put_meta :: "('d, 'w, 'r) redb \<Rightarrow> 'd \<Rightarrow> string \<Rightarrow> bytes \<Rightarrow> 'd result" where
  "put_meta R d k v = put_cell R d ''meta'' (KStr k) (VBytes v)"

definition get_meta :: "('d, 'w, 'r) redb \<Rightarrow> 'd \<Rightarrow> string \<Rightarrow> bytes option result" where
  "get_meta R d k =
     try_then (get_cell R d ''meta'' (KStr k)) (\<lambda>found. Inr (map_option cell_bytes found))"

definition put_balance :: "('d, 'w, 'r) redb \<Rightarrow> 'd \<Rightarrow> address \<Rightarrow> u64 \<Rightarrow> 'd result" where
  "put_balance R d addr amount =
     put_cell R d ''balances'' (KBytes (string_bytes (as_str addr))) (VU64 amount)"

definition get_balance :: "('d, 'w, 'r) redb \<Rightarrow> 'd \<Rightarrow> address \<Rightarrow> u64 result" where
  "get_balance R d addr =
     try_then (get_cell R d ''balances'' (KBytes (string_bytes (as_str addr)))) (\<lambda>found.
     Inr (case found of Some data \<Rightarrow> cell_u64 data | None \<Rightarrow> 0))"

definition put_nonce :: "('d, 'w, 'r) redb \<Rightarrow> 'd \<Rightarrow> address \<Rightarrow> u64 \<Rightarrow> 'd result" where
  "put_nonce R d addr n = put_cell R d ''nonces'' (KBytes (string_bytes (as_str addr))) (VU64 n)"

definition get_nonce :: "('d, 'w, 'r) redb \<Rightarrow> 'd \<Rightarrow> address \<Rightarrow> u64 result" where
  "get_nonce R d addr =
     try_then (get_cell R d ''nonces'' (KBytes (string_bytes (as_str addr)))) (\<lambda>found.
     Inr (case found of Some data \<Rightarrow> cell_u64 data | None \<Rightarrow> 0))"

definition put_checkpoint :: "('d, 'w, 'r) redb \<Rightarrow> 'd \<Rightarrow> u64 \<Rightarrow> bytes \<Rightarrow> 'd result" where
  "put_checkpoint R d epoch data = put_cell R d ''checkpoints'' (KU64 epoch) (VBytes data)"

definition get_checkpoint :: "('d, 'w, 'r) redb \<Rightarrow> 'd \<Rightarrow> u64 \<Rightarrow> bytes option result" where
  "get_checkpoint R d epoch =
     try_then (get_cell R d ''checkpoints'' (KU64 epoch)) (\<lambda>found. Inr (map_option cell_bytes found))"

definition transaction_exists :: "('d, 'w, 'r) redb \<Rightarrow> codec \<Rightarrow> 'd \<Rightarrow> transaction_hash \<Rightarrow> bool result" where
  "transaction_exists R E d h = try_then (get_transaction R E d h) (\<lambda>found. Inr (found \<noteq> None))"

definition stored_transaction_count :: "('d, 'w, 'r) redb \<Rightarrow> 'd \<Rightarrow> nat result" where
  "stored_transaction_count R d =
     try_then (storage_error (begin_read R d)) (\<lambda>r.
     try_then (storage_error (open_read R r ''transactions'')) (\<lambda>_.
     storage_error (table_len R r ''transactions'')))"

fun insert_txs ::
    "('d, 'w, 'r) redb \<Rightarrow> codec \<Rightarrow> 'w \<Rightarrow> (transaction_hash \<times> transaction) list \<Rightarrow> 'w result" where
  "insert_txs R E w [] = Inr w"
| "insert_txs R E w ((h, tx) # txs) =
     try_then (serialization_error (ser_tx E tx)) (\<lambda>data.
     try_then (storage_error (insert_cell R w ''transactions'' (KBytes (hash_bytes h)) (VBytes data))) (\<lambda>w.
     insert_txs R E w txs))"

definition put_transaction_batch ::
    "('d, 'w, 'r) redb \<Rightarrow> codec \<Rightarrow> 'd \<Rightarrow> (transaction_hash \<times> transaction) list \<Rightarrow> 'd result" where
  "put_transaction_batch R E d txs =
     try_then (storage_error (begin_write R d)) (\<lambda>w.
     try_then (storage_error (open_write R w ''transactions'')) (\<lambda>w.
     try_then (insert_txs R E w txs) (\<lambda>w.
     storage_error (commit R w))))"

section \<open>Facts\<close>

lemma storage_error_Inr [simp]: "storage_error r = Inr v \<longleftrightarrow> r = Inr v"
  by (cases r) (simp_all add: storage_error_def)

lemma serialization_error_Inr [simp]: "serialization_error r = Inr v \<longleftrightarrow> r = Inr v"
  by (cases r) (simp_all add: serialization_error_def)

lemma put_cell_cells:
  assumes "redb_ok R cont wcont" "put_cell R d t k v = Inr d'"
  shows "cont d' = (cont d)(t := (cont d t)(k \<mapsto> v))"
proof -
  obtain w1 w2 w3 where "begin_write R d = Inr w1" "open_write R w1 t = Inr w2"
    "insert_cell R w2 t k v = Inr w3" "commit R w3 = Inr d'"
    using assms(2) by (auto simp: put_cell_def try_then_Inr)
  then have "wcont w1 = cont d" "wcont w2 = wcont w1" "wcont w3 = (wcont w2)(t := (wcont w2 t)(k \<mapsto> v))"
    "cont d' = wcont w3"
    using assms(1) unfolding redb_ok_def by blast+
  then show ?thesis by simp
qed

lemma get_cell_cells:
  "redb_ok R cont wcont \<Longrightarrow> get_cell R d t k = Inr v \<Longrightarrow> v = cont d t k"
  by (auto simp: get_cell_def try_then_Inr redb_ok_def)

lemma insert_txs_cells:
  assumes "redb_ok R cont wcont" "codec_ok E" "insert_txs R E w txs = Inr w'"
  shows "wcont w' t k = (if t = ''transactions'' then
      (case k of KBytes b \<Rightarrow> (case map_of (rev txs) (TransactionHash b) of
          Some tx \<Rightarrow> Some (VBytes (projr (ser_tx E tx))) | None \<Rightarrow> wcont w t k)
       | _ \<Rightarrow> wcont w t k) else wcont w t k) \<and> (\<forall>(h, tx) \<in> set txs. ser_tx E tx = Inr (projr (ser_tx E tx)))"
  using assms(3)
proof (induction txs arbitrary: w)
  case Nil
  then show ?case by (simp split: db_key.split)
next
  case (Cons p txs)
  obtain h tx where p: "p = (h, tx)" by fastforce
  obtain data w1 where ser: "ser_tx E tx = Inr data"
    and ins: "insert_cell R w ''transactions'' (KBytes (hash_bytes h)) (VBytes data) = Inr w1"
    and rest: "insert_txs R E w1 txs = Inr w'"
    using Cons.prems by (auto simp: p try_then_Inr)
  have w1: "wcont w1 = (wcont w)(''transactions'' := (wcont w ''transactions'')(KBytes (hash_bytes h) \<mapsto> VBytes data))"
    using assms(1) ins unfolding redb_ok_def by blast
  have h: "TransactionHash b = h \<longleftrightarrow> b = hash_bytes h" for b by (cases h) simp
  show ?case
    using Cons.IH [OF rest] w1 ser
    by (auto simp: p map_add_def h split: db_key.split option.split)
qed

lemma get_transaction_cells:
  assumes "redb_ok R cont wcont" "get_transaction R E d h = Inr r"
  shows "case cont d ''transactions'' (KBytes (hash_bytes h)) of
      None \<Rightarrow> r = None | Some v \<Rightarrow> (\<exists>tx. de_tx E (cell_bytes v) = Inr tx \<and> r = Some tx)"
  using assms(2) get_cell_cells [OF assms(1)]
  by (auto simp: get_transaction_def try_then_Inr split: option.splits)

lemma put_transaction_cells:
  assumes "redb_ok R cont wcont" "put_transaction R E d h tx = Inr d'"
  shows "\<exists>data. ser_tx E tx = Inr data \<and>
    cont d' = (cont d)(''transactions'' := (cont d ''transactions'')(KBytes (hash_bytes h) \<mapsto> VBytes data))"
  using assms(2) put_cell_cells [OF assms(1)] by (auto simp: put_transaction_def try_then_Inr)

lemma hash_bytes_inj [simp]: "hash_bytes h = hash_bytes h' \<longleftrightarrow> h = h'"
  by (cases h; cases h') simp

text \<open>Storing a transaction and reading it back gives the transaction (for an engine that reads what was committed and a serialiser that inverts itself); no other hash, no balance and no status reads differently afterwards.\<close>

theorem storage_roundtrip:
  assumes "redb_ok R cont wcont" "codec_ok E" "put_transaction R E d h tx = Inr d'"
  shows "(\<forall>r. get_transaction R E d' h = Inr r \<longrightarrow> r = Some tx) \<and>
    (\<forall>h' r r'. h' \<noteq> h \<and> get_transaction R E d h' = Inr r \<and> get_transaction R E d' h' = Inr r' \<longrightarrow> r' = r) \<and>
    (\<forall>a b b'. get_balance R d a = Inr b \<and> get_balance R d' a = Inr b' \<longrightarrow> b' = b) \<and>
    (\<forall>h' s s'. get_status R E d h' = Inr s \<and> get_status R E d' h' = Inr s' \<longrightarrow> s' = s)"
proof -
  obtain data where ser: "ser_tx E tx = Inr data" and cells:
    "cont d' = (cont d)(''transactions'' := (cont d ''transactions'')(KBytes (hash_bytes h) \<mapsto> VBytes data))"
    using put_transaction_cells [OF assms(1,3)] by blast
  have de: "de_tx E data = Inr tx" using ser assms(2) by (simp add: codec_ok_def)
  note got = get_transaction_cells [OF assms(1)]
  have "r = Some tx" if "get_transaction R E d' h = Inr r" for r
    using got [OF that] de by (simp add: cells)
  moreover have "r' = r" if "h' \<noteq> h" "get_transaction R E d h' = Inr r" "get_transaction R E d' h' = Inr r'" for h' r r'
    using got [OF that(2)] got [OF that(3)] that(1) by (auto simp: cells split: option.splits)
  moreover have other: "v' = v" if "get_cell R d t k = Inr v" "get_cell R d' t k = Inr v'" "t \<noteq> ''transactions''"
    for t k v v'
    using get_cell_cells [OF assms(1) that(1)] get_cell_cells [OF assms(1) that(2)] that(3) by (simp add: cells)
  moreover have "b' = b" if "get_balance R d a = Inr b" "get_balance R d' a = Inr b'" for a b b'
    using that by (auto simp: get_balance_def try_then_Inr dest: other)
  moreover have "s' = s" if "get_status R E d h' = Inr s" "get_status R E d' h' = Inr s'" for h' s s'
    using that by (auto simp: get_status_def try_then_Inr dest: other)
  ultimately show ?thesis by blast
qed

text \<open>A batch of transactions is stored as a whole: after a successful batch every hash reads as its last transaction in the batch, and as before when the batch does not have it.\<close>

theorem storage_batch:
  assumes "redb_ok R cont wcont" "codec_ok E" "put_transaction_batch R E d txs = Inr d'"
    and "get_transaction R E d' h = Inr r" "get_transaction R E d h = Inr r0"
  shows "r = (case map_of (rev txs) h of Some tx \<Rightarrow> Some tx | None \<Rightarrow> r0)"
proof -
  obtain w1 w2 w3 where w: "begin_write R d = Inr w1" "open_write R w1 ''transactions'' = Inr w2"
    "insert_txs R E w2 txs = Inr w3" "commit R w3 = Inr d'"
    using assms(3) by (auto simp: put_transaction_batch_def try_then_Inr)
  then have same: "wcont w2 = cont d" "cont d' = wcont w3" using assms(1) unfolding redb_ok_def by metis+
  note ins = insert_txs_cells [OF assms(1,2) w(3), of "''transactions''" "KBytes (hash_bytes h)"]
  note got = get_transaction_cells [OF assms(1)]
  show ?thesis
  proof (cases "map_of (rev txs) h")
    case None
    with ins got [OF assms(4)] got [OF assms(5)] same show ?thesis by (auto split: option.splits)
  next
    case (Some tx)
    then have "(h, tx) \<in> set txs" using map_of_SomeD by fastforce
    then have "ser_tx E tx = Inr (projr (ser_tx E tx))" using ins by blast
    then have "de_tx E (projr (ser_tx E tx)) = Inr tx" using assms(2) unfolding codec_ok_def by blast
    with Some ins got [OF assms(4)] same show ?thesis by auto
  qed
qed

section \<open>Witnesses\<close>

text \<open>An engine whose databases and write transactions are their cells, and a codec for one transaction.\<close>

type_synonym cell_store = "string \<Rightarrow> db_key \<Rightarrow> db_value option"

definition demo_redb :: "(cell_store, cell_store, cell_store) redb" where
  "demo_redb =
     \<lparr>begin_write = Inr, open_write = (\<lambda>w _. Inr w), insert_cell = (\<lambda>w t k v. Inr (w(t := (w t)(k \<mapsto> v)))),
      commit = Inr, begin_read = Inr, open_read = (\<lambda>_ _. Inr ()), read_cell = (\<lambda>r t k. Inr (r t k)),
      table_len = (\<lambda>_ _. Inr 0), create_db = (\<lambda>_. Inr (\<lambda>_ _. None))\<rparr>"

definition demo_codec :: "transaction \<Rightarrow> codec" where
  "demo_codec tx =
     \<lparr>ser_tx = (\<lambda>x. if x = tx then Inr [1] else Inl []), de_tx = (\<lambda>b. if b = [1] then Inr tx else Inl []),
      ser_status = (\<lambda>s. if s = Confirmed then Inr [2] else Inl []),
      de_status = (\<lambda>b. if b = [2] then Inr Confirmed else Inl [])\<rparr>"

lemma demo_redb_ok [simp]: "redb_ok demo_redb id id"
  by (auto simp: redb_ok_def demo_redb_def)

lemma demo_codec_ok [simp]: "codec_ok (demo_codec tx)"
  by (simp add: codec_ok_def demo_codec_def)

lemma demo_put:
  "put_transaction demo_redb (demo_codec tx) (\<lambda>_ _. None) h tx
     = Inr ((\<lambda>_ _. None)(''transactions'' := [KBytes (hash_bytes h) \<mapsto> VBytes [1]]))"
  by (simp add: put_transaction_def put_cell_def demo_redb_def demo_codec_def serialization_error_def
      storage_error_def)

theorem storage_roundtrip_witness:
  "get_transaction demo_redb (demo_codec demo_tx)
     ((\<lambda>_ _. None)(''transactions'' := [KBytes (hash_bytes zero_hash) \<mapsto> VBytes [1]])) zero_hash
     = Inr (Some demo_tx)"
proof -
  have "\<exists>r. get_transaction demo_redb (demo_codec demo_tx)
     ((\<lambda>_ _. None)(''transactions'' := [KBytes (hash_bytes zero_hash) \<mapsto> VBytes [1]])) zero_hash = Inr r"
    by (simp add: get_transaction_def get_cell_def demo_redb_def demo_codec_def serialization_error_def
        storage_error_def)
  with storage_roundtrip [OF demo_redb_ok demo_codec_ok demo_put [of demo_tx zero_hash]] show ?thesis by blast
qed

theorem storage_batch_witness:
  "get_transaction demo_redb (demo_codec demo_tx)
     ((\<lambda>_ _. None)(''transactions'' := [KBytes (hash_bytes zero_hash) \<mapsto> VBytes [1]])) zero_hash
     = Inr (Some demo_tx)"
proof -
  have put: "put_transaction_batch demo_redb (demo_codec demo_tx) (\<lambda>_ _. None) [(zero_hash, demo_tx)]
      = Inr ((\<lambda>_ _. None)(''transactions'' := [KBytes (hash_bytes zero_hash) \<mapsto> VBytes [1]]))"
    by (simp add: put_transaction_batch_def demo_redb_def demo_codec_def serialization_error_def
        storage_error_def)
  have get: "get_transaction demo_redb (demo_codec demo_tx) (\<lambda>_ _. None) zero_hash = Inr None"
    "\<exists>r. get_transaction demo_redb (demo_codec demo_tx)
       ((\<lambda>_ _. None)(''transactions'' := [KBytes (hash_bytes zero_hash) \<mapsto> VBytes [1]])) zero_hash = Inr r"
    by (simp_all add: get_transaction_def get_cell_def demo_redb_def demo_codec_def serialization_error_def
        storage_error_def)
  from get(2) storage_batch [OF demo_redb_ok demo_codec_ok put _ get(1)] show ?thesis by auto
qed

end
