(* ===== verification/Checkpoints.thy ===== *)
theory Checkpoints
  imports Persist Merkle Graph
begin

text \<open>
  \<open>relyo-dag/src/checkpoint.rs\<close> with the records of \<open>types.rs\<close>: counting transactions between
  checkpoints, building a checkpoint of the graph and the ledger, saving and loading it.  The two
  clock readings of one checkpoint and the serialiser of its record are arguments.
\<close>

record checkpoint =
  cp_epoch :: u64
  cp_dag_depth :: u64
  cp_merkle_root :: bytes
  cp_state_hash :: bytes
  cp_timestamp :: u64
  cp_transaction_count :: u64
  cp_validator_signatures :: "(string \<times> bytes) list"

record checkpoint_record =
  cr_checkpoint :: checkpoint
  cr_created_at :: u64

record checkpoint_manager =
  cm_tx_interval :: u64
  cm_last_epoch :: u64
  cm_tx_since_checkpoint :: u64

definition checkpoint_manager_new :: "u64 \<Rightarrow> checkpoint_manager" where
  "checkpoint_manager_new tx_interval =
     \<lparr>cm_tx_interval = tx_interval, cm_last_epoch = 0, cm_tx_since_checkpoint = 0\<rparr>"

definition default_checkpoint_manager :: checkpoint_manager where
  "default_checkpoint_manager = checkpoint_manager_new 10000"

definition on_transaction :: "checkpoint_manager \<Rightarrow> bool \<times> checkpoint_manager" where
  "on_transaction m =
     (let n = cm_tx_since_checkpoint m + 1
      in (n \<ge> cm_tx_interval m, m\<lparr>cm_tx_since_checkpoint := n\<rparr>))"

definition all_transactions :: "dag_graph \<Rightarrow> dag_node list" where
  "all_transactions g = map snd (g_nodes g)"

definition checkpoint_tree :: "crypto \<Rightarrow> dag_graph \<Rightarrow> merkle_tree" where
  "checkpoint_tree C dag = from_leaves C (map (\<lambda>n. hash_bytes (dn_hash n)) (all_transactions dag))"

definition create_checkpoint ::
    "crypto \<Rightarrow> u64 \<Rightarrow> u64 \<Rightarrow> checkpoint_manager \<Rightarrow> dag_graph \<Rightarrow> ledger_state \<Rightarrow>
       checkpoint_record \<times> checkpoint_manager" where
  "create_checkpoint C now now' m dag state =
     (let epoch = cm_last_epoch m + 1;
          m' = m\<lparr>cm_last_epoch := epoch, cm_tx_since_checkpoint := 0\<rparr>;
          hash = state_hash C state;
          merkle = checkpoint_tree C dag;
          checkpoint = \<lparr>cp_epoch = epoch, cp_dag_depth = g_max_depth dag, cp_merkle_root = merkle_root merkle,
                        cp_state_hash = hash, cp_timestamp = now, cp_transaction_count = g_total_count dag,
                        cp_validator_signatures = []\<rparr>
      in (\<lparr>cr_checkpoint = checkpoint, cr_created_at = now'\<rparr>, m'))"

definition save_checkpoint ::
    "('d, 'w, 'r) redb \<Rightarrow> (checkpoint_record \<Rightarrow> string + bytes) \<Rightarrow> 'd \<Rightarrow> checkpoint_record \<Rightarrow> 'd result" where
  "save_checkpoint R ser_record d record =
     try_then (map_sum CheckpointError id (ser_record record)) (\<lambda>data.
     put_checkpoint R d (cp_epoch (cr_checkpoint record)) data)"

definition load_checkpoint ::
    "('d, 'w, 'r) redb \<Rightarrow> (bytes \<Rightarrow> string + checkpoint_record) \<Rightarrow> 'd \<Rightarrow> u64 \<Rightarrow> checkpoint_record option result" where
  "load_checkpoint R de_record d epoch =
     try_then (get_checkpoint R d epoch) (\<lambda>found.
     case found of
       Some data \<Rightarrow> try_then (map_sum CheckpointError id (de_record data)) (\<lambda>record. Inr (Some record))
     | None \<Rightarrow> Inr None)"

definition current_epoch :: "checkpoint_manager \<Rightarrow> u64" where
  "current_epoch m = cm_last_epoch m"

definition tx_since_last :: "checkpoint_manager \<Rightarrow> u64" where
  "tx_since_last m = cm_tx_since_checkpoint m"

section \<open>Runs of the manager\<close>

text \<open>A manager after \<open>k\<close> checkpoints and \<open>n\<close> transactions since the last one.\<close>

inductive checkpoint_run :: "u64 \<Rightarrow> checkpoint_manager \<Rightarrow> nat \<Rightarrow> nat \<Rightarrow> bool" for i where
  run_new: "checkpoint_run i (checkpoint_manager_new i) 0 0"
| run_transaction: "checkpoint_run i m k n \<Longrightarrow> checkpoint_run i (snd (on_transaction m)) k (Suc n)"
| run_checkpoint:
    "checkpoint_run i m k n \<Longrightarrow> checkpoint_run i (snd (create_checkpoint C now now' m dag state)) (Suc k) 0"

lemma checkpoint_run_counters:
  "checkpoint_run i m k n \<Longrightarrow>
    cm_tx_interval m = i \<and> cm_last_epoch m = of_nat k \<and> cm_tx_since_checkpoint m = of_nat n"
  by (induction rule: checkpoint_run.induct)
    (simp_all add: checkpoint_manager_new_def on_transaction_def create_checkpoint_def Let_def)

section \<open>Facts\<close>

text \<open>Checkpoints are due on time and numbered without gaps: after k checkpoints and n transactions since the last one, the next transaction reports that a checkpoint is due exactly when n + 1 has reached the interval, and the next checkpoint has the epoch k + 1 and restarts the count.\<close>

theorem checkpoint_schedule:
  assumes "checkpoint_run i m k n" "n + 1 < 2 ^ 64" "k + 1 < 2 ^ 64"
  shows "(fst (on_transaction m) \<longleftrightarrow> unat i \<le> n + 1) \<and>
    unat (cp_epoch (cr_checkpoint (fst (create_checkpoint C now now' m dag state)))) = k + 1 \<and>
    tx_since_last (snd (create_checkpoint C now now' m dag state)) = 0"
proof -
  have word: "unat (of_nat j + 1 :: u64) = j + 1" if "j + 1 < 2 ^ 64" for j
  proof -
    have "of_nat j + 1 = (of_nat (j + 1) :: u64)" by simp
    then show ?thesis using that by (simp only: unat_of_nat) simp
  qed
  show ?thesis
    using checkpoint_run_counters [OF assms(1)] word [OF assms(2)] word [OF assms(3)]
    by (simp add: on_transaction_def create_checkpoint_def Let_def word_le_unat tx_since_last_def)
qed

text \<open>A checkpoint commits to the whole graph and ledger: every node of the graph has an inclusion proof, at its position, that verifies its hash against the checkpoint's root, and the checkpoint carries the hash of the ledger, the depth and the number of transactions.\<close>

theorem checkpoint_commits:
  assumes "i < length (all_transactions dag)"
  shows "\<exists>p. inclusion_proof (checkpoint_tree C dag) i = Some (Some p) \<and>
    leaf_hash p = sha3_256 C (hash_bytes (dn_hash (all_transactions dag ! i))) \<and>
    verify_proof C p (cp_merkle_root (cr_checkpoint (fst (create_checkpoint C now now' m dag state)))) \<and>
    cp_state_hash (cr_checkpoint (fst (create_checkpoint C now now' m dag state))) = state_hash C state"
proof -
  let ?hs = "map (sha3_256 C) (map (\<lambda>n. hash_bytes (dn_hash n)) (all_transactions dag))"
  have tree: "checkpoint_tree C dag = from_hashes C ?hs"
    using assms by (auto simp: checkpoint_tree_def from_leaves_def)
  have "i < length ?hs" using assms by simp
  from proof_exists [OF this, of C] show ?thesis
    using assms by (auto simp: create_checkpoint_def Let_def tree)
qed

text \<open>A saved checkpoint loads as it was saved, under its epoch, and other epochs read as before.\<close>

theorem checkpoint_roundtrip:
  assumes "redb_ok R cont wcont" "\<And>x b. ser x = Inr b \<Longrightarrow> de b = Inr x"
    and "save_checkpoint R ser d record = Inr d'"
  shows "(\<forall>r. load_checkpoint R de d' (cp_epoch (cr_checkpoint record)) = Inr r \<longrightarrow> r = Some record) \<and>
    (\<forall>e r r'. e \<noteq> cp_epoch (cr_checkpoint record) \<and> load_checkpoint R de d e = Inr r \<and>
       load_checkpoint R de d' e = Inr r' \<longrightarrow> r' = r)"
proof -
  let ?e = "cp_epoch (cr_checkpoint record)"
  obtain data where ser: "ser record = Inr data" and put: "put_checkpoint R d ?e data = Inr d'"
    using assms(3) by (cases "ser record") (auto simp: save_checkpoint_def)
  have cells: "cont d' = (cont d)(''checkpoints'' := (cont d ''checkpoints'')(KU64 ?e \<mapsto> VBytes data))"
    using put_cell_cells [OF assms(1)] put by (simp add: put_checkpoint_def)
  have got: "v = map_option cell_bytes (cont d0 ''checkpoints'' (KU64 e))" if "get_checkpoint R d0 e = Inr v" for d0 e v
    using that get_cell_cells [OF assms(1)] by (auto simp: get_checkpoint_def try_then_Inr)
  have "r = Some record" if "load_checkpoint R de d' ?e = Inr r" for r
    using that by (auto simp: load_checkpoint_def try_then_Inr cells assms(2) [OF ser] dest!: got)
  moreover have "r' = r" if "e \<noteq> ?e" "load_checkpoint R de d e = Inr r" "load_checkpoint R de d' e = Inr r'" for e r r'
    using that by (auto simp: load_checkpoint_def try_then_Inr cells dest!: got)
  ultimately show ?thesis by blast
qed

section \<open>The root depends on the order of the map\<close>

lemma swapped_leaves:
  "merkle_root (from_leaves demo_crypto [[1], [2]]) \<noteq> merkle_root (from_leaves demo_crypto [[2], [1]])"
  by code_simp

text \<open>Two nodes that hold the same transactions can compute different checkpoint roots: the leaves are taken in the iteration order of a hash map, while the state hash sorts its entries; here two graphs with the same nodes, in the two orders, have different roots.\<close>

theorem checkpoint_root_order_dependent:
  "\<exists>g g'. mset (g_nodes g) = mset (g_nodes g') \<and> distinct (keys (g_nodes g)) \<and> g_state g = g_state g' \<and>
     cp_state_hash (cr_checkpoint (fst (create_checkpoint demo_crypto 0 0 default_checkpoint_manager g (g_state g))))
       = cp_state_hash (cr_checkpoint (fst (create_checkpoint demo_crypto 0 0 default_checkpoint_manager g' (g_state g')))) \<and>
     cp_merkle_root (cr_checkpoint (fst (create_checkpoint demo_crypto 0 0 default_checkpoint_manager g (g_state g))))
       \<noteq> cp_merkle_root (cr_checkpoint (fst (create_checkpoint demo_crypto 0 0 default_checkpoint_manager g' (g_state g'))))"
proof -
  define entry where "entry b = (TransactionHash [b], \<lparr>dn_tx = demo_tx, dn_hash = TransactionHash [b], dn_status = Pending,
      dn_children = [], dn_weight = 1, dn_depth = 0\<rparr>)" for b
  let ?g = "\<lambda>ns. (graph_new ledger_new tips_new conflicts_new)\<lparr>g_nodes := ns\<rparr>"
  have "cp_merkle_root (cr_checkpoint (fst (create_checkpoint demo_crypto 0 0 default_checkpoint_manager (?g [entry 1, entry 2]) st)))
      \<noteq> cp_merkle_root (cr_checkpoint (fst (create_checkpoint demo_crypto 0 0 default_checkpoint_manager (?g [entry 2, entry 1]) st)))"
    for st
    using swapped_leaves by (simp add: create_checkpoint_def Let_def checkpoint_tree_def all_transactions_def entry_def)
  then show ?thesis
    by (intro exI [of _ "?g [entry 1, entry 2]"] exI [of _ "?g [entry 2, entry 1]"])
      (simp add: create_checkpoint_def Let_def entry_def)
qed

section \<open>Witnesses\<close>

theorem checkpoint_schedule_witness:
  "fst (on_transaction (snd (on_transaction (checkpoint_manager_new 2))))"
  using checkpoint_schedule [OF run_transaction [OF run_new], of 2] by simp

theorem checkpoint_commits_witness:
  "\<exists>p. inclusion_proof (checkpoint_tree demo_crypto demo_graph) 0 = Some (Some p) \<and>
    verify_proof demo_crypto p
      (cp_merkle_root (cr_checkpoint (fst (create_checkpoint demo_crypto 0 0 default_checkpoint_manager demo_graph ledger_new))))"
proof -
  have "length (all_transactions demo_graph) = 1"
    using arg_cong [OF demo_graph_parts(2), of length] by (simp add: all_transactions_def)
  then have "0 < length (all_transactions demo_graph)" by simp
  from checkpoint_commits [OF this] show ?thesis by blast
qed

definition demo_record :: checkpoint_record where
  "demo_record = fst (create_checkpoint demo_crypto 0 0 default_checkpoint_manager demo_graph ledger_new)"

theorem checkpoint_roundtrip_witness:
  "load_checkpoint demo_redb (\<lambda>_. Inr demo_record)
     ((\<lambda>_ _. None)(''checkpoints'' := [KU64 1 \<mapsto> VBytes [7]])) 1 = Inr (Some demo_record)"
proof -
  define ser where "ser x = (if x = demo_record then Inr [7] else Inl [] :: string + bytes)" for x
  let ?d = "(\<lambda>_ _. None)(''checkpoints'' := [KU64 1 \<mapsto> VBytes [7]])"
  have epoch: "cp_epoch (cr_checkpoint demo_record) = 1"
    by (simp add: demo_record_def create_checkpoint_def default_checkpoint_manager_def checkpoint_manager_new_def Let_def)
  have inv: "ser x = Inr b \<Longrightarrow> Inr demo_record = (Inr x :: string + checkpoint_record)" for x b
    by (simp add: ser_def split: if_splits)
  have save: "save_checkpoint demo_redb ser (\<lambda>_ _. None) demo_record = Inr ?d"
    by (simp add: save_checkpoint_def put_checkpoint_def put_cell_def demo_redb_def storage_error_def ser_def epoch)
  have "\<exists>r. load_checkpoint demo_redb (\<lambda>_. Inr demo_record) ?d 1 = Inr r"
    by (simp add: load_checkpoint_def get_checkpoint_def get_cell_def demo_redb_def storage_error_def)
  with checkpoint_roundtrip [OF demo_redb_ok inv save] show ?thesis by (auto simp: epoch)
qed

end
