(* ===== verification/Explorer.thy ===== *)
theory Explorer
  imports Rpc Checkpoints
begin

text \<open>
  The read-only views of a node: the explorer's handlers and response types
  (\<open>relyo-explorer/src/handlers.rs\<close>, \<open>api.rs\<close>).  A handler returns its response, or a status code
  with an error text; \<open>Servers\<close> has the routes that lead to it.
\<close>

section \<open>Explorer\<close>

datatype status_code = BAD_REQUEST | NOT_FOUND

record 'f transaction_response =
  tr_hash :: string
  tr_sender :: string
  tr_receiver :: string
  tr_amount :: 'f
  tr_amount_base :: u64
  tr_fee :: 'f
  tr_fee_base :: u64
  tr_timestamp :: u64
  tr_nonce :: u64
  tr_parent_1 :: string
  tr_parent_2 :: string
  tr_status :: string

record 'f address_response =
  ar_address :: string
  ar_balance :: 'f
  ar_balance_base :: u64
  ar_nonce :: u64
  ar_transaction_count :: u64

record 'f network_stats_response =
  sr_total_transactions :: u64
  sr_confirmed_transactions :: u64
  sr_pending_transactions :: u64
  sr_active_nodes :: u64
  sr_tps :: 'f
  sr_avg_confirmation_ms :: 'f
  sr_dag_tips :: nat
  sr_total_supply :: 'f
  sr_circulating_supply :: 'f
  sr_ticker :: string
  sr_name :: string

record dag_viz_node =
  vn_id :: string
  vn_status :: string
  vn_timestamp :: u64
  vn_weight :: u64

record dag_viz_edge =
  ve_from :: string
  ve_to :: string

record dag_visualization_response =
  dv_nodes :: "dag_viz_node list"
  dv_edges :: "dag_viz_edge list"

record 'f token_info_response =
  ti_name :: string
  ti_ticker :: string
  ti_total_supply :: 'f
  ti_decimals :: u8
  ti_base_fee :: 'f
  ti_daily_reward_emission :: 'f
  ti_reward_timeline_years :: u32
  ti_node_rewards_pct :: 'f

definition token_info_from_config :: "'f float_ops \<Rightarrow> 'f token_info_response" where
  "token_info_from_config F =
     \<lparr>ti_name = tc_name RELYO_CONFIG, ti_ticker = tc_ticker RELYO_CONFIG,
      ti_total_supply = base_to_rly F (tc_total_supply RELYO_CONFIG), ti_decimals = tc_decimals RELYO_CONFIG,
      ti_base_fee = base_to_rly F (base_fee RELYO_CONFIG),
      ti_daily_reward_emission = base_to_rly F (daily_reward_emission RELYO_CONFIG),
      ti_reward_timeline_years = reward_timeline_years RELYO_CONFIG, ti_node_rewards_pct = f_lit F 100 0\<rparr>"

definition network_stats :: "'f float_ops \<Rightarrow> dag_graph \<Rightarrow> 'f network_stats_response" where
  "network_stats F dag =
     (let all_txs = all_transactions dag;
          confirmed = length (filter (\<lambda>n. dn_status n = Confirmed) all_txs);
          pending = length (filter (\<lambda>n. dn_status n = Pending \<or> dn_status n = Voting) all_txs)
      in \<lparr>sr_total_transactions = g_total_count dag, sr_confirmed_transactions = of_nat confirmed,
          sr_pending_transactions = of_nat pending, sr_active_nodes = 1, sr_tps = f_lit F 0 0,
          sr_avg_confirmation_ms = f_lit F 0 0, sr_dag_tips = tip_count (g_tips dag),
          sr_total_supply = base_to_rly F (tc_total_supply RELYO_CONFIG),
          sr_circulating_supply = base_to_rly F (total_circulating (g_state dag)),
          sr_ticker = tc_ticker RELYO_CONFIG, sr_name = tc_name RELYO_CONFIG\<rparr>)"

definition explorer_get_transaction ::
    "crypto \<Rightarrow> 'f float_ops \<Rightarrow> dag_graph \<Rightarrow> string \<Rightarrow> (status_code \<times> string) + 'f transaction_response" where
  "explorer_get_transaction C F dag hash_hex =
     (case from_hex C hash_hex of
        Inl e \<Rightarrow> Inl (BAD_REQUEST, error_text e)
      | Inr hash \<Rightarrow>
          (case get_node dag hash of
             None \<Rightarrow> Inl (NOT_FOUND, ''transaction not found'')
           | Some node \<Rightarrow>
               let tx = dn_tx node
               in Inr \<lparr>tr_hash = to_hex C hash, tr_sender = as_str (tx_sender tx),
                       tr_receiver = as_str (tx_receiver tx), tr_amount = base_to_rly F (tx_amount tx),
                       tr_amount_base = tx_amount tx, tr_fee = base_to_rly F (tx_fee tx),
                       tr_fee_base = tx_fee tx, tr_timestamp = tx_timestamp tx, tr_nonce = tx_nonce tx,
                       tr_parent_1 = to_hex C (tx_parent_1 tx), tr_parent_2 = to_hex C (tx_parent_2 tx),
                       tr_status = status_debug (dn_status node)\<rparr>))"

definition explorer_get_address ::
    "crypto \<Rightarrow> 'f float_ops \<Rightarrow> dag_graph \<Rightarrow> string \<Rightarrow> (status_code \<times> string) + 'f address_response" where
  "explorer_get_address C F dag addr_str =
     (case validate_address C addr_str of
        Inl e \<Rightarrow> Inl (BAD_REQUEST, error_text e)
      | Inr _ \<Rightarrow>
          (case parse_address C addr_str of
             Inl e \<Rightarrow> Inl (BAD_REQUEST, error_text e)
           | Inr addr \<Rightarrow>
               let b = balance (g_state dag) addr;
                   tx_count = length (filter (\<lambda>n. tx_sender (dn_tx n) = addr \<or> tx_receiver (dn_tx n) = addr)
                     (all_transactions dag))
               in Inr \<lparr>ar_address = as_str addr, ar_balance = base_to_rly F b, ar_balance_base = b,
                       ar_nonce = nonce (g_state dag) addr, ar_transaction_count = of_nat tx_count\<rparr>))"

text \<open>The edges of one node of the picture: its parents that are not the zero hash.\<close>

definition viz_edges :: "crypto \<Rightarrow> dag_node \<Rightarrow> dag_viz_edge list" where
  "viz_edges C n =
     (if \<not> is_zero (tx_parent_1 (dn_tx n))
        then [\<lparr>ve_from = to_hex C (dn_hash n), ve_to = to_hex C (tx_parent_1 (dn_tx n))\<rparr>] else []) @
     (if \<not> is_zero (tx_parent_2 (dn_tx n))
        then [\<lparr>ve_from = to_hex C (dn_hash n), ve_to = to_hex C (tx_parent_2 (dn_tx n))\<rparr>] else [])"

definition dag_visualization :: "crypto \<Rightarrow> dag_graph \<Rightarrow> dag_visualization_response" where
  "dag_visualization C dag =
     (let nodes = all_transactions dag
      in \<lparr>dv_nodes = map (\<lambda>n. \<lparr>vn_id = to_hex C (dn_hash n), vn_status = status_debug (dn_status n),
            vn_timestamp = tx_timestamp (dn_tx n), vn_weight = dn_weight n\<rparr>) nodes,
          dv_edges = concat (map (viz_edges C) nodes)\<rparr>)"

definition explorer_get_tips :: "crypto \<Rightarrow> dag_graph \<Rightarrow> string list \<times> nat" where
  "explorer_get_tips C dag =
     (let tips = map (to_hex C) (ts_tips (g_tips dag)) in (tips, length tips))"

section \<open>Facts\<close>

lemma status_partition:
  "length (filter (\<lambda>n. dn_status n = Confirmed) ns) + length (filter (\<lambda>n. dn_status n = Pending \<or> dn_status n = Voting) ns)
     + length (filter (\<lambda>n. dn_status n = Rejected) ns) = length ns"
proof (induction ns)
  case (Cons n ns)
  then show ?case by (cases "dn_status n") simp_all
qed simp

text \<open>The explorer's figures describe the graph: on a well-formed graph the total, confirmed and pending counts are those of its nodes, what is missing to the total are exactly the rejected nodes, and the number of tips is the number of nodes without children.\<close>

theorem network_stats_exact:
  assumes "graph_ok C dag" "length (g_nodes dag) < 2 ^ 64"
  shows "unat (sr_total_transactions (network_stats F dag)) = length (all_transactions dag) \<and>
    unat (sr_confirmed_transactions (network_stats F dag)) + unat (sr_pending_transactions (network_stats F dag))
      + length (filter (\<lambda>n. dn_status n = Rejected) (all_transactions dag))
      = unat (sr_total_transactions (network_stats F dag)) \<and>
    sr_dag_tips (network_stats F dag) = card {h. \<exists>n. get_node dag h = Some n \<and> dn_children n = []}"
proof -
  have small: "unat (of_nat k :: u64) = k" if "k \<le> length (all_transactions dag)" for k
    using that assms(2) by (simp add: unat_of_nat all_transactions_def)
  have "length (filter P (all_transactions dag)) \<le> length (all_transactions dag)" for P by simp
  note parts = small [OF this]
  have total: "unat (g_total_count dag) = length (all_transactions dag)"
    using graph_okD(7) [OF assms(1)] small [of "length (all_transactions dag)"] by (simp add: all_transactions_def)
  have "{h. \<exists>n. get_node dag h = Some n \<and> dn_children n = []} = set (ts_tips (g_tips dag))"
    using graph_okD(4) [OF assms(1)] by (auto simp: get_node_def has_tip_def)
  moreover have "distinct (ts_tips (g_tips dag))" using graph_okD(5) [OF assms(1)] by (simp add: tips_ok_def)
  ultimately have "tip_count (g_tips dag) = card {h. \<exists>n. get_node dag h = Some n \<and> dn_children n = []}"
    by (simp add: tip_count_def distinct_card)
  then show ?thesis
    using status_partition [of "all_transactions dag"] by (simp add: network_stats_def Let_def parts total)
qed

lemma graph_node:
  assumes "graph_ok C dag"
  shows "n \<in> set (all_transactions dag) \<longleftrightarrow> get_node dag (dn_hash n) = Some n"
proof
  assume "n \<in> set (all_transactions dag)"
  then obtain h where "(h, n) \<in> set (g_nodes dag)" by (auto simp: all_transactions_def)
  then have "map_of (g_nodes dag) h = Some n" using graph_okD(1) [OF assms] by simp
  with graph_okD(3) [OF assms] show "get_node dag (dn_hash n) = Some n" by (simp add: get_node_def node_ok_def)
next
  assume "get_node dag (dn_hash n) = Some n"
  then show "n \<in> set (all_transactions dag)"
    by (force simp: all_transactions_def get_node_def dest: map_of_SomeD)
qed

lemma viz_edge_iff:
  "e \<in> set (viz_edges C n) \<longleftrightarrow>
    (\<exists>p \<in> {tx_parent_1 (dn_tx n), tx_parent_2 (dn_tx n)}. p \<noteq> zero_hash \<and>
       e = \<lparr>ve_from = to_hex C (dn_hash n), ve_to = to_hex C p\<rparr>)"
  by (auto simp: viz_edges_def is_zero_iff)

text \<open>The picture of the graph is exact and closed: on a well-formed graph the edges of \<open>dag_visualization\<close> are the links from the nodes to their parents other than the zero hash, and both ends of every edge are shown nodes.\<close>

theorem dag_visualization_closed:
  assumes "graph_ok C dag"
  shows "set (dv_edges (dag_visualization C dag)) =
      {\<lparr>ve_from = to_hex C h, ve_to = to_hex C p\<rparr> | h n p. get_node dag h = Some n \<and>
         p \<in> {tx_parent_1 (dn_tx n), tx_parent_2 (dn_tx n)} \<and> p \<noteq> zero_hash} \<and>
    (\<forall>e \<in> set (dv_edges (dag_visualization C dag)).
       {ve_from e, ve_to e} \<subseteq> vn_id ` set (dv_nodes (dag_visualization C dag)))"
proof -
  let ?links = "{\<lparr>ve_from = to_hex C h, ve_to = to_hex C p\<rparr> | h n p. get_node dag h = Some n \<and>
         p \<in> {tx_parent_1 (dn_tx n), tx_parent_2 (dn_tx n)} \<and> p \<noteq> zero_hash}"
  note node = graph_okD(3) [OF assms, unfolded node_ok_def]
  have ids: "vn_id ` set (dv_nodes (dag_visualization C dag)) = (\<lambda>n. to_hex C (dn_hash n)) ` set (all_transactions dag)"
    by (simp add: dag_visualization_def Let_def image_image)
  have shown: "to_hex C h \<in> vn_id ` set (dv_nodes (dag_visualization C dag))" if "get_node dag h = Some n" for h n
  proof -
    have "dn_hash n = h" using that node by (simp add: get_node_def)
    then show ?thesis unfolding ids using that graph_node [OF assms] by blast
  qed
  have parent: "\<exists>m. get_node dag p = Some m"
    if "get_node dag h = Some n" "p \<in> {tx_parent_1 (dn_tx n), tx_parent_2 (dn_tx n)}" "p \<noteq> zero_hash" for h n p
  proof -
    have "\<not> is_genesis (dn_tx n)" using that(2,3) by (auto simp: is_genesis_def is_zero_iff)
    then show ?thesis using node [of h n] that(1,2) by (auto simp: get_node_def has_key_def)
  qed
  have "set (dv_edges (dag_visualization C dag)) = (\<Union>n \<in> set (all_transactions dag). set (viz_edges C n))"
    by (simp add: dag_visualization_def Let_def)
  also have "\<dots> = ?links"
  proof (intro equalityI subsetI)
    fix e assume "e \<in> (\<Union>n \<in> set (all_transactions dag). set (viz_edges C n))"
    then obtain n where "get_node dag (dn_hash n) = Some n" "e \<in> set (viz_edges C n)"
      using graph_node [OF assms] by blast
    then show "e \<in> ?links" unfolding viz_edge_iff by blast
  next
    fix e assume "e \<in> ?links"
    then obtain h n p where n: "get_node dag h = Some n" "p \<in> {tx_parent_1 (dn_tx n), tx_parent_2 (dn_tx n)}"
      "p \<noteq> zero_hash" and e: "e = \<lparr>ve_from = to_hex C h, ve_to = to_hex C p\<rparr>" by blast
    have h: "dn_hash n = h" using n(1) node by (simp add: get_node_def)
    then have "n \<in> set (all_transactions dag)" using n(1) graph_node [OF assms] by blast
    moreover have "e \<in> set (viz_edges C n)" using n(2,3) e h unfolding viz_edge_iff by blast
    ultimately show "e \<in> (\<Union>n \<in> set (all_transactions dag). set (viz_edges C n))" by blast
  qed
  finally have edges: "set (dv_edges (dag_visualization C dag)) = ?links" .
  moreover have "{ve_from e, ve_to e} \<subseteq> vn_id ` set (dv_nodes (dag_visualization C dag))" if "e \<in> ?links" for e
    using that shown parent by fastforce
  ultimately show ?thesis by blast
qed

section \<open>Witnesses\<close>

lemma demo_graph_graph_ok: "graph_ok demo_crypto demo_graph"
  using grown_ok [OF demo_grown] by simp

lemma demo_graph_length: "length (g_nodes demo_graph) = 1"
  using arg_cong [OF demo_graph_parts(2), of length] by simp

theorem network_stats_exact_witness:
  "unat (sr_total_transactions (network_stats fixed_point demo_graph)) = length (all_transactions demo_graph)"
proof -
  have "length (g_nodes demo_graph) < 2 ^ 64" by (simp add: demo_graph_length)
  from network_stats_exact [OF demo_graph_graph_ok this, of fixed_point] show ?thesis by blast
qed

theorem dag_visualization_closed_witness:
  "\<forall>e \<in> set (dv_edges (dag_visualization demo_crypto (accepted demo_crypto 9 (lock_sender demo_graph demo_transfer) demo_transfer))).
     ve_to e \<in> vn_id ` set (dv_nodes (dag_visualization demo_crypto
       (accepted demo_crypto 9 (lock_sender demo_graph demo_transfer) demo_transfer)))"
proof -
  have "tx_hash demo_crypto demo_transfer \<noteq> zero_hash" by code_simp
  from grown_ok [OF grown_insert [OF demo_grown this, of 9]]
  have "graph_ok demo_crypto (accepted demo_crypto 9 (lock_sender demo_graph demo_transfer) demo_transfer)"
    by (simp add: dag_insert_acceptable [OF demo_acceptable])
  from dag_visualization_closed [OF this] show ?thesis by blast
qed

end
