(* ===== verification/Servers.thy ===== *)
theory Servers
  imports Explorer
begin

text \<open>
  The two HTTP servers of a node: the explorer (\<open>relyo-explorer/src/server.rs\<close>) and the JSON-RPC
  server with its WebSocket broadcast (\<open>relyo-node/src/rpc.rs\<close>), and the guards under which the node
  starts them (\<open>node.rs\<close>). How axum's router matches a path against a route is an argument, and so
  is the text of a WebSocket event.
\<close>

section \<open>Routes of the explorer\<close>

datatype http_method = GET | POST

record explorer_config =
  bind_addr :: socket_addr

definition default_explorer_config :: explorer_config where
  "default_explorer_config = \<lparr>bind_addr = ((0, 0, 0, 0), 8080)\<rparr>"

record explorer_server =
  es_config :: explorer_config
  es_dag :: dag_graph

definition explorer_server_new :: "explorer_config \<Rightarrow> dag_graph \<Rightarrow> explorer_server" where
  "explorer_server_new config dag = \<lparr>es_config = config, es_dag = dag\<rparr>"

datatype endpoint =
    Health | TokenInfo | Stats | TransactionByHash | AddressByText | DagPicture | TipList

datatype 'f explorer_reply =
    HealthReply string string
  | TokenReply "'f token_info_response"
  | StatsReply "'f network_stats_response"
  | TransactionReply "(status_code \<times> string) + 'f transaction_response"
  | AddressReply "(status_code \<times> string) + 'f address_response"
  | DagReply dag_visualization_response
  | TipsReply "string list" nat
  | NoRoute
  | NoMethod
  | PathRejected

definition health :: "'f explorer_reply" where
  "health = HealthReply ''ok'' ''relyo''"

definition explorer_routes :: "(string \<times> endpoint) list" where
  "explorer_routes =
     [(''/api/health'', Health), (''/api/token'', TokenInfo), (''/api/stats'', Stats),
      (''/api/transaction/{hash}'', TransactionByHash), (''/api/address/{address}'', AddressByText),
      (''/api/dag'', DagPicture), (''/api/tips'', TipList)]"

text \<open>
  \<open>route_match route path\<close>: \<open>Some captures\<close> when the path matches the route. A handler with a
  \<open>Path<String>\<close> argument needs exactly one capture.
\<close>

type_synonym route_match = "string \<Rightarrow> string \<Rightarrow> string list option"

fun find_route :: "route_match \<Rightarrow> (string \<times> endpoint) list \<Rightarrow> string \<Rightarrow> (endpoint \<times> string list) option" where
  "find_route M [] path = None"
| "find_route M ((route, e) # routes) path =
     (case M route path of Some captures \<Rightarrow> Some (e, captures) | None \<Rightarrow> find_route M routes path)"

definition with_path :: "string list \<Rightarrow> (string \<Rightarrow> 'f explorer_reply) \<Rightarrow> 'f explorer_reply" where
  "with_path captures handler = (case captures of [c] \<Rightarrow> handler c | _ \<Rightarrow> PathRejected)"

fun serve ::
    "crypto \<Rightarrow> 'f float_ops \<Rightarrow> dag_graph \<Rightarrow> endpoint \<Rightarrow> string list \<Rightarrow> 'f explorer_reply" where
  "serve C F dag Health captures = health"
| "serve C F dag TokenInfo captures = TokenReply (token_info_from_config F)"
| "serve C F dag Stats captures = StatsReply (network_stats F dag)"
| "serve C F dag TransactionByHash captures =
     with_path captures (\<lambda>hash. TransactionReply (explorer_get_transaction C F dag hash))"
| "serve C F dag AddressByText captures =
     with_path captures (\<lambda>addr. AddressReply (explorer_get_address C F dag addr))"
| "serve C F dag DagPicture captures = DagReply (dag_visualization C dag)"
| "serve C F dag TipList captures = (let (tips, n) = explorer_get_tips C dag in TipsReply tips n)"

definition explorer_router ::
    "route_match \<Rightarrow> crypto \<Rightarrow> 'f float_ops \<Rightarrow> explorer_server \<Rightarrow> http_method \<Rightarrow> string \<Rightarrow> 'f explorer_reply" where
  "explorer_router M C F server http path =
     (case find_route M explorer_routes path of
        None \<Rightarrow> NoRoute
      | Some (e, captures) \<Rightarrow> if http = GET then serve C F (es_dag server) e captures else NoMethod)"

section \<open>The RPC server\<close>

datatype 'f ws_event =
    TransactionFinalized string string string u64 u64 u64
  | EpochChanged u64 u64 nat
  | NodeScoreUpdated string 'f u64 u64 'f
  | NetworkStats 'f nat u64

text \<open>The statistics sent every ten seconds; two of the fields are placeholders.\<close>

definition stats_event :: "'f float_ops \<Rightarrow> relyo_node \<Rightarrow> 'f ws_event" where
  "stats_event F n = NetworkStats (f_lit F 0 0) 1 (total_circulating (g_state (node_dag n)))"

text \<open>The listener of consensus events: accepted finalizations whose node is still in the graph.\<close>

definition ws_of_event :: "crypto \<Rightarrow> dag_graph \<Rightarrow> consensus_event \<Rightarrow> 'f ws_event option" where
  "ws_of_event C dag ev =
     (case ev of Finalized h acc \<Rightarrow>
        if acc then
          (case get_node dag h of
             None \<Rightarrow> None
           | Some node \<Rightarrow>
               let tx = dn_tx node
               in Some (TransactionFinalized (to_hex C h) (as_str (tx_sender tx)) (as_str (tx_receiver tx))
                    (tx_amount tx) (tx_fee tx) (tx_timestamp tx)))
        else None)"

text \<open>
  The broadcast channel: all messages sent so far, and for each client the position of the next one
  it will read. A receiver that has fallen behind by more than the capacity gets an error, and the
  task that serves the client ends there, as it does when the socket fails.
\<close>

record ws_client =
  wc_next :: nat
  wc_received :: "string list"
  wc_open :: bool

record ws_server =
  ws_capacity :: nat
  ws_log :: "string list"
  ws_clients :: "ws_client list"

text \<open>\<open>channel(100)\<close>: the capacity is the request, rounded up by tokio to \<open>cap\<close>.\<close>

definition ws_start :: "nat \<Rightarrow> ws_server" where
  "ws_start cap = \<lparr>ws_capacity = max 100 cap, ws_log = [], ws_clients = []\<rparr>"

definition ws_subscribe :: "ws_server \<Rightarrow> ws_server" where
  "ws_subscribe s = s\<lparr>ws_clients := ws_clients s @
     [\<lparr>wc_next = length (ws_log s), wc_received = [], wc_open = True\<rparr>]\<rparr>"

text \<open>An event that cannot be written as JSON is not sent.\<close>

definition ws_broadcast :: "('f ws_event \<Rightarrow> string + string) \<Rightarrow> ws_server \<Rightarrow> 'f ws_event \<Rightarrow> ws_server" where
  "ws_broadcast to_json s ev =
     (case to_json ev of Inl _ \<Rightarrow> s | Inr json \<Rightarrow> s\<lparr>ws_log := ws_log s @ [json]\<rparr>)"

definition ws_forward :: "nat \<Rightarrow> string list \<Rightarrow> bool \<Rightarrow> ws_client \<Rightarrow> ws_client" where
  "ws_forward cap log sent c =
     (if \<not> wc_open c \<or> wc_next c = length log then c
      else if length log - wc_next c > cap then c\<lparr>wc_open := False\<rparr>
      else if sent then c\<lparr>wc_received := wc_received c @ [log ! wc_next c], wc_next := wc_next c + 1\<rparr>
      else c\<lparr>wc_open := False\<rparr>)"

text \<open>Client \<open>i\<close> reads one message; \<open>sent\<close> tells whether its socket took it.\<close>

definition ws_pump :: "nat \<Rightarrow> bool \<Rightarrow> ws_server \<Rightarrow> ws_server" where
  "ws_pump i sent s =
     (if i < length (ws_clients s)
      then s\<lparr>ws_clients := (ws_clients s)[i := ws_forward (ws_capacity s) (ws_log s) sent (ws_clients s ! i)]\<rparr>
      else s)"

definition consensus_listener ::
    "crypto \<Rightarrow> ('f ws_event \<Rightarrow> string + string) \<Rightarrow> dag_graph \<Rightarrow> ws_server \<Rightarrow> consensus_event \<Rightarrow> ws_server" where
  "consensus_listener C to_json dag s ev =
     (case ws_of_event C dag ev of None \<Rightarrow> s | Some e \<Rightarrow> ws_broadcast to_json s e)"

inductive ws_reaches :: "('f ws_event \<Rightarrow> string + string) \<Rightarrow> nat \<Rightarrow> ws_server \<Rightarrow> bool" for to_json cap where
  ws_init: "ws_reaches to_json cap (ws_start cap)"
| ws_connects: "ws_reaches to_json cap s \<Longrightarrow> ws_reaches to_json cap (ws_subscribe s)"
| ws_sends: "ws_reaches to_json cap s \<Longrightarrow> ws_reaches to_json cap (ws_broadcast to_json s ev)"
| ws_pumps: "ws_reaches to_json cap s \<Longrightarrow> ws_reaches to_json cap (ws_pump i sent s)"

text \<open>The router of the RPC server.\<close>

datatype rpc_endpoint = JsonRpc | WebSocketUpgrade | RpcNoRoute | RpcNoMethod

definition rpc_router :: "http_method \<Rightarrow> string \<Rightarrow> rpc_endpoint" where
  "rpc_router http path =
     (if path = ''/'' then (if http = POST then JsonRpc else RpcNoMethod)
      else if path = ''/ws'' then (if http = GET then WebSocketUpgrade else RpcNoMethod)
      else RpcNoRoute)"

section \<open>Starting the servers\<close>

definition start_explorer :: "relyo_node \<Rightarrow> explorer_server option" where
  "start_explorer n =
     (if \<not> nd_explorer_enabled (rn_config n) then None
      else Some (explorer_server_new \<lparr>bind_addr = nd_explorer_bind (rn_config n)\<rparr> (node_dag n)))"

text \<open>Whether the listener task of the new server got the consensus events.\<close>

definition start_rpc :: "nat \<Rightarrow> relyo_node \<Rightarrow> (socket_addr \<times> ws_server \<times> bool) option \<times> relyo_node" where
  "start_rpc cap n =
     (if \<not> nd_rpc_enabled (rn_config n) then (None, n)
      else let (rx, engine) = take_event_receiver (rn_consensus n)
           in (Some (nd_rpc_bind (rn_config n), ws_start cap, rx \<noteq> None), n\<lparr>rn_consensus := engine\<rparr>))"

section \<open>Properties\<close>

text \<open>
  The documentation of the router of axum 0.7 (matchit 0.7): a segment that starts with a colon or a
  star captures, everything else in a route stands for itself.
\<close>

definition matchit_ok :: "route_match \<Rightarrow> bool" where
  "matchit_ok M \<longleftrightarrow> (\<forall>route path. CHR '':'' \<notin> set route \<and> CHR ''*'' \<notin> set route \<longrightarrow>
     M route path = (if path = route then Some [] else None))"

text \<open>C31: The lookups of the explorer cannot be reached: its router serves health, token, statistics,
  picture and tips at their paths and answers every real transaction or address path with the
  router's own \<open>not found\<close>; no request at all gets a reply from the transaction or the address
  handler, because the braces in these two routes are plain characters for this router.\<close>

theorem explorer_lookups_unreachable:
  fixes F :: "'f float_ops"
  assumes "matchit_ok M"
  shows "explorer_router M C F server http path \<noteq> TransactionReply r \<and>
    explorer_router M C F server http path \<noteq> AddressReply q \<and>
    (path \<noteq> ''/api/transaction/{hash}'' \<and> path \<noteq> ''/api/address/{address}'' \<longrightarrow>
      explorer_router M C F server http path =
        (case map_of explorer_routes path of None \<Rightarrow> NoRoute
         | Some e \<Rightarrow> if http = GET then serve C F (es_dag server) e [] else NoMethod))"
proof -
  have route: "find_route M routes path = map_option (\<lambda>e. (e, [])) (map_of routes path)"
    if "\<forall>(route, e) \<in> set routes. CHR '':'' \<notin> set route \<and> CHR ''*'' \<notin> set route" for routes
    using that assms by (induction routes) (auto simp: matchit_ok_def)
  have "find_route M explorer_routes path = map_option (\<lambda>e. (e, [])) (map_of explorer_routes path)"
    by (rule route) (simp add: explorer_routes_def)
  then have "explorer_router M C F server http path =
      (case map_of explorer_routes path of None \<Rightarrow> NoRoute
       | Some e \<Rightarrow> if http = GET then serve C F (es_dag server) e [] else NoMethod)"
    by (simp add: explorer_router_def split: option.split)
  moreover have "serve C F (es_dag server) e [] \<noteq> TransactionReply r" "serve C F (es_dag server) e [] \<noteq> AddressReply q" for e
    by (cases e; simp add: health_def with_path_def case_prod_beta)+
  ultimately show ?thesis by (simp split: option.split)
qed

text \<open>What a client has received are the messages between its first and its next position.\<close>

definition in_order :: "string list \<Rightarrow> ws_client \<Rightarrow> bool" where
  "in_order log c \<longleftrightarrow> (\<exists>start. start + length (wc_received c) = wc_next c \<and> wc_next c \<le> length log \<and>
     wc_received c = take (length (wc_received c)) (drop start log))"

lemma in_order_append: "in_order log c \<Longrightarrow> in_order (log @ msgs) c"
  by (force simp: in_order_def)

lemma in_order_forward:
  assumes "in_order log c" shows "in_order log (ws_forward cap log sent c)"
proof -
  from assms obtain start where c: "start + length (wc_received c) = wc_next c" "wc_next c \<le> length log"
    "wc_received c = take (length (wc_received c)) (drop start log)" by (auto simp: in_order_def)
  have "wc_received c @ [log ! wc_next c] = take (length (wc_received c) + 1) (drop start log)"
    if "wc_next c < length log"
    using c that by (simp add: take_Suc_conv_app_nth nth_drop)
  with c show ?thesis by (auto simp: ws_forward_def in_order_def intro!: exI [of _ start])
qed

lemma ws_reaches_in_order:
  "ws_reaches to_json cap s \<Longrightarrow> c \<in> set (ws_clients s) \<Longrightarrow> in_order (ws_log s) c"
proof (induction arbitrary: c rule: ws_reaches.induct)
  case ws_init
  then show ?case by (simp add: ws_start_def)
next
  case (ws_connects s)
  then show ?case by (auto simp: ws_subscribe_def in_order_def)
next
  case (ws_sends s ev)
  then show ?case by (auto simp: ws_broadcast_def intro: in_order_append split: sum.splits)
next
  case (ws_pumps s i sent)
  then show ?case
    by (auto simp: ws_pump_def in_set_conv_nth nth_list_update intro!: in_order_forward split: if_splits)
qed

text \<open>Every WebSocket client gets the events in the order in which they were sent, without gaps and
  without repetitions, from the moment it connected; and a client gets the next one as long as it
  is not more than the capacity of the channel behind: one that is gets nothing ever again.\<close>

theorem websocket_in_order:
  assumes "ws_reaches to_json cap s" "i < length (ws_clients s)" "ws_clients s ! i = c"
  shows "in_order (ws_log s) c \<and>
    (wc_open c \<and> wc_next c < length (ws_log s) \<longrightarrow>
      (let c' = ws_clients (ws_pump i True s) ! i in
       if length (ws_log s) - wc_next c \<le> ws_capacity s
       then wc_received c' = wc_received c @ [ws_log s ! wc_next c] \<and> wc_open c'
       else wc_received c' = wc_received c \<and> \<not> wc_open c'))"
  using ws_reaches_in_order [OF assms(1)] assms(2,3)
  by (auto simp: ws_pump_def ws_forward_def Let_def)

section \<open>Witnesses\<close>

definition plain_match :: route_match where
  "plain_match route path = (if path = route then Some [] else None)"

theorem explorer_lookups_unreachable_witness:
  "explorer_router plain_match demo_crypto fixed_point
     (explorer_server_new default_explorer_config demo_graph) GET
     (''/api/transaction/'' @ to_hex demo_crypto (tx_hash demo_crypto demo_genesis_tx))
   \<noteq> TransactionReply (Inl (NOT_FOUND, ''transaction not found''))"
proof -
  have "matchit_ok plain_match" by (simp add: matchit_ok_def plain_match_def)
  from explorer_lookups_unreachable [OF this] show ?thesis by blast
qed

definition demo_ws :: ws_server where
  "demo_ws = ws_broadcast (\<lambda>_. Inr ''e'') (ws_subscribe (ws_start 128))
     (stats_event fixed_point demo_node)"

theorem websocket_in_order_witness:
  "wc_received (ws_clients (ws_pump 0 True demo_ws) ! 0) = [''e'']"
proof -
  have "ws_reaches (\<lambda>_ :: int ws_event. Inr ''e'') 128 demo_ws"
    unfolding demo_ws_def by (intro ws_reaches.intros)
  from websocket_in_order [OF this, of 0] show ?thesis
    by (simp add: demo_ws_def ws_start_def ws_subscribe_def ws_broadcast_def Let_def)
qed

end
