(* ===== verification/SwarmNet.thy ===== *)
theory SwarmNet
  imports NetConfig Peers
begin

text \<open>
  \<open>relyo-network/src/swarm.rs\<close>, \<open>behaviour.rs\<close>: the identity of a node, the construction of its swarm,
  topics and publication. \<open>libp2p\<close> is an argument: keys (\<open>'k\<close>), swarms (\<open>'g\<close>) and multiaddresses
  (\<open>'a\<close>) are type variables with the operations that the code calls; so is the file system.
\<close>

section \<open>What the code uses of libp2p and of the file system\<close>

record swarm_settings =
  ss_heartbeat_ms :: u64
  ss_strict :: bool
  ss_max_transmit :: nat
  ss_identify_protocol :: string
  ss_idle_timeout_secs :: nat

record ('k, 'g, 'a) net_lib =
  key_of_protobuf :: "bytes \<Rightarrow> string + 'k"
  key_to_protobuf :: "'k \<Rightarrow> string + bytes"
  gossip_config :: "swarm_settings \<Rightarrow> string + unit"
  gossip_new :: "'k \<Rightarrow> swarm_settings \<Rightarrow> string + unit"
  swarm_with :: "'k \<Rightarrow> swarm_settings \<Rightarrow> string + 'g"
  parse_multiaddr :: "string \<Rightarrow> string + 'a"
  swarm_listen :: "'g \<Rightarrow> 'a \<Rightarrow> string + 'g"
  swarm_dial :: "'g \<Rightarrow> 'a \<Rightarrow> string + 'g"
  swarm_subscribe :: "'g \<Rightarrow> string \<Rightarrow> string + 'g"
  swarm_publish :: "'g \<Rightarrow> string \<Rightarrow> bytes \<Rightarrow> string + 'g"

record 'w disk =
  dk_exists :: "'w \<Rightarrow> string \<Rightarrow> bool"
  dk_read :: "'w \<Rightarrow> string \<Rightarrow> string + bytes"
  dk_write :: "'w \<Rightarrow> string \<Rightarrow> bytes \<Rightarrow> string + 'w"
  dk_create_parents :: "'w \<Rightarrow> string \<Rightarrow> 'w"

definition bind_sum :: "'e + 'x \<Rightarrow> ('x \<Rightarrow> 'e + 'y) \<Rightarrow> 'e + 'y" where
  "bind_sum r f = (case r of Inl e \<Rightarrow> Inl e | Inr v \<Rightarrow> f v)"

lemma bind_sum_Inr: "bind_sum r f = Inr v \<longleftrightarrow> (\<exists>x. r = Inr x \<and> f x = Inr v)"
  by (cases r) (auto simp: bind_sum_def)

lemma bind_sum_simps [simp]: "bind_sum (Inl e) f = Inl e" "bind_sum (Inr x) f = f x"
  by (simp_all add: bind_sum_def)

lemma map_sum_Inr: "map_sum f id r = Inr v \<longleftrightarrow> r = Inr v"
  by (cases r) simp_all

section \<open>The swarm\<close>

definition TOPIC_TRANSACTIONS :: string where "TOPIC_TRANSACTIONS = ''relyo/txs/1.0''"
definition TOPIC_VOTES :: string where "TOPIC_VOTES = ''relyo/votes/1.0''"
definition TOPIC_HEARTBEAT :: string where "TOPIC_HEARTBEAT = ''relyo/heartbeat/1.0''"

record 'p relyo_swarm =
  rw_peer_manager :: "'p peer_manager"
  rw_config :: network_config

definition swarm_new :: "network_config \<Rightarrow> 'p relyo_swarm" where
  "swarm_new config = \<lparr>rw_peer_manager = manager_new (nc_max_peers config), rw_config = config\<rparr>"

text \<open>The key of the node: read when the file exists, otherwise the fresh key, written to the file.\<close>

definition local_key ::
    "('k, 'g, 'a) net_lib \<Rightarrow> 'w disk \<Rightarrow> 'k \<Rightarrow> string \<Rightarrow> 'w \<Rightarrow> string + ('k \<times> 'w)" where
  "local_key L D fresh path w =
     (if dk_exists D w path
      then bind_sum (dk_read D w path) (\<lambda>data. bind_sum (key_of_protobuf L data) (\<lambda>key. Inr (key, w)))
      else let w1 = dk_create_parents D w path
           in bind_sum (key_to_protobuf L fresh) (\<lambda>data.
              bind_sum (dk_write D w1 path data) (\<lambda>w2. Inr (fresh, w2))))"

definition settings_of :: "network_config \<Rightarrow> swarm_settings" where
  "settings_of config =
     \<lparr>ss_heartbeat_ms = gossip_heartbeat_ms config, ss_strict = True, ss_max_transmit = 1024 * 1024,
      ss_identify_protocol = ''/relyo/1.0.0'', ss_idle_timeout_secs = 60\<rparr>"

definition build_swarm ::
    "('k, 'g, 'a) net_lib \<Rightarrow> 'w disk \<Rightarrow> 'k \<Rightarrow> 'p relyo_swarm \<Rightarrow> 'w \<Rightarrow> string + ('g \<times> 'w)" where
  "build_swarm L D fresh s w =
     (let settings = settings_of (rw_config s) in
      bind_sum (local_key L D fresh (identity_path (rw_config s)) w) (\<lambda>(key, w).
      bind_sum (map_sum (\<lambda>e. ''Gossipsub config error: '' @ e) id (gossip_config L settings)) (\<lambda>_.
      bind_sum (map_sum (\<lambda>e. ''Gossipsub build error: '' @ e) id (gossip_new L key settings)) (\<lambda>_.
      bind_sum (swarm_with L key settings) (\<lambda>g. Inr (g, w))))))"

fun subscribe_all :: "('k, 'g, 'a) net_lib \<Rightarrow> 'g \<Rightarrow> string list \<Rightarrow> string + 'g" where
  "subscribe_all L g [] = Inr g"
| "subscribe_all L g (t # ts) = bind_sum (swarm_subscribe L g t) (\<lambda>g. subscribe_all L g ts)"

definition subscribe_topics :: "('k, 'g, 'a) net_lib \<Rightarrow> 'g \<Rightarrow> string + 'g" where
  "subscribe_topics L g = subscribe_all L g [TOPIC_TRANSACTIONS, TOPIC_VOTES, TOPIC_HEARTBEAT]"

definition publish_message ::
    "('k, 'g, 'a) net_lib \<Rightarrow> wire \<Rightarrow> 'g \<Rightarrow> string \<Rightarrow> network_message \<Rightarrow> string + 'g" where
  "publish_message L W g topic msg =
     bind_sum (message_to_bytes W msg) (\<lambda>data. swarm_publish L g topic data)"

definition publish_vote :: "('k, 'g, 'a) net_lib \<Rightarrow> 'g \<Rightarrow> bytes \<Rightarrow> string + 'g" where
  "publish_vote L g data = swarm_publish L g TOPIC_VOTES data"

definition publish_transaction :: "('k, 'g, 'a) net_lib \<Rightarrow> 'g \<Rightarrow> bytes \<Rightarrow> string + 'g" where
  "publish_transaction L g data = swarm_publish L g TOPIC_TRANSACTIONS data"

section \<open>Laws\<close>

text \<open>
  The documented behaviour of keys and files: a key is read back from its encoding, and a written
  file exists with what was written.
\<close>

definition disk_ok :: "'w disk \<Rightarrow> bool" where
  "disk_ok D \<longleftrightarrow>
     (\<forall>w p b w'. dk_write D w p b = Inr w' \<longrightarrow> dk_exists D w' p \<and> dk_read D w' p = Inr b)"

definition net_ok :: "('k, 'g, 'a) net_lib \<Rightarrow> 'w disk \<Rightarrow> bool" where
  "net_ok L D \<longleftrightarrow>
     (\<forall>k b. key_to_protobuf L k = Inr b \<longrightarrow> key_of_protobuf L b = Inr k) \<and> disk_ok D"

text \<open>\<open>subscribed\<close> reads the subscriptions of a swarm.\<close>

definition topics_ok :: "('k, 'g, 'a) net_lib \<Rightarrow> ('g \<Rightarrow> string set) \<Rightarrow> bool" where
  "topics_ok L subscribed \<longleftrightarrow>
     (\<forall>g t g'. swarm_subscribe L g t = Inr g' \<longrightarrow> subscribed g' = insert t (subscribed g))"

lemma local_key_again:
  assumes "net_ok L D" "local_key L D fresh path w = Inr (key, w')"
  shows "local_key L D fresh' path w' = Inr (key, w')"
  using assms by (auto simp: local_key_def net_ok_def disk_ok_def Let_def bind_sum_Inr split: if_splits)

lemma subscribe_all_topics:
  "topics_ok L subscribed \<Longrightarrow> subscribe_all L g ts = Inr g' \<Longrightarrow> subscribed g' = set ts \<union> subscribed g"
  by (induction ts arbitrary: g) (auto simp: bind_sum_Inr topics_ok_def)

section \<open>Properties\<close>

text \<open>A node keeps its identity: whatever the first start did, read the key or made and wrote one,
  every later start on the resulting files builds the swarm with the same key, whatever fresh key is
  at hand, and changes no file.\<close>

theorem identity_survives_restart:
  assumes "net_ok L D" "build_swarm L D fresh s w = Inr (g, w')" "rw_config s' = rw_config s"
  shows "\<exists>key. local_key L D fresh' (identity_path (rw_config s)) w' = Inr (key, w') \<and>
    swarm_with L key (settings_of (rw_config s)) = Inr g \<and> build_swarm L D fresh' s' w' = Inr (g, w')"
proof -
  obtain key where k: "local_key L D fresh (identity_path (rw_config s)) w = Inr (key, w')"
    and rest: "gossip_config L (settings_of (rw_config s)) = Inr ()"
      "gossip_new L key (settings_of (rw_config s)) = Inr ()" "swarm_with L key (settings_of (rw_config s)) = Inr g"
    using assms(2) by (auto simp: build_swarm_def Let_def bind_sum_Inr map_sum_Inr)
  from local_key_again [OF assms(1) k, of fresh'] rest show ?thesis
    by (simp add: build_swarm_def Let_def assms(3))
qed

text \<open>After \<open>subscribe_topics\<close> succeeds the swarm is subscribed to the transaction, the vote and the
  heartbeat topic and to nothing else that it was not subscribed to before.\<close>

theorem topics_subscribed:
  assumes "topics_ok L subscribed" "subscribe_topics L g = Inr g'"
  shows "subscribed g' = {TOPIC_TRANSACTIONS, TOPIC_VOTES, TOPIC_HEARTBEAT} \<union> subscribed g"
  using subscribe_all_topics [OF assms(1) assms(2) [unfolded subscribe_topics_def]] by simp

section \<open>Witnesses\<close>

text \<open>Keys are bytes, a swarm is its log of calls, a disk is the content of one file.\<close>

definition demo_net :: "(bytes, string list, string) net_lib" where
  "demo_net =
     \<lparr>key_of_protobuf = Inr, key_to_protobuf = Inr, gossip_config = (\<lambda>_. Inr ()), gossip_new = (\<lambda>_ _. Inr ()),
      swarm_with = (\<lambda>k _. Inr (replicate (length k) ''key'')), parse_multiaddr = (\<lambda>t. if t = [] then Inl ''empty'' else Inr t),
      swarm_listen = (\<lambda>g a. Inr (g @ [a])), swarm_dial = (\<lambda>g a. Inr (g @ [a])),
      swarm_subscribe = (\<lambda>g t. Inr (g @ [t])), swarm_publish = (\<lambda>g t _. if t \<in> set g then Inr g else Inl t)\<rparr>"

definition demo_disk :: "bytes option disk" where
  "demo_disk =
     \<lparr>dk_exists = (\<lambda>w _. w \<noteq> None), dk_read = (\<lambda>w _. case w of None \<Rightarrow> Inl ''not found'' | Some b \<Rightarrow> Inr b),
      dk_write = (\<lambda>_ _ b. Inr (Some b)), dk_create_parents = (\<lambda>w _. w)\<rparr>"

lemma demo_net_ok: "net_ok demo_net demo_disk" "topics_ok demo_net set"
  by (simp_all add: net_ok_def disk_ok_def topics_ok_def demo_net_def demo_disk_def)

definition demo_swarm :: "nat relyo_swarm" where
  "demo_swarm = swarm_new default_network_config"

theorem identity_survives_restart_witness:
  "build_swarm demo_net demo_disk [9, 9] demo_swarm (Some [0x41]) = Inr ([''key''], Some [0x41])"
proof -
  have "build_swarm demo_net demo_disk [0x41] demo_swarm None = Inr ([''key''], Some [0x41])"
    by (simp add: build_swarm_def local_key_def demo_net_def demo_disk_def Let_def)
  from identity_survives_restart [OF demo_net_ok(1) this refl, of "[9, 9]"] show ?thesis by blast
qed

theorem topics_subscribed_witness:
  "set [TOPIC_TRANSACTIONS, TOPIC_VOTES, TOPIC_HEARTBEAT] = {TOPIC_TRANSACTIONS, TOPIC_VOTES, TOPIC_HEARTBEAT} \<union> set []"
proof -
  have "subscribe_topics demo_net [] = Inr [TOPIC_TRANSACTIONS, TOPIC_VOTES, TOPIC_HEARTBEAT]"
    by (simp add: subscribe_topics_def demo_net_def)
  from topics_subscribed [OF demo_net_ok(2) this] show ?thesis .
qed

end
