(* ===== verification/Startup.thy ===== *)
theory Startup
  imports EventLoop Persist Servers SwarmNet
begin

text \<open>
  The program \<open>relyo-node\<close> around its event loop (\<open>relyo-node/src/main.rs\<close>): the table of banned peers
  over \<open>redb\<close>, the comparison of the hash of the consensus constants with the one fixed by
  \<open>relyo-core/build.rs\<close>, and the commands \<open>init\<close>, \<open>config\<close>, \<open>status\<close> and \<open>run\<close>, the last one up to
  the state in which the loop of \<open>EventLoop\<close> starts. Printing is the list of printed lines.
\<close>

section \<open>The table of banned peers\<close>

definition bans_open :: "('d, 'w, 'r) redb \<Rightarrow> string \<Rightarrow> string + 'd" where
  "bans_open R path =
     bind_sum (create_db R path) (\<lambda>d.
     bind_sum (begin_write R d) (\<lambda>t.
     bind_sum (open_write R t ''banned_peers'') (\<lambda>t. commit R t)))"

definition bans_put :: "('d, 'w, 'r) redb \<Rightarrow> 'd \<Rightarrow> bytes \<Rightarrow> bytes \<Rightarrow> string + 'd" where
  "bans_put R d key value =
     bind_sum (begin_write R d) (\<lambda>t.
     bind_sum (open_write R t ''banned_peers'') (\<lambda>t.
     bind_sum (insert_cell R t ''banned_peers'' (KBytes key) (VBytes value)) (\<lambda>t. commit R t)))"

definition bans_get :: "('d, 'w, 'r) redb \<Rightarrow> 'd \<Rightarrow> bytes \<Rightarrow> string + bytes option" where
  "bans_get R d key =
     bind_sum (begin_read R d) (\<lambda>r.
     bind_sum (open_read R r ''banned_peers'') (\<lambda>_.
     bind_sum (read_cell R r ''banned_peers'' (KBytes key)) (\<lambda>v. Inr (map_option cell_bytes v))))"

text \<open>The database that the event loop uses: peers are filed under their bytes.\<close>

definition ban_table :: "('d, 'w, 'r) redb \<Rightarrow> ('p \<Rightarrow> bytes) \<Rightarrow> ('d, 'p) ban_db" where
  "ban_table R peer_bytes =
     \<lparr>db_get = (\<lambda>d p. bans_get R d (peer_bytes p)), db_put = (\<lambda>d p v. bans_put R d (peer_bytes p) v)\<rparr>"

section \<open>The hash of the consensus constants\<close>

fun normalize_newlines :: "string \<Rightarrow> string" where
  "normalize_newlines [] = []"
| "normalize_newlines (c # cs) =
     (if c = CHR 0x0D \<and> cs \<noteq> [] \<and> hd cs = CHR 0x0A then CHR 0x0A # normalize_newlines (tl cs)
      else c # normalize_newlines cs)"

text \<open>\<open>build.rs\<close>: the value of \<open>CONSENSUS_HASH\<close> for a content of \<open>constants.rs\<close>; \<open>hash_hex\<close> is the hexadecimal
  BLAKE3 hash.\<close>

definition build_consensus_hash :: "(bytes \<Rightarrow> string) \<Rightarrow> string \<Rightarrow> string" where
  "build_consensus_hash hash_hex content = hash_hex (string_bytes (normalize_newlines content))"

text \<open>The start of \<open>main\<close>, \<open>None\<close> when it panics: \<open>included\<close> is the file as \<open>include_str!\<close> took it.\<close>

definition check_rules :: "(bytes \<Rightarrow> string) \<Rightarrow> string \<Rightarrow> string \<Rightarrow> unit option" where
  "check_rules hash_hex included consensus_hash =
     (if hash_hex (string_bytes (normalize_newlines included)) \<noteq> consensus_hash then None else Some ())"

text \<open>\<open>relyo-node/build.rs\<close>: the text whose hash it writes to a file that no module includes.\<close>

definition build_payload :: string where
  "build_payload =
     ''decimals:'' @ show_word RLY_DECIMALS @ '' unit:'' @ show_word RLY_UNIT @ '' supply:'' @ show_word TOTAL_SUPPLY
     @ '' dust:'' @ show_word DUST_THRESHOLD @ '' coinbase:'' @ show_word COINBASE_MATURITY
     @ '' min_parents:'' @ show_nat MIN_DAG_PARENTS @ '' max_memo:'' @ show_nat MAX_MEMO_BYTES
     @ '' epoch:'' @ show_word EPOCH_DEPTH @ '' decay:'' @ show_word DECAY_FACTOR_BPS
     @ '' years:'' @ show_word EMISSION_YEARS @ '' version:'' @ show_word PROTOCOL_VERSION
     @ '' max_tx:'' @ show_nat MAX_TX_SIZE"

section \<open>Commands\<close>

datatype node_command = Run bool | Init string | Status | Config

text \<open>An error that \<open>main\<close> returns, or \<open>process::exit\<close>.\<close>

datatype failure = Bail string | ExitCode nat

definition or_bail :: "string + 'x \<Rightarrow> failure + 'x" where
  "or_bail r = map_sum Bail id r"

text \<open>TOML, the creation of a directory with its parents, and how paths are printed.\<close>

record 'w cli_env =
  to_toml :: "node_config \<Rightarrow> string + string"
  from_toml :: "string \<Rightarrow> string + node_config"
  mkdir_all :: "'w \<Rightarrow> string \<Rightarrow> string + 'w"
  show_path :: "string \<Rightarrow> string"

definition load_file :: "'w disk \<Rightarrow> 'w cli_env \<Rightarrow> 'w \<Rightarrow> string \<Rightarrow> string + node_config" where
  "load_file D H w path =
     load_config (from_toml H)
       (if dk_exists D w path then Some (map_sum id (map byte_char) (dk_read D w path)) else None)"

definition save_file :: "'w disk \<Rightarrow> 'w cli_env \<Rightarrow> 'w \<Rightarrow> node_config \<Rightarrow> string \<Rightarrow> string + 'w" where
  "save_file D H w config path =
     bind_sum (save_config (to_toml H) config) (\<lambda>content. dk_write D w path (string_bytes content))"

definition node_init :: "'w disk \<Rightarrow> 'w cli_env \<Rightarrow> string \<Rightarrow> string \<Rightarrow> 'w \<Rightarrow> failure + (string list \<times> 'w)" where
  "node_init D H path name w =
     (let config = default_node_config\<lparr>nd_node_name := name\<rparr> in
      bind_sum (or_bail (mkdir_all H w (nd_data_dir config))) (\<lambda>w.
      bind_sum (or_bail (save_file D H w config path)) (\<lambda>w.
      Inr ([''Node initialized. Configuration written to '' @ show_path H path,
            ''Data directory: '' @ show_path H (nd_data_dir config), [],
            ''Start the node with: relyo-node run''], w))))"

definition node_config_text :: "'w cli_env \<Rightarrow> failure + string list" where
  "node_config_text H = bind_sum (or_bail (to_toml H default_node_config)) (\<lambda>toml. Inr [toml])"

definition show_socket :: "socket_addr \<Rightarrow> string" where
  "show_socket s = (case s of ((a, b, c, d), port) \<Rightarrow>
     show_word a @ ''.'' @ show_word b @ ''.'' @ show_word c @ ''.'' @ show_word d @ '':'' @ show_word port)"

definition enabled_text :: "bool \<Rightarrow> string" where
  "enabled_text on = (if on then ''enabled'' else ''disabled'')"

definition node_status :: "'w disk \<Rightarrow> 'w cli_env \<Rightarrow> string \<Rightarrow> 'w \<Rightarrow> failure + string list" where
  "node_status D H path w =
     bind_sum (or_bail (load_file D H w path)) (\<lambda>config.
     Inr [''Node: '' @ nd_node_name config, ''Data dir: '' @ show_path H (nd_data_dir config),
          ''Network TCP: '' @ show_word (tcp_port (nd_network config)),
          ''Network QUIC: '' @ show_word (quic_port (nd_network config)),
          ''Explorer: '' @ show_socket (nd_explorer_bind config) @ '' ('' @ enabled_text (nd_explorer_enabled config) @ '')'',
          ''RPC:      '' @ show_socket (nd_rpc_bind config) @ '' ('' @ enabled_text (nd_rpc_enabled config) @ '')''])"

text \<open>Bootstrap addresses that do not parse are skipped; a dial that fails ends the start.\<close>

fun dial_bootstrap :: "('k, 'g, 'a) net_lib \<Rightarrow> 'g \<Rightarrow> string list \<Rightarrow> string + 'g" where
  "dial_bootstrap L g [] = Inr g"
| "dial_bootstrap L g (peer # peers) =
     (case parse_multiaddr L peer of
        Inl _ \<Rightarrow> dial_bootstrap L g peers
      | Inr addr \<Rightarrow> bind_sum (swarm_dial L g addr) (\<lambda>g. dial_bootstrap L g peers))"

text \<open>The swarm of the node: built, listening on both addresses, subscribed, dialing.\<close>

definition start_swarm ::
    "('k, 'g, 'a) net_lib \<Rightarrow> 'w disk \<Rightarrow> 'k \<Rightarrow> network_config \<Rightarrow> 'w \<Rightarrow> string + ('g \<times> 'w)" where
  "start_swarm L D fresh net w =
     bind_sum (build_swarm L D fresh (swarm_new net :: nat relyo_swarm) w) (\<lambda>(g, w).
     bind_sum (parse_multiaddr L (tcp_multiaddr net)) (\<lambda>tcp.
     bind_sum (parse_multiaddr L (quic_multiaddr net)) (\<lambda>quic.
     bind_sum (swarm_listen L g tcp) (\<lambda>g.
     bind_sum (swarm_listen L g quic) (\<lambda>g.
     bind_sum (subscribe_topics L g) (\<lambda>g.
     bind_sum (dial_bootstrap L g (bootstrap_peers net)) (\<lambda>g. Inr (g, w))))))))"

record ('d, 'p, 'g, 'w) running =
  ru_loop :: "('d, 'p) loop_state"
  ru_swarm :: 'g
  ru_disk :: 'w
  ru_explorer :: "explorer_server option"
  ru_rpc :: "(socket_addr \<times> ws_server \<times> bool) option"

text \<open>\<open>PathBuf::join\<close> with a plain file name.\<close>

definition join_path :: "string \<Rightarrow> string \<Rightarrow> string" where
  "join_path dir file =
     (if dir = [] then file else if last dir = CHR ''/'' then dir @ file else dir @ ''/'' @ file)"

definition node_start ::
    "crypto \<Rightarrow> ('k, 'g, 'a) net_lib \<Rightarrow> 'w disk \<Rightarrow> 'w cli_env \<Rightarrow> ('d, 't, 'r) redb \<Rightarrow> clock \<Rightarrow> nat \<Rightarrow> 'k \<Rightarrow>
       bool \<Rightarrow> string \<Rightarrow> 'w \<Rightarrow> failure + ('d, 'p, 'g, 'w) running" where
  "node_start C L D H R ck cap fresh testnet path w =
     (if \<not> testnet
      then Inl (Bail ''Mainnet is not yet released. Please run the node safely with the `--testnet` flag. `relyo-node run --testnet`'')
      else bind_sum (or_bail (load_file D H w path)) (\<lambda>config.
      case bans_open R (join_path (nd_data_dir config) ''banned_peers'') of
        Inl _ \<Rightarrow> Inl (ExitCode 1)
      | Inr bans \<Rightarrow>
          let n = init_genesis C ck (node_new (ck_ms ck) config);
              explorer = start_explorer n;
              (rpc, n') = start_rpc cap n
          in bind_sum (or_bail (start_swarm L D fresh (nd_network config) w)) (\<lambda>(g, w).
             Inr \<lparr>ru_loop = \<lparr>ls_node = n', ls_banned = bans, ls_actions = []\<rparr>, ru_swarm = g, ru_disk = w,
                  ru_explorer = explorer, ru_rpc = rpc\<rparr>)))"

definition node_main ::
    "crypto \<Rightarrow> ('k, 'g, 'a) net_lib \<Rightarrow> 'w disk \<Rightarrow> 'w cli_env \<Rightarrow> ('d, 't, 'r) redb \<Rightarrow> clock \<Rightarrow> nat \<Rightarrow> 'k \<Rightarrow>
       node_command \<Rightarrow> string \<Rightarrow> 'w \<Rightarrow> failure + (string list \<times> 'w \<times> ('d, 'p, 'g, 'w) running option)" where
  "node_main C L D H R ck cap fresh cmd path w =
     (case cmd of
        Init name \<Rightarrow> bind_sum (node_init D H path name w) (\<lambda>(out, w). Inr (out, w, None))
      | Config \<Rightarrow> bind_sum (node_config_text H) (\<lambda>out. Inr (out, w, None))
      | Status \<Rightarrow> bind_sum (node_status D H path w) (\<lambda>out. Inr (out, w, None))
      | Run testnet \<Rightarrow> bind_sum (node_start C L D H R ck cap fresh testnet path w)
          (\<lambda>r. Inr ([], ru_disk r, Some r)))"

section \<open>Facts\<close>

lemma bans_put_cells:
  assumes "redb_ok R cont wcont" "bans_put R d k v = Inr d'"
  shows "cont d' = (cont d)(''banned_peers'' := (cont d ''banned_peers'')(KBytes k \<mapsto> VBytes v))"
proof -
  obtain t t' t'' where w: "begin_write R d = Inr t" "open_write R t ''banned_peers'' = Inr t'"
    "insert_cell R t' ''banned_peers'' (KBytes k) (VBytes v) = Inr t''" "commit R t'' = Inr d'"
    using assms(2) by (auto simp: bans_put_def bind_sum_Inr)
  have "wcont t = cont d" "wcont t' = wcont t" "cont d' = wcont t''"
    "wcont t'' = (wcont t')(''banned_peers'' := (wcont t' ''banned_peers'')(KBytes k \<mapsto> VBytes v))"
    using assms(1) w unfolding redb_ok_def by blast+
  then show ?thesis by simp
qed

text \<open>An engine on which reading does not fail.\<close>

definition reads_succeed :: "('d, 'w, 'r) redb \<Rightarrow> bool" where
  "reads_succeed R \<longleftrightarrow> (\<forall>d t k. \<exists>r v. begin_read R d = Inr r \<and> open_read R r t = Inr () \<and> read_cell R r t k = Inr v)"

lemma bans_get_cells:
  assumes "redb_ok R cont wcont" "reads_succeed R"
  shows "bans_get R d k = Inr (map_option cell_bytes (cont d ''banned_peers'' (KBytes k)))"
proof -
  obtain r v where r: "begin_read R d = Inr r" "open_read R r ''banned_peers'' = Inr ()"
    "read_cell R r ''banned_peers'' (KBytes k) = Inr v" using assms(2) unfolding reads_succeed_def by blast
  then have "v = cont d ''banned_peers'' (KBytes k)" using assms(1) unfolding redb_ok_def by blast
  with r show ?thesis by (simp add: bans_get_def)
qed

definition banned :: "('d \<Rightarrow> string \<Rightarrow> db_key \<Rightarrow> db_value option) \<Rightarrow> ('p \<Rightarrow> bytes) \<Rightarrow> 'd \<Rightarrow> 'p \<Rightarrow> bool" where
  "banned cont peer_bytes d p \<longleftrightarrow> cont d ''banned_peers'' (KBytes (peer_bytes p)) \<noteq> None"

lemma banned_step:
  assumes "redb_ok R cont wcont" "banned cont peer_bytes (ls_banned s) p"
  shows "banned cont peer_bytes (ls_banned (loop_step C W (ban_table R peer_bytes) ck s ev)) p"
  using loop_step_bans [of C W "ban_table R peer_bytes" ck s ev] assms(2)
  by (auto simp: ban_table_def banned_def dest: bans_put_cells [OF assms(1)])

lemma banned_reach:
  "loop_reaches C W (ban_table R peer_bytes) s s' \<Longrightarrow> redb_ok R cont wcont \<Longrightarrow>
     banned cont peer_bytes (ls_banned s) p \<Longrightarrow> banned cont peer_bytes (ls_banned s') p"
  by (induction rule: loop_reaches.induct) (simp_all add: banned_step)

lemma normalize_unix [simp]: "CHR 0x0D \<notin> set s \<Longrightarrow> normalize_newlines s = s"
  by (induction s) auto

definition to_crlf :: "string \<Rightarrow> string" where
  "to_crlf s = concat (map (\<lambda>c. if c = CHR 0x0A then [CHR 0x0D, CHR 0x0A] else [c]) s)"

lemma normalize_crlf: "CHR 0x0D \<notin> set s \<Longrightarrow> normalize_newlines (to_crlf s) = s"
  by (induction s) (auto simp: to_crlf_def)

lemma idle_take [simp]:
  "idle C (n\<lparr>rn_consensus := snd (take_event_receiver (rn_consensus n))\<rparr>) = idle C n"
  by (simp add: idle_def take_event_receiver_def lone_def node_dag_def)

definition toml_ok :: "'w cli_env \<Rightarrow> bool" where
  "toml_ok H \<longleftrightarrow> (\<forall>c t. to_toml H c = Inr t \<longrightarrow> from_toml H t = Inr c)"

lemma or_bail_Inr [simp]: "or_bail r = Inr v \<longleftrightarrow> r = Inr v"
  by (simp add: or_bail_def map_sum_Inr)

lemma saved_file_loads:
  assumes "toml_ok H" "disk_ok D" "save_file D H w config path = Inr w'"
  shows "load_file D H w' path = Inr config"
  using assms
  by (auto simp: save_file_def save_config_def bind_sum_Inr load_file_def load_config_def disk_ok_def toml_ok_def)

lemma node_start_parts:
  assumes "node_start C L D H R ck cap fresh testnet path w = Inr r"
  shows "testnet \<and> (\<exists>config bans g w'. load_file D H w path = Inr config \<and>
    bans_open R (join_path (nd_data_dir config) ''banned_peers'') = Inr bans \<and>
    start_swarm L D fresh (nd_network config) w = Inr (g, w') \<and>
    (let n = init_genesis C ck (node_new (ck_ms ck) config) in
     r = \<lparr>ru_loop = \<lparr>ls_node = snd (start_rpc cap n), ls_banned = bans, ls_actions = []\<rparr>, ru_swarm = g,
          ru_disk = w', ru_explorer = start_explorer n, ru_rpc = fst (start_rpc cap n)\<rparr>))"
proof -
  have testnet using assms by (simp add: node_start_def split: if_splits)
  with assms obtain config where config: "load_file D H w path = Inr config"
    by (auto simp: node_start_def bind_sum_Inr)
  obtain bans where bans: "bans_open R (join_path (nd_data_dir config) ''banned_peers'') = Inr bans"
    using assms config \<open>testnet\<close> by (cases "bans_open R (join_path (nd_data_dir config) ''banned_peers'')")
      (auto simp: node_start_def or_bail_def)
  show ?thesis
    using assms config bans \<open>testnet\<close>
    by (auto simp: node_start_def bind_sum_Inr Let_def case_prod_beta or_bail_def map_sum_Inr)
qed

lemma shown_ports:
  "show_word (9741 :: u16) = ''9741''" "show_word (9740 :: u16) = ''9740''" "show_word (8080 :: u16) = ''8080''"
  "show_word (9090 :: u16) = ''9090''" "show_word (0 :: u8) = ''0''"
  by (simp_all add: show_word_def show_nat.simps digit_def char_of_def bit_0)

lemma start_rpc_node: "snd (start_rpc cap n) = n \<or> snd (start_rpc cap n) = n\<lparr>rn_consensus := snd (take_event_receiver (rn_consensus n))\<rparr>"
  by (simp add: start_rpc_def case_prod_beta)

section \<open>Properties\<close>

text \<open>A ban is for ever: once the table of banned peers holds a peer, no event of the loop takes it
  out, and in every later state a connection of that peer is answered with a disconnection; the
  configured duration of bans plays no part.\<close>

theorem ban_is_permanent:
  fixes C :: crypto and W :: wire and s s' :: "('d, 'p) loop_state" and ck :: clock
  assumes "redb_ok R cont wcont" "reads_succeed R" "banned cont peer_bytes (ls_banned s) p"
    and "loop_reaches C W (ban_table R peer_bytes) s s'"
  shows "ls_actions (loop_step C W (ban_table R peer_bytes) ck s' (Swarm (ConnectionEstablished p)))
    = ls_actions s' @ [DisconnectPeer p]"
proof -
  have "banned cont peer_bytes (ls_banned s') p" by (rule banned_reach [OF assms(4,1,3)])
  then show ?thesis
    by (auto simp: loop_step_def connection_check_def ban_table_def bans_get_cells [OF assms(1,2)] banned_def act_def)
qed

text \<open>The check of the consensus rules at the start compares two builds of the same file: it accepts
  exactly when the constants that the node was compiled with and those that the core library was
  built from are equal up to line endings, so a node compiled from a tree whose constants were
  changed starts like any other.\<close>

theorem rules_check_exact:
  assumes "\<And>a b. a \<in> texts \<Longrightarrow> b \<in> texts \<Longrightarrow> hash_hex (string_bytes a) = hash_hex (string_bytes b) \<Longrightarrow> a = b"
    and "normalize_newlines included \<in> texts" "normalize_newlines source \<in> texts"
  shows "(check_rules hash_hex included (build_consensus_hash hash_hex source) = Some () \<longleftrightarrow>
      normalize_newlines included = normalize_newlines source) \<and>
    (CHR 0x0D \<notin> set source \<longrightarrow>
      check_rules hash_hex (to_crlf source) (build_consensus_hash hash_hex source) = Some () \<and>
      check_rules hash_hex source (build_consensus_hash hash_hex (to_crlf source)) = Some ())"
  using assms by (auto simp: check_rules_def build_consensus_hash_def normalize_crlf)

text \<open>A started node is the node of the event loop: \<open>run\<close> gets there only with \<open>--testnet\<close>, a
  readable configuration, an open table of banned peers and a swarm that listens and is
  subscribed; the loop then starts from the program's genesis with the configured parameters, the
  explorer shows the graph of this node exactly if it is enabled, and no state that the loop
  reaches holds funds.\<close>

theorem started_node_runs:
  fixes C :: crypto and ck :: clock and r :: "('d, 'p, 'g, 'w) running" and s :: "('d, 'p) loop_state"
  assumes start: "node_start C L D H R ck cap fresh testnet path w = Inr r"
    and "load_file D H w path = Inr config" "1 < cc_quorum (nd_consensus config)"
    and "loop_reaches C W B (ru_loop r) s"
  shows "testnet \<and> node_dag (ls_node (ru_loop r)) = node_dag (init_genesis C ck (node_new (ck_ms ck) config)) \<and>
    rn_config (ls_node (ru_loop r)) = config \<and>
    map_option es_dag (ru_explorer r) =
      (if nd_explorer_enabled config then Some (node_dag (ls_node (ru_loop r))) else None) \<and>
    ledger_total (g_state (node_dag (ls_node s))) = 0 \<and> mempool_size (ls_node s) = 0"
proof -
  let ?n = "init_genesis C ck (node_new (ck_ms ck) config)"
  have config: "rn_config ?n = config" by (simp add: init_genesis_def node_new_def Let_def)
  from node_start_parts [OF start] assms(2) have parts: "testnet" "ls_node (ru_loop r) = snd (start_rpc cap ?n)"
    "ru_explorer r = start_explorer ?n" by (auto simp: Let_def)
  have same: "node_dag (snd (start_rpc cap ?n)) = node_dag ?n" "rn_config (snd (start_rpc cap ?n)) = config"
    using start_rpc_node [of cap ?n] config by (auto simp: node_dag_def take_event_receiver_def)
  have "idle C ?n" using assms(3) by (rule idle_start)
  then have "idle C (ls_node (ru_loop r))" using start_rpc_node [of cap ?n] parts(2) by auto
  with idle_node.reach_inv [OF assms(4)] have "idle C (ls_node s)" .
  then show ?thesis
    using parts same config
    by (simp add: start_explorer_def explorer_server_new_def idle_def mempool_size_def)
qed

text \<open>\<open>init\<close> prepares what \<open>status\<close> and \<open>run\<close> read: after a successful \<open>init\<close> the configuration
  loads as the default one under the given name, and \<open>status\<close> succeeds and prints this name, the
  default ports and both servers as enabled.\<close>

theorem init_then_status:
  assumes "toml_ok H" "disk_ok D" "node_init D H path name w = Inr (out, w')"
  shows "load_file D H w' path = Inr (default_node_config\<lparr>nd_node_name := name\<rparr>) \<and>
    node_status D H path w' = Inr
      [''Node: '' @ name, ''Data dir: '' @ show_path H ''data'', ''Network TCP: 9741'', ''Network QUIC: 9740'',
       ''Explorer: 0.0.0.0:8080 (enabled)'', ''RPC:      0.0.0.0:9090 (enabled)'']"
proof -
  obtain w1 where "save_file D H w1 (default_node_config\<lparr>nd_node_name := name\<rparr>) path = Inr w'"
    using assms(3) by (auto simp: node_init_def Let_def bind_sum_Inr)
  from saved_file_loads [OF assms(1,2) this] show ?thesis
    by (simp add: node_status_def or_bail_def default_node_config_def default_network_config_def show_socket_def
        enabled_text_def shown_ports)
qed

section \<open>Witnesses\<close>

lemma demo_reads: "reads_succeed demo_redb"
  by (simp add: reads_succeed_def demo_redb_def)

theorem ban_is_permanent_witness:
  "ls_actions (loop_step demo_crypto demo_wire (ban_table demo_redb (\<lambda>p :: nat. [of_nat p])) demo_clock
     (loop_step demo_crypto demo_wire (ban_table demo_redb (\<lambda>p. [of_nat p])) demo_clock
        \<lparr>ls_node = demo_node, ls_banned = (\<lambda>_ _. None)(''banned_peers'' := [KBytes [3] \<mapsto> VBytes [0x31]]), ls_actions = []\<rparr>
        MempoolTick)
     (Swarm (ConnectionEstablished 3))) = [DisconnectPeer 3]"
proof -
  let ?s = "\<lparr>ls_node = demo_node, ls_banned = (\<lambda>_ _. None)(''banned_peers'' := [KBytes [3] \<mapsto> VBytes [0x31]]), ls_actions = []\<rparr>
    :: (cell_store, nat) loop_state"
  let ?B = "ban_table demo_redb (\<lambda>p :: nat. [of_nat p])"
  let ?s' = "loop_step demo_crypto demo_wire ?B demo_clock ?s MempoolTick"
  have "banned id (\<lambda>p :: nat. [of_nat p]) (ls_banned ?s) 3" by (simp add: banned_def)
  moreover have "loop_reaches demo_crypto demo_wire ?B ?s ?s'" by (intro reach_step reach_here)
  ultimately have "ls_actions (loop_step demo_crypto demo_wire ?B demo_clock ?s' (Swarm (ConnectionEstablished 3)))
      = ls_actions ?s' @ [DisconnectPeer 3]"
    by (rule ban_is_permanent [OF demo_redb_ok demo_reads])
  moreover have "ls_actions ?s' = []" by (simp add: loop_step_def)
  ultimately show ?thesis by simp
qed

theorem rules_check_exact_witness:
  "check_rules (map byte_char) (to_crlf ''pub const A: u64 = 1;'') (build_consensus_hash (map byte_char) ''pub const A: u64 = 1;'') = Some ()"
proof -
  have "CHR 0x0D \<notin> set ''pub const A: u64 = 1;''" by simp
  with rules_check_exact [of UNIV "map byte_char" "to_crlf ''pub const A: u64 = 1;''" "''pub const A: u64 = 1;''"]
  show ?thesis by simp
qed

definition demo_file_config :: node_config where
  "demo_file_config = default_node_config\<lparr>nd_node_name := ''n''\<rparr>"

text \<open>A TOML text for one configuration, and a disk on which every path is the one file.\<close>

definition demo_cli :: "bytes option cli_env" where
  "demo_cli =
     \<lparr>to_toml = (\<lambda>c. if c = demo_file_config then Inr ''t'' else Inl ''no''),
      from_toml = (\<lambda>t. if t = ''t'' then Inr demo_file_config else Inl ''no''),
      mkdir_all = (\<lambda>w _. Inr w), show_path = id\<rparr>"

lemma demo_toml: "toml_ok demo_cli"
  by (simp add: toml_ok_def demo_cli_def)

lemma demo_init: "node_init demo_disk demo_cli ''relyo.toml'' ''n'' None =
    Inr ([''Node initialized. Configuration written to relyo.toml'', ''Data directory: data'', [],
          ''Start the node with: relyo-node run''], Some (string_bytes ''t''))"
  by (simp add: node_init_def save_file_def save_config_def demo_cli_def demo_disk_def demo_file_config_def [symmetric]
      or_bail_def Let_def) (simp add: demo_file_config_def default_node_config_def)

theorem init_then_status_witness:
  "load_file demo_disk demo_cli (Some (string_bytes ''t'')) ''relyo.toml'' = Inr demo_file_config"
proof -
  have "disk_ok demo_disk" using demo_net_ok(1) by (simp add: net_ok_def)
  from init_then_status [OF demo_toml this demo_init] show ?thesis by (simp add: demo_file_config_def)
qed

definition key_disk :: "bytes option disk" where
  "key_disk = demo_disk\<lparr>dk_exists := (\<lambda>_ p. p = ''node_identity.key'')\<rparr>"

lemma demo_swarm_starts:
  "\<exists>g w. start_swarm demo_net key_disk [7] default_network_config (Some [5]) = Inr (g, w)"
  by (simp add: start_swarm_def build_swarm_def local_key_def demo_net_def demo_disk_def key_disk_def Let_def
      tcp_multiaddr_def quic_multiaddr_def subscribe_topics_def default_network_config_def swarm_new_def identity_path_def)

theorem started_node_runs_witness:
  "\<exists>r. node_start demo_crypto demo_net key_disk demo_cli demo_redb demo_clock 128 [7] True ''relyo.toml'' (Some [5])
      = Inr (r :: (cell_store, nat, string list, bytes option) running) \<and>
    ledger_total (g_state (node_dag (ls_node (ru_loop r)))) = 0"
proof -
  have config: "load_file key_disk demo_cli (Some [5]) ''relyo.toml'' = Inr default_node_config"
    by (simp add: load_file_def load_config_def key_disk_def)
  obtain bans where bans: "bans_open demo_redb (join_path (nd_data_dir default_node_config) ''banned_peers'') = Inr bans"
    by (simp add: bans_open_def demo_redb_def)
  have net: "nd_network default_node_config = default_network_config" by (simp add: default_node_config_def)
  obtain r where r: "node_start demo_crypto demo_net key_disk demo_cli demo_redb demo_clock 128 [7] True
      ''relyo.toml'' (Some [5]) = Inr (r :: (cell_store, nat, string list, bytes option) running)"
    using demo_swarm_starts by (auto simp: node_start_def config or_bail_def bans net Let_def case_prod_beta)
  have "1 < cc_quorum (nd_consensus default_node_config)"
    by (simp add: default_node_config_def default_consensus_config_def)
  from started_node_runs [OF r config this reach_here] r show ?thesis by blast
qed

end
