(* ===== verification/Replicas.thy ===== *)
theory Replicas
  imports Node GraphShape
begin

text \<open>
  Replicas that learn of the same transactions in different orders. Every transaction a node takes,
  from gossip, from the RPC server or from its own wallet, goes through \<open>submit_transaction\<close>
  (\<open>node.rs\<close>); \<open>deliver\<close> is the sequence of these calls. The interface
  \<open>commuting_log\<close> states what convergence needs of such a sequence (a call either changes what is
  observed by an update that commutes with the others, or leaves it alone); it is interpreted on the
  balances and on the nonces of a node.
\<close>

section \<open>Sequences of submissions\<close>

fun deliver ::
    "crypto \<Rightarrow> relyo_node \<Rightarrow> (clock \<times> transaction) list \<Rightarrow> transaction list \<times> relyo_node" where
  "deliver C n [] = ([], n)"
| "deliver C n ((ck, tx) # arrivals) =
     (case submit_transaction C ck n tx of
        (Inl _, n') \<Rightarrow> deliver C n' arrivals
      | (Inr _, n') \<Rightarrow> (let (acc, n'') = deliver C n' arrivals in (tx # acc, n'')))"

section \<open>Logs of commuting updates\<close>

fun replay :: "('s \<Rightarrow> 'i \<Rightarrow> 'o option \<times> 's) \<Rightarrow> 's \<Rightarrow> 'i list \<Rightarrow> 'o list \<times> 's" where
  "replay step s [] = ([], s)"
| "replay step s (i # is) =
     (case step s i of
        (None, s') \<Rightarrow> replay step s' is
      | (Some x, s') \<Rightarrow> (let (acc, s'') = replay step s' is in (x # acc, s'')))"

locale commuting_log =
  fixes step :: "'s \<Rightarrow> 'i \<Rightarrow> 'o option \<times> 's"
    and observe :: "'s \<Rightarrow> 'v"
    and upd :: "'o \<Rightarrow> 'v \<Rightarrow> 'v"
  assumes refused: "step s i = (None, s') \<Longrightarrow> observe s' = observe s"
    and taken: "step s i = (Some x, s') \<Longrightarrow> observe s' = upd x (observe s)"
    and commute: "upd x (upd y v) = upd y (upd x v)"
begin

lemma observe_replay: "replay step s is = (acc, s') \<Longrightarrow> observe s' = fold upd acc (observe s)"
proof (induction "is" arbitrary: s acc)
  case (Cons i "is")
  obtain q t where st: "step s i = (q, t)" by fastforce
  show ?case
  proof (cases q)
    case None
    with Cons st refused [of s i t] show ?thesis by simp
  next
    case (Some x)
    then obtain rest where "replay step t is = (rest, s')" "acc = x # rest"
      using Cons.prems st by (auto split: prod.splits)
    with Cons.IH [of t rest] taken [of s i x t] st Some show ?thesis by simp
  qed
qed simp

lemma fold_perm: "mset xs = mset ys \<Longrightarrow> fold upd xs v = fold upd ys v"
  by (rule fold_multiset_equiv [THEN fun_cong]) (simp_all add: commute fun_eq_iff)

lemma converge:
  assumes "replay step s is = (acc, s')" "replay step t js = (acc', t')" "mset acc = mset acc'"
    "observe s = observe t"
  shows "observe s' = observe t'"
  using observe_replay [OF assms(1)] observe_replay [OF assms(2)] fold_perm [OF assms(3)] assms(4) by simp

end

section \<open>The log of a node\<close>

definition submit_step ::
    "crypto \<Rightarrow> relyo_node \<Rightarrow> clock \<times> transaction \<Rightarrow> transaction option \<times> relyo_node" where
  "submit_step C n i = (case submit_transaction C (fst i) n (snd i) of
     (Inl _, n') \<Rightarrow> (None, n') | (Inr _, n') \<Rightarrow> (Some (snd i), n'))"

lemma deliver_replay: "deliver C n arrivals = replay (submit_step C) n arrivals"
  by (induction C n arrivals rule: deliver.induct)
    (auto simp: submit_step_def split: prod.splits sum.splits)

text \<open>Adding an amount to some entries of a map, creating those that are missing.\<close>

definition bump :: "('k \<Rightarrow> u64 option) \<Rightarrow> ('k \<rightharpoonup> u64) \<Rightarrow> ('k \<rightharpoonup> u64)" where
  "bump change m = (\<lambda>a. case change a of
     None \<Rightarrow> m a | Some d \<Rightarrow> Some ((case m a of None \<Rightarrow> 0 | Some v \<Rightarrow> v) + d))"

lemma bump_commute: "bump f (bump g m) = bump g (bump f m)"
  by (auto simp: bump_def fun_eq_iff split: option.splits)

definition balance_change :: "transaction \<Rightarrow> address \<Rightarrow> u64 option" where
  "balance_change tx a =
     (if a = tx_sender tx \<or> a = tx_receiver tx
      then Some ((if a = tx_receiver tx then tx_amount tx else 0)
             - (if a = tx_sender tx then tx_amount tx + tx_fee tx else 0))
      else None)"

definition nonce_change :: "transaction \<Rightarrow> address \<Rightarrow> u64 option" where
  "nonce_change tx a = (if a = tx_sender tx then Some 1 else None)"

lemma pay_maps:
  assumes "tx_amount tx + tx_fee tx \<le> balance st (tx_sender tx)"
  shows "map_of (balances (pay st tx)) = bump (balance_change tx) (map_of (balances st))"
    and "map_of (nonces (pay st tx)) = bump (nonce_change tx) (map_of (nonces st))"
  using assms
  by (auto simp: pay_def balance_def debit_def credit_def increment_nonce_def bump_def balance_change_def
      nonce_change_def map_of_update get_or_def Let_def fun_eq_iff algebra_simps split: option.splits)

lemma submit_step_cases:
  assumes "submit_step C n i = (q, n')"
  shows "case q of
      None \<Rightarrow> g_state (node_dag n') = g_state (node_dag n)
    | Some tx \<Rightarrow> tx_amount tx + tx_fee tx \<le> balance (g_state (node_dag n)) (tx_sender tx) \<and>
        g_state (node_dag n') = pay (g_state (node_dag n)) tx"
proof -
  obtain r where r: "submit_transaction C (fst i) n (snd i) = (r, n')"
    and q: "q = (case r of Inl _ \<Rightarrow> None | Inr _ \<Rightarrow> Some (snd i))"
    using assms by (auto simp: submit_step_def split: prod.splits sum.splits)
  from submit_cases [OF r] q show ?thesis
    by (auto simp: acceptable_def split: if_splits)
qed

interpretation balance_log: commuting_log "submit_step C"
    "\<lambda>n. map_of (balances (g_state (node_dag n)))" "\<lambda>tx. bump (balance_change tx)" for C
  by unfold_locales (auto dest: submit_step_cases simp: pay_maps bump_commute)

interpretation nonce_log: commuting_log "submit_step C"
    "\<lambda>n. map_of (nonces (g_state (node_dag n)))" "\<lambda>tx. bump (nonce_change tx)" for C
  by unfold_locales (auto dest: submit_step_cases simp: pay_maps bump_commute)

interpretation other_log: commuting_log "submit_step C"
    "\<lambda>n. (map_of (stakes (g_state (node_dag n))), map_of (unstake_requests (g_state (node_dag n))))"
    "\<lambda>tx v. v" for C
  by unfold_locales (auto dest: submit_step_cases)

lemma deliver_ledger_ok:
  "deliver C n arrivals = (acc, n') \<Longrightarrow> ledger_ok (g_state (node_dag n)) \<Longrightarrow> ledger_ok (g_state (node_dag n'))"
proof (induction arrivals arbitrary: n acc)
  case (Cons i arrivals)
  obtain q m where st: "submit_step C n i = (q, m)" by fastforce
  from submit_step_cases [OF st] Cons.prems(2) have "ledger_ok (g_state (node_dag m))"
    by (auto simp: pay_ledger_ok split: option.splits)
  moreover obtain acc' where "deliver C m arrivals = (acc', n')"
    using Cons.prems(1) st by (auto simp: deliver_replay split: option.splits prod.splits)
  ultimately show ?case using Cons.IH by blast
qed simp

section \<open>Independent senders\<close>

text \<open>A transaction that could be inserted still can be after one of another sender.\<close>

lemma acceptable_after:
  assumes acc: "acceptable C g tx" "acceptable C g tx'" and sender: "tx_sender tx' \<noteq> tx_sender tx"
    and hash: "tx_hash C tx' \<noteq> tx_hash C tx" and small: "ledger_total (g_state g) < 2 ^ 64"
  shows "acceptable C (accepted C now (lock_sender g tx) tx) tx'"
proof -
  let ?st = "g_state g" and ?g = "accepted C now (lock_sender g tx) tx"
  have paid: "unat (tx_amount tx) + unat (tx_fee tx) < 2 ^ 64" "tx_amount tx + tx_fee tx \<le> balance ?st (tx_sender tx)"
    using acc(1) by (simp_all add: acceptable_def)
  have "balance_total ?st < 2 ^ 64" using small by (simp add: ledger_total_def)
  from ledger_accounts.payment(2) [OF this paid, of "tx_receiver tx" "tx_sender tx'"] sender
  have "unat (balance ?st (tx_sender tx')) \<le> unat (balance (pay ?st tx) (tx_sender tx'))"
    by (auto simp: pay_def)
  then have bal: "balance ?st (tx_sender tx') \<le> balance (pay ?st tx) (tx_sender tx')"
    by (simp add: word_le_unat)
  have total: "ledger_total (pay ?st tx) \<le> ledger_total ?st" using pay_total [OF small paid] by simp
  then have "unat (sat_add (total_circulating (pay ?st tx)) (tx_amount tx'))
      \<le> unat (sat_add (total_circulating ?st) (tx_amount tx'))"
    using small by (simp add: unat_sat_add total_circulating_small)
  then have cap: "sat_add (total_circulating (pay ?st tx)) (tx_amount tx') \<le> SUPPLY_CAP"
    using acc(2) unfolding acceptable_def word_le_unat by linarith
  have keys: "has_key (g_nodes ?g) x \<longleftrightarrow> x = tx_hash C tx \<or> has_key (g_nodes g) x" for x
    by (simp add: accepted_def attach_has_key)
  have nonces: "nonce (pay ?st tx) (tx_sender tx') = nonce ?st (tx_sender tx')"
    using sender by (simp add: pay_def ledger_accounts.payment_nonce)
  have "nonce_key tx' \<noteq> nonce_key tx" using sender by (simp add: nonce_key_def)
  then show ?thesis
    using acc(2) bal cap hash by (auto simp: acceptable_def keys nonces intro: order_trans)
qed

lemma submit_step_nonce:
  assumes "submit_step C n i = (q, n')"
  shows "(q = None \<and> nonce (g_state (node_dag n')) a = nonce (g_state (node_dag n)) a) \<or>
    (q = Some (snd i) \<and> tx_nonce (snd i) = nonce (g_state (node_dag n)) (tx_sender (snd i)) + 1 \<and>
     nonce (g_state (node_dag n')) a =
       (if a = tx_sender (snd i) then tx_nonce (snd i) else nonce (g_state (node_dag n)) a))"
proof -
  obtain r where r: "submit_transaction C (fst i) n (snd i) = (r, n')"
    and q: "q = (case r of Inl _ \<Rightarrow> None | Inr _ \<Rightarrow> Some (snd i))"
    using assms by (auto simp: submit_step_def split: prod.splits sum.splits)
  from submit_cases [OF r] q show ?thesis
    by (auto simp: acceptable_def pay_def ledger_accounts.payment_nonce split: if_splits)
qed

section \<open>Two funded accounts\<close>

definition kp2 :: keypair where
  "kp2 = generate demo_crypto (replicate 31 0 @ [5])"

definition addr2 :: address where
  "addr2 = from_public_key demo_crypto (kp_public_key kp2)"

definition graph2 :: dag_graph where
  "graph2 = demo_graph\<lparr>g_state := credit (g_state demo_graph) addr2 3000000\<rparr>"

definition node2 :: relyo_node where
  "node2 = with_dag (node_new 0 default_node_config) graph2"

definition demo_spend :: "keypair \<Rightarrow> u64 \<Rightarrow> transaction" where
  "demo_spend kp n = builder_sign demo_crypto 7 kp
     ((builder_parents (tx_hash demo_crypto demo_genesis_tx) (tx_hash demo_crypto demo_genesis_tx)
        (builder_new (from_public_key demo_crypto (kp_public_key kp)) (Address ''R'') 250 1000000 n))
        \<lparr>b_data := [of_char (hd (show_word n))] @ pk_bytes (kp_public_key kp)\<rparr>)"

lemma demo_spend_fields [simp]:
  "tx_amount (demo_spend kp n) = 250" "tx_fee (demo_spend kp n) = 1000000"
  "tx_sender (demo_spend kp n) = from_public_key demo_crypto (kp_public_key kp)"
  "tx_receiver (demo_spend kp n) = Address ''R''" "tx_nonce (demo_spend kp n) = n"
  "tx_parent_1 (demo_spend kp n) = tx_hash demo_crypto demo_genesis_tx"
  "tx_parent_2 (demo_spend kp n) = tx_hash demo_crypto demo_genesis_tx"
  by (simp_all add: demo_spend_def builder_parents_def builder_new_def)

lemma address_not_R: "Address ''R'' \<noteq> from_public_key demo_crypto k"
  by (simp add: from_public_key_def from_public_key_typed_raw raw_address_def demo_crypto_def Let_def)

lemma demo_spend_valid: "keypair_ok demo_crypto kp \<Longrightarrow> validate demo_crypto (demo_spend kp n) = Inr ()"
  unfolding demo_spend_def
  by (rule builder_sign_validates)
    (simp_all add: builder_parents_def builder_new_def address_not_R base_fee_num)

lemma spend_acceptable:
  assumes "keypair_ok demo_crypto kp" "has_key (g_nodes g) (tx_hash demo_crypto demo_genesis_tx)"
    "\<not> has_key (g_nodes g) (tx_hash demo_crypto (demo_spend kp n))"
    "1000250 \<le> balance (g_state g) (tx_sender (demo_spend kp n))"
    "n = nonce (g_state g) (tx_sender (demo_spend kp n)) + 1"
    "\<not> has_key (committed_nonces (g_conflicts g)) (nonce_key (demo_spend kp n))"
    "ledger_total (g_state g) \<le> 8000000"
  shows "acceptable demo_crypto g (demo_spend kp n)"
proof -
  have "unat (sat_add (total_circulating (g_state g)) 250) \<le> unat SUPPLY_CAP"
    using assms(7) by (simp add: unat_sat_add total_circulating_small)
  then show ?thesis
    using assms by (simp add: acceptable_def demo_spend_valid word_le_unat)
qed

lemma kp2_ok: "keypair_ok demo_crypto kp2" "keypair_ok demo_crypto demo_kp"
  by (simp_all add: kp2_def demo_kp_def)

lemma graph2_parts:
  "has_key (g_nodes graph2) h \<longleftrightarrow> h = tx_hash demo_crypto demo_genesis_tx"
  "g_conflicts graph2 = conflicts_new"
  "nonce (g_state graph2) a = 0"
  "balance (g_state graph2) a = (if a = addr2 then 3000000 else 0) + (if a = demo_addr then 5000000 else 0)"
  "ledger_total (g_state graph2) = 8000000" "ledger_ok (g_state graph2)"
proof -
  show "has_key (g_nodes graph2) h \<longleftrightarrow> h = tx_hash demo_crypto demo_genesis_tx"
    by (simp add: graph2_def has_key_iff demo_graph_parts)
  show "g_conflicts graph2 = conflicts_new" by (simp add: graph2_def demo_graph_parts)
  show "nonce (g_state graph2) a = 0"
    by (simp add: graph2_def demo_graph_parts nonce_def credit_def ledger_new_def)
  show "balance (g_state graph2) a = (if a = addr2 then 3000000 else 0) + (if a = demo_addr then 5000000 else 0)"
    by (simp add: graph2_def demo_graph_parts balance_book.get_add demo_balance_credit)
      (simp add: balance_def ledger_new_def)
  have "balance_total (credit ledger_new demo_addr 5000000) = 5000000"
    using demo_total [of demo_addr 5000000] balance_book.add_no_wrap(1) [of ledger_new 5000000 demo_addr]
    by (simp add: balance_total_def ledger_new_def)
  then show "ledger_total (g_state graph2) = 8000000"
    using balance_book.add_no_wrap(1) [of "credit ledger_new demo_addr 5000000" 3000000 addr2]
    by (simp add: graph2_def demo_graph_parts ledger_total_def)
      (simp add: stake_total_def pending_total_def credit_def ledger_new_def)
  show "ledger_ok (g_state graph2)" by (simp add: graph2_def demo_graph_parts)
qed

lemma addr2_not_demo: "addr2 \<noteq> demo_addr"
  by code_simp

lemma spend_hashes:
  "tx_hash demo_crypto (demo_spend kp2 1) \<noteq> tx_hash demo_crypto (demo_spend demo_kp 1)"
  "tx_hash demo_crypto (demo_spend kp2 1) \<noteq> tx_hash demo_crypto demo_genesis_tx"
  "tx_hash demo_crypto (demo_spend demo_kp 1) \<noteq> tx_hash demo_crypto demo_genesis_tx"
  "tx_hash demo_crypto (demo_spend demo_kp 2) \<noteq> tx_hash demo_crypto demo_genesis_tx"
  "tx_hash demo_crypto (demo_spend demo_kp 2) \<noteq> tx_hash demo_crypto (demo_spend demo_kp 1)"
  by code_simp+

lemma spend2_acceptable:
  "acceptable demo_crypto graph2 (demo_spend kp2 1)" "acceptable demo_crypto graph2 (demo_spend demo_kp 1)"
proof -
  have small: "ledger_total (g_state graph2) \<le> 8000000" by (simp add: graph2_parts)
  show "acceptable demo_crypto graph2 (demo_spend kp2 1)"
    by (rule spend_acceptable [OF kp2_ok(1) _ _ _ _ _ small])
      (simp_all add: graph2_parts spend_hashes addr2_def [symmetric] conflicts_new_def addr2_not_demo)
  show "acceptable demo_crypto graph2 (demo_spend demo_kp 1)"
    by (rule spend_acceptable [OF kp2_ok(2) _ _ _ _ _ small])
      (simp_all add: graph2_parts spend_hashes demo_addr_def [symmetric] conflicts_new_def
        addr2_not_demo [symmetric])
qed

text \<open>The limiter admits an address with fewer submissions on record than the limit.\<close>

lemma limiter_admits:
  "fst (limiter_check rl a t) \<longleftrightarrow>
     length (filter (\<lambda>u. u > t - ONE_SEC) (get_or [] (rl_windows rl) a)) < unat (rl_max_tps rl)"
  by (simp add: limiter_check_def Let_def)

lemma submit_limiter:
  "submit_transaction C ck n tx = (r, n') \<Longrightarrow>
     rn_limiter n' = snd (limiter_check (rn_limiter n) (tx_sender tx) (int (ck_instant ck)))"
  by (auto simp: submit_transaction_def Let_def split: prod.splits if_splits sum.splits)

lemma limiter_admits_second:
  assumes "rn_limiter n = limiter_new 100" "submit_transaction C ck n tx = (r, m)"
  shows "fst (limiter_check (rn_limiter m) x t)"
proof -
  have tps: "rl_max_tps (rn_limiter m) = 100"
    using submit_limiter [OF assms(2)] assms(1) by (simp add: limiter_check_def limiter_new_def Let_def)
  have "length (get_or [] (rl_windows (rn_limiter m)) x) \<le> 1"
    using submit_limiter [OF assms(2)] assms(1)
    by (simp add: limiter_check_def limiter_new_def Let_def get_or_def)
  then have "length (filter P (get_or [] (rl_windows (rn_limiter m)) x)) \<le> 1" for P
    by (rule order_trans [OF length_filter_le])
  then have "length (filter P (get_or [] (rl_windows (rn_limiter m)) x)) < unat (rl_max_tps (rn_limiter m))" for P
    unfolding tps by (rule le_less_trans) simp
  then show ?thesis unfolding limiter_admits .
qed

lemma deliver_two:
  assumes "rn_limiter n = limiter_new 100" "acceptable C (node_dag n) tx"
    "acceptable C (accepted C (ck_instant a) (lock_sender (node_dag n) tx) tx) tx'"
  shows "fst (deliver C n [(a, tx), (b, tx')]) = [tx, tx']"
proof -
  obtain r m where one: "submit_transaction C a n tx = (r, m)" by fastforce
  have "fst (limiter_check (limiter_new 100) (tx_sender tx) (int (ck_instant a)))"
    by (rule demo_limiter_admits)
  with submit_cases [OF one] assms(1,2)
  have m: "r = Inr (tx_hash C tx)" "node_dag m = accepted C (ck_instant a) (lock_sender (node_dag n) tx) tx"
    by simp_all
  obtain r' m' where two: "submit_transaction C b m tx' = (r', m')" by fastforce
  with submit_cases [OF two] limiter_admits_second [OF assms(1) one] assms(3) m
  have "r' = Inr (tx_hash C tx')" by simp
  with one two m show ?thesis by simp
qed

section \<open>Properties\<close>

text \<open>C7: Replicas converge: two nodes that start from the same accounts and have accepted the same
  transactions, in whatever order, at whatever times and with whatever refused submissions in
  between, hold the same balances, nonces, stakes and pending unstakes, and compute the same state
  hash.\<close>

theorem replicas_converge:
  assumes "deliver C n arrivals = (acc, n')" "deliver C m arrivals' = (acc', m')"
    and "mset acc = mset acc'" "same_accounts (g_state (node_dag n)) (g_state (node_dag m))"
    and "ledger_ok (g_state (node_dag n))" "ledger_ok (g_state (node_dag m))"
  shows "same_accounts (g_state (node_dag n')) (g_state (node_dag m')) \<and>
    state_hash C (g_state (node_dag n')) = state_hash C (g_state (node_dag m'))"
proof -
  note runs = assms(1,2) [unfolded deliver_replay]
  have "same_accounts (g_state (node_dag n')) (g_state (node_dag m'))"
    using balance_log.converge [OF runs assms(3)] nonce_log.converge [OF runs assms(3)]
      other_log.converge [OF runs assms(3)] assms(4) by (simp add: same_accounts_def)
  then show ?thesis
    using state_hash_same deliver_ledger_ok [OF assms(1,5)] deliver_ledger_ok [OF assms(2,6)] by blast
qed

text \<open>Independent transfers commute: when a graph would accept each of two transactions of
  different senders (with different hashes), it accepts both in either order, and the two graphs
  hold the same accounts.\<close>

theorem independent_inserts_commute:
  assumes "acceptable C g tx" "acceptable C g tx'" "tx_sender tx' \<noteq> tx_sender tx"
    and "tx_hash C tx' \<noteq> tx_hash C tx" "ledger_total (g_state g) < 2 ^ 64"
  shows "\<exists>g1 g2. insert_batch C now g [tx, tx'] = ([tx_hash C tx, tx_hash C tx'], g1) \<and>
    insert_batch C now' g [tx', tx] = ([tx_hash C tx', tx_hash C tx], g2) \<and>
    same_accounts (g_state g1) (g_state g2)"
proof -
  note first = acceptable_after [OF assms]
    and second = acceptable_after [OF assms(2,1) assms(3,4) [symmetric] assms(5)]
  have funds: "t = tx \<or> t = tx' \<Longrightarrow> tx_amount t + tx_fee t \<le> balance (g_state g) (tx_sender t)" for t
    using assms(1,2) by (auto simp: acceptable_def)
  have after: "tx_amount tx' + tx_fee tx' \<le> balance (pay (g_state g) tx) (tx_sender tx')"
    "tx_amount tx + tx_fee tx \<le> balance (pay (g_state g) tx') (tx_sender tx)"
    using first [of now] second [of now] by (simp_all add: acceptable_def)
  have "same_accounts (pay (pay (g_state g) tx) tx') (pay (pay (g_state g) tx') tx)"
    by (simp add: same_accounts_def pay_maps funds after bump_commute)
  then show ?thesis
    using dag_insert_acceptable [OF assms(1), of now] dag_insert_acceptable [OF first, of now now]
      dag_insert_acceptable [OF assms(2), of now'] dag_insert_acceptable [OF second, of now' now']
    by simp
qed

text \<open>C20: Arrival order is not always harmless: when two transactions of one sender follow each other,
  a node that receives them in nonce order accepts both, but one that receives the second first
  refuses it: whether it takes the first one then or not, and unless the second is submitted to it
  once more, its nonce for the sender differs from the other node's.\<close>

theorem late_nonce_diverges:
  assumes "deliver C n [(a, tx), (b, tx')] = ([tx, tx'], n1)" "tx_sender tx' = tx_sender tx"
    and "deliver C n [(a', tx'), (b', tx)] = (acc, n2)"
  shows "tx' \<notin> set acc \<and>
    nonce (g_state (node_dag n2)) (tx_sender tx) \<noteq> nonce (g_state (node_dag n1)) (tx_sender tx)"
proof -
  let ?N = "\<lambda>m. nonce (g_state (node_dag m)) (tx_sender tx)"
  obtain q m q' m' where run1: "submit_step C n (a, tx) = (q, m)" "submit_step C m (b, tx') = (q', m')"
    by fastforce
  with assms(1) have "q = Some tx" "q' = Some tx'" "m' = n1"
    by (auto simp: deliver_replay split: option.splits)
  then have first: "tx_nonce tx = ?N n + 1" "tx_nonce tx' = ?N n + 2" "?N n1 = ?N n + 2"
    using submit_step_nonce [OF run1(1), of "tx_sender tx"] submit_step_nonce [OF run1(2), of "tx_sender tx"]
      assms(2) by simp_all
  obtain p l p' l' where run2: "submit_step C n (a', tx') = (p, l)" "submit_step C l (b', tx) = (p', l')"
    by fastforce
  have "p = None" "?N l = ?N n"
    using submit_step_nonce [OF run2(1), of "tx_sender tx"] first(2) assms(2) by auto
  moreover have "?N l' = ?N n + (if p' = None then 0 else 1)" "p' = None \<or> p' = Some tx"
    using submit_step_nonce [OF run2(2), of "tx_sender tx"] first(1) \<open>?N l = ?N n\<close> by auto
  moreover have "tx' \<noteq> tx" using first by auto
  ultimately show ?thesis
    using assms(3) run2 first(3) by (auto simp: deliver_replay split: if_splits)
qed

theorem independent_inserts_commute_witness:
  "\<exists>g1 g2. insert_batch demo_crypto 1 graph2 [demo_spend kp2 1, demo_spend demo_kp 1]
      = ([tx_hash demo_crypto (demo_spend kp2 1), tx_hash demo_crypto (demo_spend demo_kp 1)], g1) \<and>
    insert_batch demo_crypto 2 graph2 [demo_spend demo_kp 1, demo_spend kp2 1]
      = ([tx_hash demo_crypto (demo_spend demo_kp 1), tx_hash demo_crypto (demo_spend kp2 1)], g2) \<and>
    same_accounts (g_state g1) (g_state g2)"
proof (rule independent_inserts_commute [OF spend2_acceptable])
  show "tx_sender (demo_spend demo_kp 1) \<noteq> tx_sender (demo_spend kp2 1)"
    by (simp add: addr2_def [symmetric] demo_addr_def [symmetric] addr2_not_demo [symmetric])
  show "tx_hash demo_crypto (demo_spend demo_kp 1) \<noteq> tx_hash demo_crypto (demo_spend kp2 1)"
    using spend_hashes(1) by simp
  show "ledger_total (g_state graph2) < 2 ^ 64" by (simp add: graph2_parts)
qed

lemma node2_parts: "node_dag node2 = graph2" "rn_limiter node2 = limiter_new 100"
  by (simp_all add: node2_def node_new_def default_node_config_def Let_def)

theorem replicas_converge_witness:
  "same_accounts
     (g_state (node_dag (snd (deliver demo_crypto node2 [(demo_clock, demo_spend kp2 1), (demo_clock, demo_spend demo_kp 1)]))))
     (g_state (node_dag (snd (deliver demo_crypto node2 [(demo_clock, demo_spend demo_kp 1), (demo_clock, demo_spend kp2 1)]))))"
proof -
  let ?A = "demo_spend kp2 1" and ?B = "demo_spend demo_kp 1"
  have senders: "tx_sender ?B \<noteq> tx_sender ?A" "tx_hash demo_crypto ?B \<noteq> tx_hash demo_crypto ?A"
    using spend_hashes(1)
    by (simp_all add: addr2_def [symmetric] demo_addr_def [symmetric] addr2_not_demo [symmetric])
  have small: "ledger_total (g_state graph2) < 2 ^ 64" by (simp add: graph2_parts)
  note later = acceptable_after [OF spend2_acceptable senders small]
    acceptable_after [OF spend2_acceptable(2,1) senders [symmetric] small]
  obtain acc n' where d: "deliver demo_crypto node2 [(demo_clock, ?A), (demo_clock, ?B)] = (acc, n')" by fastforce
  obtain acc' m' where e: "deliver demo_crypto node2 [(demo_clock, ?B), (demo_clock, ?A)] = (acc', m')" by fastforce
  have "fst (deliver demo_crypto node2 [(demo_clock, ?A), (demo_clock, ?B)]) = [?A, ?B]"
    by (rule deliver_two) (simp_all add: node2_parts spend2_acceptable later)
  moreover have "fst (deliver demo_crypto node2 [(demo_clock, ?B), (demo_clock, ?A)]) = [?B, ?A]"
    by (rule deliver_two) (simp_all add: node2_parts spend2_acceptable later)
  ultimately have "mset acc = mset acc'" unfolding d e fst_conv by simp
  from replicas_converge [OF d e this] have "same_accounts (g_state (node_dag n')) (g_state (node_dag m'))"
    by (simp add: same_accounts_def node2_parts graph2_parts)
  then show ?thesis unfolding d e snd_conv .
qed

theorem late_nonce_diverges_witness:
  "nonce (g_state (node_dag (snd (deliver demo_crypto node2 [(demo_clock, demo_spend demo_kp 2), (demo_clock, demo_spend demo_kp 1)]))))
     demo_addr
   \<noteq> nonce (g_state (node_dag (snd (deliver demo_crypto node2 [(demo_clock, demo_spend demo_kp 1), (demo_clock, demo_spend demo_kp 2)]))))
     demo_addr"
proof -
  let ?A = "demo_spend demo_kp 1" and ?B = "demo_spend demo_kp 2"
  let ?g = "accepted demo_crypto 9 (lock_sender graph2 ?A) ?A"
  have paid: "unat (tx_amount ?A) + unat (tx_fee ?A) < 2 ^ 64"
    "tx_amount ?A + tx_fee ?A \<le> balance (g_state graph2) (tx_sender ?A)"
    using spend2_acceptable(2) by (simp_all add: acceptable_def)
  have small: "ledger_total (g_state graph2) < 2 ^ 64" by (simp add: graph2_parts)
  have total: "ledger_total (g_state ?g) \<le> 8000000"
    using pay_total [OF small paid] by (simp add: graph2_parts)
  have "balance_total (g_state graph2) < 2 ^ 64" using small by (simp add: ledger_total_def)
  from ledger_accounts.payment(2) [OF this paid, of "tx_receiver ?A" demo_addr]
  have "unat (balance (g_state ?g) demo_addr) \<ge> 3999750"
    using addr2_not_demo
    by (simp add: pay_def demo_addr_def [symmetric] graph2_parts split: if_splits)
  then have funds: "1000250 \<le> balance (g_state ?g) demo_addr" by (simp add: word_le_unat)
  have "acceptable demo_crypto ?g ?B"
    by (rule spend_acceptable [OF kp2_ok(2) _ _ _ _ _ total])
      (use funds spend_hashes in \<open>simp_all add: accepted_def attach_has_key graph2_parts demo_addr_def [symmetric]
        pay_def ledger_accounts.payment_nonce nonce_key_def conflicts_new_def\<close>)
  then have "fst (deliver demo_crypto node2 [(demo_clock, ?A), (demo_clock, ?B)]) = [?A, ?B]"
    by (intro deliver_two) (simp_all add: node2_parts spend2_acceptable demo_clock_def)
  then obtain n1 where d: "deliver demo_crypto node2 [(demo_clock, ?A), (demo_clock, ?B)] = ([?A, ?B], n1)"
    by (metis fst_conv surj_pair)
  obtain acc n2 where e: "deliver demo_crypto node2 [(demo_clock, ?B), (demo_clock, ?A)] = (acc, n2)" by fastforce
  from late_nonce_diverges [OF d _ e]
  have "nonce (g_state (node_dag n2)) demo_addr \<noteq> nonce (g_state (node_dag n1)) demo_addr"
    by (simp add: demo_addr_def [symmetric])
  then show ?thesis unfolding d e snd_conv .
qed

end
