(* ===== verification/Gossip.thy ===== *)
theory Gossip
  imports Replicas EventLoop
begin

text \<open>
  Many nodes: each runs the event loop of \<open>main.rs\<close>, and what their loops publish travels over an
  asynchronous gossip network that loses, repeats, delays and reorders messages and to which anyone
  may add any message. What anyone may submit or inject is bounded by a predicate \<open>ok\<close>. The locale
  \<open>graph_invariant\<close> lifts what the acceptance of one transaction keeps of a graph to the node, its
  loop and the network.
\<close>

section \<open>The network\<close>

record 'd network =
  nw_nodes :: "nat \<Rightarrow> ('d, nat) loop_state"
  nw_wire :: "bytes set"

abbreviation net_dag :: "'d network \<Rightarrow> nat \<Rightarrow> dag_graph" where
  "net_dag N i \<equiv> node_dag (ls_node (nw_nodes N i))"

text \<open>What the swarm is asked to publish; a message once published can arrive any number of times.\<close>

fun action_data :: "'p action \<Rightarrow> bytes list" where
  "action_data (PublishTransaction data) = [data]"
| "action_data (PublishVote data) = [data]"
| "action_data (DisconnectPeer p) = []"

definition published :: "'p action list \<Rightarrow> bytes set" where
  "published acts = set (concat (map action_data acts))"

definition node_event ::
    "crypto \<Rightarrow> wire \<Rightarrow> ('d, nat) ban_db \<Rightarrow> clock \<Rightarrow> nat \<Rightarrow> nat loop_event \<Rightarrow> 'd network \<Rightarrow> 'd network" where
  "node_event C W D ck i ev N =
     (let s = loop_step C W D ck (nw_nodes N i) ev
      in N\<lparr>nw_nodes := (nw_nodes N)(i := s), nw_wire := nw_wire N \<union> published (ls_actions s)\<rparr>)"

text \<open>The events that need no message of the network.\<close>

fun local_event :: "'p loop_event \<Rightarrow> bool" where
  "local_event (Swarm (GossipMessage p data)) = False"
| "local_event _ = True"

definition carries :: "wire \<Rightarrow> (transaction \<Rightarrow> bool) \<Rightarrow> bytes \<Rightarrow> bool" where
  "carries W ok data \<longleftrightarrow> (\<forall>tx. gossip_tx W data = Some tx \<longrightarrow> ok tx)"

inductive net_reaches ::
    "crypto \<Rightarrow> wire \<Rightarrow> ('d, nat) ban_db \<Rightarrow> (transaction \<Rightarrow> bool) \<Rightarrow> 'd network \<Rightarrow> 'd network \<Rightarrow> bool"
  for C W D ok N where
  net_here: "net_reaches C W D ok N N"
| net_local: "net_reaches C W D ok N N' \<Longrightarrow> local_event ev \<Longrightarrow> (\<And>tx. ev = RpcSubmit tx \<Longrightarrow> ok tx) \<Longrightarrow>
    net_reaches C W D ok N (node_event C W D ck i ev N')"
| net_gossip: "net_reaches C W D ok N N' \<Longrightarrow> data \<in> nw_wire N' \<Longrightarrow>
    net_reaches C W D ok N (node_event C W D ck i (Swarm (GossipMessage p data)) N')"
| net_inject: "net_reaches C W D ok N N' \<Longrightarrow> carries W ok data \<Longrightarrow>
    net_reaches C W D ok N (N'\<lparr>nw_wire := insert data (nw_wire N')\<rparr>)"

lemma node_event_nodes:
  "nw_nodes (node_event C W D ck i ev N) =
     (nw_nodes N)(i := loop_step C W D ck (nw_nodes N i) ev)"
  by (simp add: node_event_def Let_def)

lemma node_event_wire:
  "nw_wire (node_event C W D ck i ev N) =
     nw_wire N \<union> published (ls_actions (loop_step C W D ck (nw_nodes N i) ev))"
  by (simp add: node_event_def Let_def)

lemma net_reaches_trans:
  "net_reaches C W D ok N' N'' \<Longrightarrow> net_reaches C W D ok N N' \<Longrightarrow> net_reaches C W D ok N N''"
  by (induction rule: net_reaches.induct) (auto intro: net_reaches.intros)

section \<open>What a step publishes\<close>

lemma published_append [simp]: "published (xs @ ys) = published xs \<union> published ys"
  by (simp add: published_def)

lemma published_single [simp]:
  "published [] = {}" "published [PublishTransaction data] = {data}" "published [PublishVote data] = {data}"
  "published [DisconnectPeer p] = {}"
  by (simp_all add: published_def)

lemma broadcast_carries:
  "wire_ok W \<Longrightarrow> tx_broadcast W now tx = Inr m \<Longrightarrow> message_to_bytes W m = Inr data \<Longrightarrow>
     gossip_tx W data = Some tx"
  by (cases "enc_tx W tx")
    (auto simp: wire_ok_def tx_broadcast_def message_to_bytes_def gossip_tx_def message_from_bytes_def message_new_def)

lemma vote_carries:
  "wire_ok W \<Longrightarrow> vote_response W now v = Inr m \<Longrightarrow> message_to_bytes W m = Inr data \<Longrightarrow>
     gossip_tx W data = None"
  by (cases "enc_vote W v")
    (auto simp: wire_ok_def vote_response_def message_to_bytes_def gossip_tx_def message_from_bytes_def message_new_def)

lemma broadcast_publishes:
  "published (ls_actions (handle_broadcast C W D ck s p payload)) = published (ls_actions s)"
  by (auto simp: handle_broadcast_def act_def Let_def split: sum.split prod.split relyo_error.split)

lemma outgoing_publishes:
  assumes "wire_ok W" "data \<in> published (ls_actions (outgoing_tx W now s))"
  shows "data \<in> published (ls_actions s) \<or> (\<exists>tx\<in>set (rn_tx_sender (ls_node s)). gossip_tx W data = Some tx)"
  using assms broadcast_carries [OF assms(1)]
  by (auto simp: outgoing_tx_def act_def Let_def split: list.splits sum.splits)

lemma request_publishes:
  assumes "wire_ok W" "data \<in> published (ls_actions (handle_vote_request W now s payload))"
  shows "data \<in> published (ls_actions s) \<or> gossip_tx W data = None"
  using assms vote_carries [OF assms(1)]
  by (auto simp: handle_vote_request_def act_def Let_def split: sum.splits)

lemma gossip_publishes:
  assumes "wire_ok W" "data \<in> published (ls_actions (handle_gossip C W D ck s p msg))"
  shows "data \<in> published (ls_actions s) \<or> gossip_tx W data = None"
  using assms(2)
  by (auto simp: handle_gossip_def broadcast_publishes handle_vote_response_def Let_def
      dest: request_publishes [OF assms(1)] split: sum.splits message_type.splits)

lemma step_publishes:
  assumes "wire_ok W" "data \<in> published (ls_actions (loop_step C W D ck s ev))" "gossip_tx W data = Some tx"
  shows "data \<in> published (ls_actions s) \<or> tx \<in> set (rn_tx_sender (ls_node s))"
proof (cases ev)
  case OutgoingTx
  with outgoing_publishes [OF assms(1), of data "ck_ms ck" s] assms(2,3) show ?thesis
    by (auto simp: loop_step_def)
next
  case (Swarm e)
  with gossip_publishes [OF assms(1), of data C D ck s] assms(2,3) show ?thesis
    by (cases e) (auto simp: loop_step_def connection_check_def act_def Let_def split: if_splits)
qed (use assms in \<open>simp_all add: loop_step_def\<close>)

section \<open>From the graph to the network\<close>

text \<open>The transactions that a node holds outside its graph: mempool and broadcast channel.\<close>

definition pending_ok :: "(transaction \<Rightarrow> bool) \<Rightarrow> relyo_node \<Rightarrow> bool" where
  "pending_ok ok n \<longleftrightarrow> (\<forall>tx \<in> snd ` set (mp_txs (rn_mempool n)) \<union> set (rn_tx_sender n). ok tx)"

definition net_clean :: "wire \<Rightarrow> (transaction \<Rightarrow> bool) \<Rightarrow> 'd network \<Rightarrow> bool" where
  "net_clean W ok N \<longleftrightarrow>
     (\<forall>data \<in> nw_wire N. carries W ok data) \<and>
     (\<forall>i. pending_ok ok (ls_node (nw_nodes N i)) \<and>
       (\<forall>data \<in> published (ls_actions (nw_nodes N i)). carries W ok data))"

lemma pending_any [simp]: "pending_ok (\<lambda>_. True) n"
  by (simp add: pending_ok_def)

lemma drain_hashes_subset:
  "set (fst (drain_hashes mp hs)) \<subseteq> snd ` set (mp_txs mp) \<and>
   snd ` set (mp_txs (snd (drain_hashes mp hs))) \<subseteq> snd ` set (mp_txs mp)"
proof (induction mp hs rule: drain_hashes.induct)
  case (2 mp h hs)
  have del: "set (AList.delete h (mp_txs mp)) \<subseteq> set (mp_txs mp)" by (auto simp: AList.delete_eq)
  show ?case
  proof (cases rule: mempool_remove_cases [of mp h])
    case absent
    with 2(1) [OF absent(2) [symmetric] refl] show ?thesis by simp
  next
    case (present tx mp')
    have tx: "tx \<in> snd ` set (mp_txs mp)" using present(1) by (auto dest: map_of_SomeD intro: rev_image_eqI)
    obtain batch mp'' where rest: "drain_hashes mp' hs = (batch, mp'')" by fastforce
    from 2(2) [OF present(2) [symmetric] refl] rest present(3)
    have "set batch \<subseteq> snd ` set (AList.delete h (mp_txs mp)) \<and>
      snd ` set (mp_txs mp'') \<subseteq> snd ` set (AList.delete h (mp_txs mp))" by (simp only: fst_conv snd_conv)
    then have sub: "set batch \<subseteq> snd ` set (mp_txs mp)" "snd ` set (mp_txs mp'') \<subseteq> snd ` set (mp_txs mp)"
      using order_trans [OF _ image_mono [OF del, of snd]] by (iprover)+
    have eq: "drain_hashes mp (h # hs) = (tx # batch, mp'')" by (simp add: present(2) rest)
    show ?thesis unfolding eq fst_conv snd_conv list.set insert_subset by (intro conjI tx sub)
  qed
qed simp

lemma drain_batch_subset:
  "drain_batch mp k = (batch, mp') \<Longrightarrow>
     set batch \<subseteq> snd ` set (mp_txs mp) \<and> snd ` set (mp_txs mp') \<subseteq> snd ` set (mp_txs mp)"
  unfolding drain_batch_def Let_def using drain_hashes_subset fst_conv snd_conv by metis

lemma submit_graph:
  assumes "submit_transaction C ck n tx = (r, n')"
  shows "rn_mempool n' = rn_mempool n \<and> set (rn_tx_sender n') \<subseteq> insert tx (set (rn_tx_sender n)) \<and>
    (node_dag n' \<in> {node_dag n, lock_sender (node_dag n) tx} \<or>
     acceptable C (node_dag n) tx \<and> node_dag n' = accepted C (ck_instant ck) (lock_sender (node_dag n) tx) tx)"
proof (cases "fst (limiter_check (rn_limiter n) (tx_sender tx) (int (ck_instant ck))) \<and> acceptable C (node_dag n) tx")
  case True
  with submit_cases [OF assms] show ?thesis by simp
next
  case False
  have "node_dag n' \<in> {node_dag n, lock_sender (node_dag n) tx}"
    using assms False dag_insert_Inl [of C "ck_instant ck" "node_dag n" tx]
      dag_insert_Inr [of C "ck_instant ck" "node_dag n" tx]
    by (auto simp: submit_transaction_def Let_def split: prod.splits if_splits sum.splits)
  with submit_cases [OF assms] False show ?thesis by auto
qed

locale graph_invariant =
  fixes C :: crypto and ginv :: "dag_graph \<Rightarrow> bool" and ok :: "transaction \<Rightarrow> bool"
  assumes accept_inv: "ginv g \<Longrightarrow> ok tx \<Longrightarrow> acceptable C g tx \<Longrightarrow> ginv (accepted C now (lock_sender g tx) tx)"
    and lock_inv: "ginv g \<Longrightarrow> ginv (lock_sender g tx)"
    and status_inv: "ginv g \<Longrightarrow> ginv (set_status g h st)"
begin

lemma insert_batch_inv:
  "insert_batch C now g txs = (hashes, g') \<Longrightarrow> \<forall>tx\<in>set txs. ok tx \<Longrightarrow> ginv g \<Longrightarrow> ginv g'"
proof (induction txs arbitrary: g hashes)
  case (Cons tx txs)
  obtain r d where r: "dag_insert C now g tx = (r, d)" by fastforce
  have "ginv d"
  proof (cases r)
    case (Inl e)
    then have "d \<in> {g, lock_sender g tx}" using dag_insert_Inl r by blast
    with Cons.prems(3) lock_inv show ?thesis by blast
  next
    case (Inr h)
    with r have "acceptable C g tx \<and> d = accepted C now (lock_sender g tx) tx" by (simp add: dag_insert_Inr)
    with Cons.prems(2,3) accept_inv show ?thesis by simp
  qed
  with Cons r show ?case by (auto split: sum.splits prod.splits)
qed simp

lemma vote_dag_inv: "ginv (ce_dag e) \<Longrightarrow> ginv (ce_dag (receive_vote now e v))"
  by (simp add: receive_vote_cases apply_outcome_def status_inv split: option.split vote_outcome.split)

lemma submit_node_inv:
  assumes "ginv (node_dag n)" "pending_ok ok n" "ok tx"
  shows "ginv (node_dag (snd (submit_transaction C ck n tx))) \<and> pending_ok ok (snd (submit_transaction C ck n tx))"
proof -
  obtain r n' where s: "submit_transaction C ck n tx = (r, n')" by fastforce
  note parts = submit_graph [OF s]
  have "ginv (node_dag n')"
    using parts accept_inv [OF assms(1,3), of "ck_instant ck"] lock_inv [OF assms(1), of tx] assms(1) by auto
  moreover have "pending_ok ok n'" using parts assms(2,3) by (auto simp: pending_ok_def)
  ultimately show ?thesis by (simp add: s)
qed

lemma batch_node_inv:
  assumes "ginv (node_dag n)" "pending_ok ok n"
  shows "ginv (node_dag (snd (process_mempool_batch C ck n k))) \<and> pending_ok ok (snd (process_mempool_batch C ck n k))"
proof -
  obtain batch mp where d: "drain_batch (rn_mempool n) k = (batch, mp)" by fastforce
  obtain hs g' where i: "insert_batch C (ck_instant ck) (node_dag n) batch = (hs, g')" by fastforce
  have "\<forall>tx\<in>set batch. ok tx" using drain_batch_subset [OF d] assms(2) by (auto simp: pending_ok_def)
  from insert_batch_inv [OF i this assms(1)] have "ginv g'" .
  moreover have "\<forall>tx \<in> snd ` set (mp_txs mp) \<union> set (rn_tx_sender n). ok tx"
    using drain_batch_subset [OF d] assms(2) unfolding pending_ok_def by blast
  ultimately show ?thesis by (simp add: process_mempool_batch_def d i pending_ok_def)
qed

end

sublocale graph_invariant \<subseteq> node_invariant C "\<lambda>n. ginv (node_dag n) \<and> pending_ok ok n" ok
proof
  fix n now h voter acc
  assume "ginv (node_dag n) \<and> pending_ok ok n"
  then show "ginv (node_dag (n\<lparr>rn_consensus := process_remote_vote now (rn_consensus n) h voter acc\<rparr>)) \<and>
      pending_ok ok (n\<lparr>rn_consensus := process_remote_vote now (rn_consensus n) h voter acc\<rparr>)"
    by (simp add: pending_ok_def process_remote_vote_def node_dag_def vote_dag_inv)
qed (simp_all add: submit_node_inv batch_node_inv, auto simp: pending_ok_def)

text \<open>What nodes hold and publish stays \<open>ok\<close> whatever the graphs are.\<close>

interpretation clean: graph_invariant C "\<lambda>_. True" ok for C ok
  by unfold_locales simp_all

lemma clean_event:
  assumes "wire_ok W" "net_clean W ok N" "\<And>tx. event_tx W ev = Some tx \<Longrightarrow> ok tx"
  shows "net_clean W ok (node_event C W D ck i ev N)"
proof -
  let ?s = "nw_nodes N i" and ?t = "loop_step C W D ck (nw_nodes N i) ev"
  have "pending_ok ok (ls_node ?t)"
    using clean.step_inv [of ok ?s W ev] assms(2,3) by (simp add: net_clean_def)
  moreover have "carries W ok data" if "data \<in> published (ls_actions ?t)" for data
    unfolding carries_def
  proof (intro allI impI)
    fix tx assume tx: "gossip_tx W data = Some tx"
    from step_publishes [OF assms(1) that tx] show "ok tx"
      using assms(2) tx by (auto simp: net_clean_def carries_def pending_ok_def)
  qed
  ultimately show ?thesis
    using assms(2) by (auto simp: net_clean_def node_event_nodes node_event_wire)
qed

context graph_invariant
begin

lemma event_keeps:
  assumes "pending_ok ok (ls_node (nw_nodes N j))" "ginv (net_dag N i)" "\<And>tx. event_tx W ev = Some tx \<Longrightarrow> ok tx"
  shows "ginv (net_dag (node_event C W D ck j ev N) i)"
  using step_inv [of "nw_nodes N j" W ev D ck] assms by (cases "i = j") (simp_all add: node_event_nodes)

lemma net_inv:
  assumes "net_reaches C W D ok N N'" "wire_ok W" "net_clean W ok N" "ginv (net_dag N i)"
  shows "net_clean W ok N' \<and> ginv (net_dag N' i)"
  using assms(1)
proof (induction rule: net_reaches.induct)
  case net_here
  with assms show ?case by simp
next
  case (net_local N' ev ck j)
  then have "event_tx W ev = Some tx \<Longrightarrow> ok tx" for tx by (cases ev) (auto elim: local_event.elims)
  moreover have "pending_ok ok (ls_node (nw_nodes N' j))" using net_local.IH by (simp add: net_clean_def)
  ultimately show ?case using net_local.IH clean_event [OF assms(2)] event_keeps by blast
next
  case (net_gossip N' data ck j p)
  then have "event_tx W (Swarm (GossipMessage p data)) = Some tx \<Longrightarrow> ok tx" for tx
    by (auto simp: net_clean_def carries_def)
  moreover have "pending_ok ok (ls_node (nw_nodes N' j))" using net_gossip.IH by (simp add: net_clean_def)
  ultimately show ?case using net_gossip.IH clean_event [OF assms(2)] event_keeps by blast
next
  case (net_inject N' data)
  then show ?case by (simp add: net_clean_def)
qed

text \<open>When nothing restricts the environment, the codecs need no law.\<close>

lemma net_any:
  assumes "net_reaches C W D ok' N N'" "\<And>tx. ok tx" "ginv (net_dag N i)"
  shows "ginv (net_dag N' i)"
proof -
  have "pending_ok ok n" for n by (simp add: pending_ok_def assms(2))
  with assms show ?thesis
    by (induction rule: net_reaches.induct) (simp_all add: event_keeps)
qed

end

section \<open>Authentic transactions\<close>

text \<open>
  \<open>owned\<close> is what the owner of an account ever signs. A transaction is authorised unless it carries a
  key of the account's address and a signature that verifies under it, on anything else: nobody can
  make one that is not, if signatures cannot be forged and no other key hashes to the address.
\<close>

definition authorised :: "crypto \<Rightarrow> address \<Rightarrow> bytes set \<Rightarrow> transaction \<Rightarrow> bool" where
  "authorised C a owned tx \<longleftrightarrow>
     (from_public_key C (tx_sender_pubkey tx) = a \<and>
      verify C (tx_sender_pubkey tx) (signable_bytes tx) (tx_signature tx) = Inr () \<longrightarrow>
      signable_bytes tx \<in> owned)"

definition spends_owned :: "address \<Rightarrow> bytes set \<Rightarrow> dag_graph \<Rightarrow> bool" where
  "spends_owned a owned g \<longleftrightarrow> all_nodes (\<lambda>h tx st. tx_sender tx = a \<longrightarrow> signable_bytes tx \<in> owned) g"

lemma acceptable_signed:
  "acceptable C g tx \<Longrightarrow> from_public_key C (tx_sender_pubkey tx) = tx_sender tx \<and>
     verify C (tx_sender_pubkey tx) (signable_bytes tx) (tx_signature tx) = Inr ()"
  by (simp add: acceptable_def validate_Inr verify_signature_def)

lemma all_nodes_lock [simp]: "all_nodes P (lock_sender g tx) = all_nodes P g"
  by (simp add: all_nodes_def get_node_def lock_sender_def)

interpretation authentic: graph_invariant C "spends_owned a owned" "authorised C a owned" for C a owned
proof
  fix g tx now
  assume "spends_owned a owned g" "authorised C a owned tx" "acceptable C g tx"
  then show "spends_owned a owned (accepted C now (lock_sender g tx) tx)"
    unfolding spends_owned_def
    by (intro all_nodes_accepted) (use acceptable_signed in \<open>auto simp: authorised_def\<close>)
qed (auto simp: spends_owned_def intro: all_nodes_status)

text \<open>An account that nobody spends from, while the funds of the node fit in 64 bits.\<close>

definition untouched :: "address \<Rightarrow> nat \<Rightarrow> u64 \<Rightarrow> dag_graph \<Rightarrow> bool" where
  "untouched a b n g \<longleftrightarrow>
     b \<le> unat (balance (g_state g) a) \<and> nonce (g_state g) a = n \<and> ledger_total (g_state g) < 2 ^ 64"

lemma untouched_accepted:
  assumes "untouched a b n g" "acceptable C g tx" "tx_sender tx \<noteq> a"
  shows "untouched a b n (accepted C now (lock_sender g tx) tx)"
proof -
  let ?st = "g_state g"
  have small: "ledger_total ?st < 2 ^ 64" using assms(1) by (simp add: untouched_def)
  have paid: "unat (tx_amount tx) + unat (tx_fee tx) < 2 ^ 64" "tx_amount tx + tx_fee tx \<le> balance ?st (tx_sender tx)"
    using assms(2) by (simp_all add: acceptable_def)
  have "balance_total ?st < 2 ^ 64" using small by (simp add: ledger_total_def)
  from ledger_accounts.payment(2) [OF this paid, of "tx_receiver tx" a] assms(3)
  have "unat (balance ?st a) \<le> unat (balance (pay ?st tx) a)" by (auto simp: pay_def)
  moreover have "nonce (pay ?st tx) a = nonce ?st a"
    using assms(3) by (simp add: pay_def ledger_accounts.payment_nonce)
  ultimately show ?thesis
    using assms(1) abs_accept(3) [OF assms(2) small, of now] by (simp add: untouched_def)
qed

interpretation cold: graph_invariant C "untouched a b n" "authorised C a {}" for C a b n
  by unfold_locales
    (use untouched_accepted acceptable_signed in \<open>fastforce simp: untouched_def authorised_def lock_sender_def\<close>)+

section \<open>The graph determines the ledger\<close>

definition graph_txs :: "dag_graph \<Rightarrow> transaction set" where
  "graph_txs g = dn_tx ` snd ` set (g_nodes g)"

definition filed :: "crypto \<Rightarrow> dag_graph \<Rightarrow> bool" where
  "filed C g \<longleftrightarrow> distinct (keys (g_nodes g)) \<and> all_nodes (\<lambda>h tx st. tx_hash C tx = h) g"

text \<open>The ledger of \<open>g\<close> is that of \<open>g0\<close> after the transactions that \<open>g\<close> has and \<open>g0\<close> has not.\<close>

definition ledger_from :: "crypto \<Rightarrow> dag_graph \<Rightarrow> dag_graph \<Rightarrow> bool" where
  "ledger_from C g0 g \<longleftrightarrow> filed C g \<and> ledger_ok (g_state g) \<and>
     stakes (g_state g) = stakes (g_state g0) \<and> unstake_requests (g_state g) = unstake_requests (g_state g0) \<and>
     (\<exists>acc. distinct acc \<and> set acc \<inter> graph_txs g0 = {} \<and> graph_txs g = graph_txs g0 \<union> set acc \<and>
        map_of (balances (g_state g)) = fold (\<lambda>tx. bump (balance_change tx)) acc (map_of (balances (g_state g0))) \<and>
        map_of (nonces (g_state g)) = fold (\<lambda>tx. bump (nonce_change tx)) acc (map_of (nonces (g_state g0))))"

lemma graph_txs_nodes:
  "distinct (keys (g_nodes g)) \<Longrightarrow> tx \<in> graph_txs g \<longleftrightarrow> (\<exists>h n. get_node g h = Some n \<and> dn_tx n = tx)"
  by (force simp: graph_txs_def get_node_def)

lemma link_tx [simp]: "dn_tx (link tx h x n) = dn_tx n"
  by (simp add: link_def)

lemma accepted_filed:
  assumes "acceptable C g tx" "filed C g"
  shows "filed C (accepted C now (lock_sender g tx) tx)"
    and "graph_txs (accepted C now (lock_sender g tx) tx) = insert tx (graph_txs g)" and "tx \<notin> graph_txs g"
proof -
  let ?g = "accepted C now (lock_sender g tx) tx"
  have fresh: "\<not> has_key (g_nodes g) (tx_hash C tx)" using assms(1) by (simp add: acceptable_def)
  have d: "distinct (keys (g_nodes ?g))"
    using assms(2) fresh by (simp add: filed_def accepted_def attach_keys has_key_iff lock_sender_def)
  then show f: "filed C ?g"
    using assms(2) by (simp add: filed_def all_nodes_accepted)
  have nodes: "get_node ?g x = (if x = tx_hash C tx then Some \<lparr>dn_tx = tx, dn_hash = tx_hash C tx,
      dn_status = Pending, dn_children = [], dn_weight = 1, dn_depth = new_depth g tx\<rparr>
    else map_option (link tx (tx_hash C tx) x) (get_node g x))" for x
    by (simp add: get_node_def accepted_def attach_nodes lock_sender_def new_depth_def node_depth_def)
  have old: "get_node g (tx_hash C tx) = None" using fresh by (simp add: has_key_def get_node_def)
  have dg: "distinct (keys (g_nodes g))" using assms(2) by (simp add: filed_def)
  show "tx \<notin> graph_txs g"
    using assms(2) old by (auto simp: graph_txs_nodes [OF dg] filed_def all_nodes_def)
  show "graph_txs ?g = insert tx (graph_txs g)"
    unfolding set_eq_iff insert_iff graph_txs_nodes [OF d] graph_txs_nodes [OF dg] nodes
    using old by (auto simp: map_option_eq_Some split: if_splits) (metis link_tx option.distinct(1))+
qed

lemma ledger_from_accepted:
  assumes "ledger_from C g0 g" "acceptable C g tx"
  shows "ledger_from C g0 (accepted C now (lock_sender g tx) tx)"
proof -
  let ?bal = "fold (\<lambda>tx. bump (balance_change tx))" and ?non = "fold (\<lambda>tx. bump (nonce_change tx))"
  have f: "filed C g" and lok: "ledger_ok (g_state g)" using assms(1) by (simp_all add: ledger_from_def)
  obtain acc where acc: "distinct acc" "set acc \<inter> graph_txs g0 = {}" "graph_txs g = graph_txs g0 \<union> set acc"
    "map_of (balances (g_state g)) = ?bal acc (map_of (balances (g_state g0)))"
    "map_of (nonces (g_state g)) = ?non acc (map_of (nonces (g_state g0)))"
    using assms(1) by (auto simp: ledger_from_def)
  have funds: "tx_amount tx + tx_fee tx \<le> balance (g_state g) (tx_sender tx)"
    using assms(2) by (simp add: acceptable_def)
  note new = accepted_filed(1,2) [OF assms(2) f, of now] accepted_filed(3) [OF assms(2) f]
  have "distinct (acc @ [tx])" "set (acc @ [tx]) \<inter> graph_txs g0 = {}"
    "graph_txs (accepted C now (lock_sender g tx) tx) = graph_txs g0 \<union> set (acc @ [tx])"
    using acc(1-3) new(2,3) by auto
  moreover have "map_of (balances (pay (g_state g) tx)) = ?bal (acc @ [tx]) (map_of (balances (g_state g0)))"
    "map_of (nonces (pay (g_state g) tx)) = ?non (acc @ [tx]) (map_of (nonces (g_state g0)))"
    by (simp_all add: pay_maps [OF funds] acc(4,5))
  ultimately show ?thesis
    using assms(1) new(1) pay_ledger_ok [OF lok, of tx]
    unfolding ledger_from_def by (intro conjI exI [of _ "acc @ [tx]"]) (simp_all add: pay_def)
qed

lemma graph_txs_lock [simp]: "graph_txs (lock_sender g tx) = graph_txs g"
  by (simp add: graph_txs_def lock_sender_def)

lemma graph_txs_status [simp]: "graph_txs (set_status g h st) = graph_txs g"
proof -
  have "dn_tx ` snd ` set (AList.map_entry h (\<lambda>n. n\<lparr>dn_status := st\<rparr>) m) = dn_tx ` snd ` set m" for m
    by (induction m) auto
  then show ?thesis by (simp add: graph_txs_def set_status_def)
qed

lemma filed_same [simp]:
  "filed C (lock_sender g tx) = filed C g" "filed C g \<Longrightarrow> filed C (set_status g h st)"
proof -
  show "filed C (lock_sender g tx) = filed C g" unfolding filed_def all_nodes_lock by (simp add: lock_sender_def)
  show "filed C (set_status g h st)" if "filed C g"
    using that all_nodes_status [of "\<lambda>h tx st. tx_hash C tx = h" g st h] unfolding filed_def
    by (simp add: set_status_def)
qed

lemma ledger_from_start: "filed C g \<Longrightarrow> ledger_ok (g_state g) \<Longrightarrow> ledger_from C g g"
  by (auto simp: ledger_from_def intro: exI [of _ "[]"])

interpretation determined: graph_invariant C "ledger_from C g0" "\<lambda>_. True" for C g0
proof
  show "ledger_from C g0 (lock_sender g tx)" if "ledger_from C g0 g" for g tx
    using that unfolding ledger_from_def graph_txs_lock filed_same by (simp add: lock_sender_def)
  show "ledger_from C g0 (set_status g h st)" if "ledger_from C g0 g" for g h st
    using that by (simp add: ledger_from_def)
qed (rule ledger_from_accepted)

text \<open>Two ledgers that grew from the same accounts by the same transactions.\<close>

lemma ledger_from_agree:
  assumes "ledger_from C g0 g" "ledger_from C h0 h" "same_accounts (g_state g0) (g_state h0)"
    and "graph_txs g0 = graph_txs h0" "graph_txs g = graph_txs h"
  shows "same_accounts (g_state g) (g_state h)"
proof -
  obtain acc where acc: "distinct acc" "set acc \<inter> graph_txs g0 = {}" "graph_txs g = graph_txs g0 \<union> set acc"
    "map_of (balances (g_state g)) = fold (\<lambda>tx. bump (balance_change tx)) acc (map_of (balances (g_state g0)))"
    "map_of (nonces (g_state g)) = fold (\<lambda>tx. bump (nonce_change tx)) acc (map_of (nonces (g_state g0)))"
    using assms(1) by (auto simp: ledger_from_def)
  obtain acc' where acc': "distinct acc'" "set acc' \<inter> graph_txs h0 = {}" "graph_txs h = graph_txs h0 \<union> set acc'"
    "map_of (balances (g_state h)) = fold (\<lambda>tx. bump (balance_change tx)) acc' (map_of (balances (g_state h0)))"
    "map_of (nonces (g_state h)) = fold (\<lambda>tx. bump (nonce_change tx)) acc' (map_of (nonces (g_state h0)))"
    using assms(2) by (auto simp: ledger_from_def)
  have "set acc = set acc'" using acc(2,3) acc'(2,3) assms(4,5) by blast
  then have "mset acc = mset acc'" using acc(1) acc'(1) by (simp add: set_eq_iff_mset_eq_distinct)
  with assms(1-3) acc(4,5) acc'(4,5) show ?thesis
    by (auto simp: same_accounts_def ledger_from_def
        dest: balance_log.fold_perm [where v = "map_of (balances (g_state g0))"]
          nonce_log.fold_perm [where v = "map_of (nonces (g_state g0))"])
qed

section \<open>Conflicting transactions\<close>

text \<open>The graph has \<open>tx\<close>; a transaction \<open>tx'\<close> with the same sender and nonce is shut out.\<close>

definition shut_out :: "crypto \<Rightarrow> transaction \<Rightarrow> transaction \<Rightarrow> dag_graph \<Rightarrow> bool" where
  "shut_out C tx tx' g \<longleftrightarrow> filed C g \<and> tx \<in> graph_txs g \<and> tx' \<notin> graph_txs g \<and>
     has_key (committed_nonces (g_conflicts g)) (nonce_key tx')"

interpretation rivals: graph_invariant C "shut_out C tx tx'" "\<lambda>_. True" for C tx tx'
proof
  fix g u now
  assume s: "shut_out C tx tx' g" and u: "acceptable C g u"
  have "u \<noteq> tx'" using s u by (auto simp: shut_out_def acceptable_def)
  with s accepted_filed(1,2) [OF u, of now] show "shut_out C tx tx' (accepted C now (lock_sender g u) u)"
    by (auto simp: shut_out_def lock_sender_def)
next
  show "shut_out C tx tx' (lock_sender g u)" if "shut_out C tx tx' g" for g u
    using that unfolding shut_out_def filed_same graph_txs_lock by (simp add: lock_sender_def)
qed (simp_all add: shut_out_def)

text \<open>The limiter of a node admits the sender.\<close>

definition admits :: "clock \<Rightarrow> relyo_node \<Rightarrow> transaction \<Rightarrow> bool" where
  "admits ck n tx \<longleftrightarrow> fst (limiter_check (rn_limiter n) (tx_sender tx) (int (ck_instant ck)))"

lemma submit_accepts:
  assumes "admits ck n tx" "acceptable C (node_dag n) tx"
  shows "node_dag (snd (submit_transaction C ck n tx)) = accepted C (ck_instant ck) (lock_sender (node_dag n) tx) tx"
    and "rn_tx_sender (snd (submit_transaction C ck n tx)) = rn_tx_sender n @ [tx]"
proof -
  obtain r n' where s: "submit_transaction C ck n tx = (r, n')" by fastforce
  from submit_cases [OF s] assms
  show "node_dag (snd (submit_transaction C ck n tx)) = accepted C (ck_instant ck) (lock_sender (node_dag n) tx) tx"
    and "rn_tx_sender (snd (submit_transaction C ck n tx)) = rn_tx_sender n @ [tx]"
    by (simp_all add: s admits_def)
qed

lemma accepted_shuts_out:
  assumes "acceptable C g tx" "filed C g" "tx' \<notin> graph_txs g" "tx' \<noteq> tx" "nonce_key tx' = nonce_key tx"
  shows "shut_out C tx tx' (accepted C now (lock_sender g tx) tx)"
  using accepted_filed(1,2) [OF assms(1,2), of now] assms(3-5) by (simp add: shut_out_def lock_sender_def)

lemma rpc_node:
  "ls_node (loop_step C W D ck s (RpcSubmit tx)) = snd (submit_transaction C ck (ls_node s) tx)"
  by (simp add: loop_step_def)

section \<open>Propagation\<close>

text \<open>A transaction on the wire reaches every node of a list that would accept it.\<close>

definition took :: "transaction \<Rightarrow> dag_graph \<Rightarrow> dag_graph \<Rightarrow> bool" where
  "took tx g g' \<longleftrightarrow> tx \<in> graph_txs g' \<and> g_state g' = pay (g_state g) tx"

lemma submit_took:
  assumes "filed C (node_dag n)" "admits ck n tx" "acceptable C (node_dag n) tx"
  shows "took tx (node_dag n) (node_dag (snd (submit_transaction C ck n tx)))"
  using submit_accepts(1) [OF assms(2,3)] accepted_filed(2) [OF assms(3,1)] by (simp add: took_def)

lemma gossip_node:
  "gossip_tx W data = Some tx \<Longrightarrow>
     ls_node (loop_step C W D ck s (Swarm (GossipMessage p data))) = snd (submit_transaction C ck (ls_node s) tx)"
  by (auto simp: loop_step_def handle_gossip_def gossip_tx_def handle_broadcast_node split: sum.splits if_splits)

lemma spread:
  assumes "distinct js" "gossip_tx W data = Some tx" "data \<in> nw_wire N"
    and "\<And>j. j \<in> set js \<Longrightarrow> filed C (net_dag N j) \<and> admits ck (ls_node (nw_nodes N j)) tx \<and> acceptable C (net_dag N j) tx"
  shows "\<exists>N'. net_reaches C W D ok N N' \<and> (\<forall>j\<in>set js. took tx (net_dag N j) (net_dag N' j)) \<and>
    (\<forall>j. j \<notin> set js \<longrightarrow> nw_nodes N' j = nw_nodes N j) \<and> data \<in> nw_wire N'"
  using assms(1,4)
proof (induction js)
  case Nil
  with assms(3) show ?case by (auto intro: net_here)
next
  case (Cons j js)
  then obtain N' where N': "net_reaches C W D ok N N'" "\<forall>j\<in>set js. took tx (net_dag N j) (net_dag N' j)"
    "\<forall>j. j \<notin> set js \<longrightarrow> nw_nodes N' j = nw_nodes N j" "data \<in> nw_wire N'" by auto
  let ?N = "node_event C W D ck j (Swarm (GossipMessage 0 data)) N'"
  have same: "nw_nodes N' j = nw_nodes N j" using N'(3) Cons.prems(1) by simp
  have here: "filed C (net_dag N j)" "admits ck (ls_node (nw_nodes N j)) tx" "acceptable C (net_dag N j) tx"
    using Cons.prems(2) by simp_all
  have "took tx (net_dag N j) (net_dag ?N j)"
    using submit_took [OF here] by (simp add: node_event_nodes same gossip_node [OF assms(2)])
  then have "\<forall>i\<in>set (j # js). took tx (net_dag N i) (net_dag ?N i)"
    using N'(2) Cons.prems(1) by (simp add: node_event_nodes)
  moreover have "net_reaches C W D ok N ?N" by (rule net_gossip [OF N'(1,4)])
  moreover have "\<forall>i. i \<notin> set (j # js) \<longrightarrow> nw_nodes ?N i = nw_nodes N i" "data \<in> nw_wire ?N"
    using N'(3,4) by (simp_all add: node_event_nodes node_event_wire)
  ultimately show ?case by blast
qed

section \<open>Properties\<close>


text \<open>C10: An account whose owner signs nothing is safe in the whole network: whatever is submitted, injected,
  repeated, reordered or lost, and whichever transactions of others every node takes, no node's balance
  of the account ever falls and its nonce does not move (while the funds of the node fit in 64 bits and
  nobody forges a signature of the owner).\<close>

theorem cold_account_safe:
  assumes "wire_ok W" "net_reaches C W D (authorised C a {}) N N'" "net_clean W (authorised C a {}) N"
    and "ledger_total (g_state (net_dag N i)) < 2 ^ 64"
  shows "balance (g_state (net_dag N i)) a \<le> balance (g_state (net_dag N' i)) a \<and>
    nonce (g_state (net_dag N' i)) a = nonce (g_state (net_dag N i)) a"
  using cold.net_inv [OF assms(2,1,3), of "unat (balance (g_state (net_dag N i)) a)" "nonce (g_state (net_dag N i)) a" i] assms(4)
  by (simp add: untouched_def word_le_unat)

text \<open>C8: The graph determines the ledger: two nodes of the network that started with the same accounts
  and transactions, and whose graphs hold the same transactions now, hold the same balances, nonces,
  stakes and pending unstakes and compute the same state hash, whatever anyone submitted or injected
  and in whatever order each of them learnt of the transactions.\<close>

theorem nodes_agree:
  assumes "net_reaches C W D (\<lambda>_. True) N N'"
    and "\<forall>k\<in>{i, j}. filed C (net_dag N k) \<and> ledger_ok (g_state (net_dag N k))"
    and "same_accounts (g_state (net_dag N i)) (g_state (net_dag N j))"
    and "graph_txs (net_dag N i) = graph_txs (net_dag N j)" "graph_txs (net_dag N' i) = graph_txs (net_dag N' j)"
  shows "same_accounts (g_state (net_dag N' i)) (g_state (net_dag N' j)) \<and>
    state_hash C (g_state (net_dag N' i)) = state_hash C (g_state (net_dag N' j))"
proof -
  have from_start: "ledger_from C (net_dag N k) (net_dag N' k)" if "k \<in> {i, j}" for k
    using determined.net_any [OF assms(1) TrueI ledger_from_start] assms(2) that by blast
  then have "same_accounts (g_state (net_dag N' i)) (g_state (net_dag N' j))"
    using ledger_from_agree [OF _ _ assms(3-5)] by blast
  moreover have "ledger_ok (g_state (net_dag N' k))" if "k \<in> {i, j}" for k
    using from_start [OF that] by (simp add: ledger_from_def)
  ultimately show ?thesis using state_hash_same by blast
qed

text \<open>C11: A double spend splits the network for good: when a client submits two transactions with the same
  sender and nonce to two nodes that would take them, each node takes the one it gets, and in every
  later state of the network, whatever is sent, submitted or injected, neither node has the
  transaction of the other: nothing in the program resolves the conflict.\<close>

theorem double_spend_forks:
  fixes N :: "'d network" and D :: "('d, nat) ban_db" and ck ck' :: clock
  assumes "i \<noteq> j" "tx' \<noteq> tx" "nonce_key tx' = nonce_key tx"
    and "\<forall>k\<in>{i, j}. filed C (net_dag N k) \<and> tx \<notin> graph_txs (net_dag N k) \<and> tx' \<notin> graph_txs (net_dag N k)"
    and "admits ck (ls_node (nw_nodes N i)) tx" "acceptable C (net_dag N i) tx"
    and "admits ck' (ls_node (nw_nodes N j)) tx'" "acceptable C (net_dag N j) tx'"
    and "net_reaches C W D (\<lambda>_. True)
      (node_event C W D ck' j (RpcSubmit tx') (node_event C W D ck i (RpcSubmit tx) N)) N'"
  shows "tx \<in> graph_txs (net_dag N' i) \<and> tx' \<notin> graph_txs (net_dag N' i) \<and>
    tx' \<in> graph_txs (net_dag N' j) \<and> tx \<notin> graph_txs (net_dag N' j)"
proof -
  let ?N = "node_event C W D ck' j (RpcSubmit tx') (node_event C W D ck i (RpcSubmit tx) N)"
  have "shut_out C tx tx' (net_dag ?N i)"
    using accepted_shuts_out [OF assms(6) _ _ assms(2,3)] assms(1,4)
    by (simp add: node_event_nodes rpc_node submit_accepts(1) [OF assms(5,6)])
  moreover have "shut_out C tx' tx (net_dag ?N j)"
    using accepted_shuts_out [OF assms(8) _ _ assms(2) [symmetric] assms(3) [symmetric]] assms(1,4)
    by (simp add: node_event_nodes rpc_node submit_accepts(1) [OF assms(7,8)])
  ultimately have "shut_out C tx tx' (net_dag N' i)" "shut_out C tx' tx (net_dag N' j)"
    using rivals.net_any [OF assms(9) TrueI] by blast+
  then show ?thesis by (simp add: shut_out_def)
qed


section \<open>Witnesses\<close>

text \<open>Nodes that all start from the graph with two funded accounts.\<close>

definition demo_net :: "nat list network" where
  "demo_net = \<lparr>nw_nodes = \<lambda>_. \<lparr>ls_node = node2, ls_banned = [], ls_actions = []\<rparr>, nw_wire = {}\<rparr>"

abbreviation demo_event :: "nat \<Rightarrow> nat loop_event \<Rightarrow> nat list network \<Rightarrow> nat list network" where
  "demo_event \<equiv> node_event demo_crypto demo_wire demo_bans demo_clock"

lemma demo_net_parts:
  "net_dag demo_net i = graph2" "rn_limiter (ls_node (nw_nodes demo_net i)) = limiter_new 100"
  "rn_tx_sender (ls_node (nw_nodes demo_net i)) = []" "mp_txs (rn_mempool (ls_node (nw_nodes demo_net i))) = []"
  "ls_actions (nw_nodes demo_net i) = []" "nw_wire demo_net = {}"
  using node2_parts
  by (simp_all add: demo_net_def) (simp_all add: node2_def node_new_def mempool_new_def Let_def with_dag_def)

lemma demo_wire_ok: "wire_ok demo_wire"
  by (simp add: wire_ok_def demo_wire_def)

lemma demo_net_clean: "net_clean W ok demo_net"
  by (simp add: net_clean_def demo_net_parts pending_ok_def)

lemma graph2_nodes: "g_nodes graph2 = [(tx_hash demo_crypto demo_genesis_tx,
    \<lparr>dn_tx = demo_genesis_tx, dn_hash = tx_hash demo_crypto demo_genesis_tx, dn_status = Confirmed,
     dn_children = [], dn_weight = 1, dn_depth = 0\<rparr>)]"
  by (simp add: graph2_def demo_graph_def insert_genesis_def demo_genesis_tx_def is_genesis_def graph_new_def
      builder_new_def zero_hash_def is_zero_def Let_def)

lemma graph2_filed: "filed demo_crypto graph2" "graph_txs graph2 = {demo_genesis_tx}"
  by (simp_all add: filed_def all_nodes_def get_node_def graph_txs_def graph2_nodes)

lemma demo_admits: "admits ck (ls_node (nw_nodes demo_net i)) tx"
  by (simp add: admits_def demo_net_parts demo_limiter_admits)

lemma transfer_fields:
  "tx_sender demo_transfer = demo_addr" "tx_nonce demo_transfer = 1" "tx_amount demo_transfer = 250"
  "tx_fee demo_transfer = 1000000" "tx_parent_1 demo_transfer = tx_hash demo_crypto demo_genesis_tx"
  "tx_parent_2 demo_transfer = tx_hash demo_crypto demo_genesis_tx" "tx_data demo_transfer = []"
  "tx_sender_pubkey demo_transfer = kp_public_key demo_kp"
  by (simp_all add: demo_transfer_def builder_parents_def builder_new_def)

lemma transfer_acceptable: "acceptable demo_crypto graph2 demo_transfer"
proof -
  have "ledger_total (g_state graph2) = 8000000" by (simp add: graph2_parts)
  then have "unat (sat_add (total_circulating (g_state graph2)) 250) \<le> unat SUPPLY_CAP"
    by (simp add: unat_sat_add total_circulating_small)
  then show ?thesis
    using demo_hashes addr2_not_demo
    by (simp add: acceptable_def demo_valid transfer_fields graph2_parts conflicts_new_def word_le_unat)
qed

lemma rivals_differ:
  "demo_transfer \<noteq> demo_spend demo_kp 1" "demo_transfer \<noteq> demo_genesis_tx" "demo_spend demo_kp 1 \<noteq> demo_genesis_tx"
proof -
  have "tx_data (demo_spend demo_kp 1) \<noteq> []" by (simp add: demo_spend_def)
  then show "demo_transfer \<noteq> demo_spend demo_kp 1" by (metis transfer_fields(7))
  have "tx_amount demo_genesis_tx = 5000000" by (simp add: demo_genesis_tx_def builder_new_def)
  then have "tx_amount demo_transfer \<noteq> tx_amount demo_genesis_tx"
    "tx_amount (demo_spend demo_kp 1) \<noteq> tx_amount demo_genesis_tx"
    unfolding transfer_fields demo_spend_fields by simp_all
  then show "demo_transfer \<noteq> demo_genesis_tx" "demo_spend demo_kp 1 \<noteq> demo_genesis_tx" by metis+
qed

theorem double_spend_forks_witness:
  "demo_transfer \<notin> graph_txs (net_dag (demo_event 1 (RpcSubmit demo_transfer)
     (demo_event 0 (RpcSubmit (demo_spend demo_kp 1)) demo_net)) 0)"
proof -
  let ?N = "demo_event 1 (RpcSubmit demo_transfer) (demo_event 0 (RpcSubmit (demo_spend demo_kp 1)) demo_net)"
  have "nonce_key demo_transfer = nonce_key (demo_spend demo_kp 1)"
    by (simp add: nonce_key_def transfer_fields demo_addr_def)
  from double_spend_forks [OF _ rivals_differ(1) this _ demo_admits _ demo_admits _ net_here, of 0 1]
  show ?thesis
    using rivals_differ by (auto simp: demo_net_parts graph2_filed spend2_acceptable transfer_acceptable)
qed


lemma kp_addresses:
  "from_public_key demo_crypto (kp_public_key demo_kp) = demo_addr" "from_public_key demo_crypto (kp_public_key kp2) = addr2"
  by (simp_all add: demo_addr_def addr2_def)


theorem cold_account_safe_witness:
  "3000000 \<le> balance (g_state (net_dag (demo_event 0 (RpcSubmit demo_transfer) demo_net) 0)) addr2"
proof -
  have "authorised demo_crypto addr2 {} demo_transfer"
    using addr2_not_demo by (simp add: authorised_def transfer_fields kp_addresses)
  then have "net_reaches demo_crypto demo_wire demo_bans (authorised demo_crypto addr2 {}) demo_net
      (demo_event 0 (RpcSubmit demo_transfer) demo_net)"
    by (intro net_local net_here) auto
  moreover have "ledger_total (g_state (net_dag demo_net 0)) < 2 ^ 64" by (simp add: demo_net_parts graph2_parts)
  ultimately show ?thesis
    using cold_account_safe [OF demo_wire_ok _ demo_net_clean, of demo_crypto demo_bans addr2 _ 0] addr2_not_demo
    by (fastforce simp: demo_net_parts graph2_parts)
qed

text \<open>Two nodes take the same two transactions in opposite order.\<close>

definition crossed :: "nat list network" where
  "crossed = demo_event 1 (RpcSubmit (demo_spend kp2 1)) (demo_event 1 (RpcSubmit (demo_spend demo_kp 1))
     (demo_event 0 (RpcSubmit (demo_spend demo_kp 1)) (demo_event 0 (RpcSubmit (demo_spend kp2 1)) demo_net)))"

lemma submit_two_txs:
  assumes "rn_limiter n = limiter_new 100" "filed C (node_dag n)" "acceptable C (node_dag n) tx"
    "acceptable C (accepted C (ck_instant ck) (lock_sender (node_dag n) tx) tx) tx'"
  shows "graph_txs (node_dag (snd (submit_transaction C ck (snd (submit_transaction C ck n tx)) tx')))
    = {tx', tx} \<union> graph_txs (node_dag n)"
proof -
  obtain r m where one: "submit_transaction C ck n tx = (r, m)" by fastforce
  have "admits ck n tx" by (simp add: admits_def assms(1) demo_limiter_admits)
  from submit_accepts(1) [OF this assms(3)] one
  have m: "node_dag m = accepted C (ck_instant ck) (lock_sender (node_dag n) tx) tx" by simp
  have "admits ck m tx'" unfolding admits_def by (rule limiter_admits_second [OF assms(1) one])
  from submit_accepts(1) [OF this] assms(4) one m accepted_filed(1,2) [OF assms(3,2)]
    accepted_filed(2) [OF assms(4)] show ?thesis by simp
qed

theorem nodes_agree_witness:
  "same_accounts (g_state (net_dag crossed 0)) (g_state (net_dag crossed 1))"
proof -
  let ?A = "demo_spend kp2 1" and ?B = "demo_spend demo_kp 1"
  have senders: "tx_sender ?B \<noteq> tx_sender ?A" "tx_hash demo_crypto ?B \<noteq> tx_hash demo_crypto ?A"
    using spend_hashes(1) by (simp_all add: kp_addresses addr2_not_demo [symmetric])
  have small: "ledger_total (g_state graph2) < 2 ^ 64" by (simp add: graph2_parts)
  note later = acceptable_after [OF spend2_acceptable senders small]
    acceptable_after [OF spend2_acceptable(2,1) senders [symmetric] small]
  have "net_reaches demo_crypto demo_wire demo_bans (\<lambda>_. True) demo_net crossed"
    unfolding crossed_def by (intro net_local net_here) simp_all
  moreover have "graph_txs (net_dag crossed 0) = {?A, ?B, demo_genesis_tx}"
    "graph_txs (net_dag crossed 1) = {?A, ?B, demo_genesis_tx}"
    using submit_two_txs [of "ls_node (nw_nodes demo_net 0)" demo_crypto ?A demo_clock ?B]
      submit_two_txs [of "ls_node (nw_nodes demo_net 1)" demo_crypto ?B demo_clock ?A] later
    by (auto simp: crossed_def node_event_nodes rpc_node demo_net_parts graph2_filed spend2_acceptable)
  ultimately show ?thesis
    using nodes_agree [of demo_crypto demo_wire demo_bans demo_net crossed 0 1]
    by (simp add: demo_net_parts graph2_filed graph2_parts same_accounts_def)
qed

end
