(* ===== verification/VoteForgery.thy ===== *)
theory VoteForgery
  imports Gossip
begin

text \<open>
  Votes on the network: a vote message names its voter and carries no signature, so whoever can reach a
  node can cast the votes of all its validators. The attack is a run of the network of \<open>Gossip\<close> in
  which nobody submits a transaction and nobody forges a signature.
\<close>

text \<open>A message that decodes to an accepting vote on \<open>h\<close> in the name of \<open>nm\<close>.\<close>

definition vote_message :: "wire \<Rightarrow> transaction_hash \<Rightarrow> string \<Rightarrow> bytes \<Rightarrow> bool" where
  "vote_message W h nm data \<longleftrightarrow>
     (case message_from_bytes W data of
        Inl _ \<Rightarrow> False
      | Inr m \<Rightarrow> nm_msg_type m = VoteResponse \<and>
          dec_vote W (nm_payload m) = Inr \<lparr>vp_tx_hash = h, vp_accept = True, vp_node_id = nm\<rparr>)"

definition vote_as :: "u64 \<Rightarrow> transaction_hash \<Rightarrow> string \<Rightarrow> vote" where
  "vote_as now h nm = \<lparr>vt_voter = NodeId nm, vt_tx_hash = h, vt_accept = True, vt_timestamp = now\<rparr>"

lemma vote_message_effect:
  assumes "vote_message W h nm data"
  shows "carries W ok data"
    and "rn_consensus (ls_node (loop_step C W D ck s (Swarm (GossipMessage p data)))) =
      receive_vote (ck_ms ck) (rn_consensus (ls_node s)) (vote_as (ck_ms ck) h nm)"
  using assms
  by (auto simp: vote_message_def carries_def gossip_tx_def loop_step_def handle_gossip_def handle_vote_response_def
      process_remote_vote_def vote_as_def Let_def split: sum.splits)

text \<open>The engine of a node after injected votes.\<close>

lemma injected_votes:
  fixes ck :: clock
  assumes "\<forall>nm\<in>set names. \<exists>data. vote_message W h nm data"
  shows "\<exists>N'. net_reaches C W D (\<lambda>_. False) N N' \<and>
    rn_consensus (ls_node (nw_nodes N' i)) =
      foldl (receive_vote (ck_ms ck)) (rn_consensus (ls_node (nw_nodes N i))) (map (vote_as (ck_ms ck) h) names)"
  using assms
proof (induction names rule: rev_induct)
  case Nil
  show ?case by (auto intro: net_here)
next
  case (snoc nm names)
  then obtain N' data where N': "net_reaches C W D (\<lambda>_. False) N N'"
    "rn_consensus (ls_node (nw_nodes N' i)) =
      foldl (receive_vote (ck_ms ck)) (rn_consensus (ls_node (nw_nodes N i))) (map (vote_as (ck_ms ck) h) names)"
    and data: "vote_message W h nm data" by auto
  let ?N = "N'\<lparr>nw_wire := insert data (nw_wire N')\<rparr>"
  have "net_reaches C W D (\<lambda>_. False) N ?N"
    by (rule net_inject [OF N'(1) vote_message_effect(1) [OF data]])
  then have "net_reaches C W D (\<lambda>_. False) N (node_event C W D ck i (Swarm (GossipMessage 0 data)) ?N)"
    by (rule net_gossip) simp
  moreover have "rn_consensus (ls_node (nw_nodes (node_event C W D ck i (Swarm (GossipMessage 0 data)) ?N) i))
      = receive_vote (ck_ms ck) (rn_consensus (ls_node (nw_nodes N' i))) (vote_as (ck_ms ck) h nm)"
    by (simp add: node_event_nodes vote_message_effect(2) [OF data])
  ultimately show ?case using N'(2) by (intro exI conjI) simp_all
qed

lemma vote_as_admitted:
  "map_of (ce_validators e) (NodeId nm) = Some p \<Longrightarrow> cc_min_validator_voting_power (ce_config e) \<le> p \<Longrightarrow>
     admitted now e (vote_as now h nm) = Some p"
  by (simp add: admitted_def vote_as_def sat_sub_def not_less)

section \<open>Properties\<close>

text \<open>C12: Anyone can finalize any transaction at a node whose registered validators can: take validators of
  pairwise different names, each with at least the minimum power that the engine asks of a voter, that
  are at least as many as the quorum (one or more, fewer than \<open>2 ^ 64\<close>) and whose powers, zero counting as
  one, sum to at least the quorum weight (and to less than \<open>2 ^ 128 / 10000\<close>), and a threshold of at most 100 percent. Then a peer that forges no signature and
  submits no transaction can bring the engine to emit the acceptance of any hash that has no votes yet, by
  sending one vote message in the name of each of them (for a codec in which such messages exist).\<close>

theorem forged_votes_finalize:
  fixes N :: "'d network" and D :: "('d, nat) ban_db" and ck :: clock and power_of :: "string \<Rightarrow> u64"
  defines "e \<equiv> \<lambda>i. rn_consensus (ls_node (nw_nodes N i))"
  assumes "\<forall>nm\<in>set names. (\<exists>data. vote_message W h nm data) \<and>
      map_of (ce_validators (e i)) (NodeId nm) = Some (power_of nm) \<and>
      cc_min_validator_voting_power (ce_config (e i)) \<le> power_of nm"
    and "distinct names" "names \<noteq> []" "tally_at (ce_aggregator (e i)) h = empty_tally"
    and "(\<Sum>nm\<leftarrow>names. max (unat (power_of nm)) 1) * 10000 < 2 ^ 128" "length names < 2 ^ 64"
    and "unat (va_threshold_bps (ce_aggregator (e i))) \<le> 10000"
    and "unat (va_quorum (ce_aggregator (e i))) \<le> length names"
    and "unat (va_quorum_weight (ce_aggregator (e i))) \<le> (\<Sum>nm\<leftarrow>names. max (unat (power_of nm)) 1)"
  shows "\<exists>N'. net_reaches C W D (\<lambda>_. False) N N' \<and>
    Finalized h True \<in> set (ce_events (rn_consensus (ls_node (nw_nodes N' i))))"
proof -
  let ?vs = "map (\<lambda>nm. (vote_as (ck_ms ck) h nm, power_of nm)) names"
  have cast: "map fst ?vs = map (vote_as (ck_ms ck) h) names" by simp
  have total: "powers ?vs = (\<Sum>nm\<leftarrow>names. max (unat (power_of nm)) 1)" by (simp add: powers_def comp_def)
  have "\<forall>vp\<in>set ?vs. admitted (ck_ms ck) (e i) (fst vp) = Some (snd vp) \<and> vt_tx_hash (fst vp) = h \<and> vt_accept (fst vp)"
    using assms(2) by (auto simp: vote_as_admitted) (simp_all add: vote_as_def)
  moreover have "distinct (map (\<lambda>(v, p). vt_voter v) ?vs)"
    using assms(3) by (simp add: comp_def vote_as_def distinct_map inj_on_def)
  ultimately have "Finalized h True \<in> set (ce_events (foldl (receive_vote (ck_ms ck)) (e i) (map fst ?vs)))"
    by (rule quorum_enough) (use assms(4-10) total in simp_all)
  moreover obtain N' where "net_reaches C W D (\<lambda>_. False) N N'"
    "rn_consensus (ls_node (nw_nodes N' i)) = foldl (receive_vote (ck_ms ck)) (e i) (map (vote_as (ck_ms ck) h) names)"
    using injected_votes [of names W h C D N i ck] assms(2) unfolding e_def by blast
  ultimately show ?thesis unfolding cast by metis
qed

section \<open>Witness\<close>

text \<open>A node with two validators, and a codec whose payloads are the names of the voters.\<close>

definition vote_wire :: wire where
  "vote_wire = demo_wire\<lparr>dec_msg := \<lambda>b. Inr (message_new 0 VoteResponse b),
     dec_vote := \<lambda>b. Inr \<lparr>vp_tx_hash = zero_hash, vp_accept = True, vp_node_id = map byte_char b\<rparr>\<rparr>"

definition voting_net :: "nat list network" where
  "voting_net = demo_net\<lparr>nw_nodes := \<lambda>_. \<lparr>ls_node = node2\<lparr>rn_consensus := demo_engine\<rparr>, ls_banned = [], ls_actions = []\<rparr>\<rparr>"

lemma vote_wire_messages: "\<exists>data. vote_message vote_wire zero_hash nm data"
proof -
  have "vote_message vote_wire zero_hash nm (string_bytes nm)"
    by (simp add: vote_message_def vote_wire_def message_from_bytes_def message_new_def)
  then show ?thesis by blast
qed

theorem forged_votes_finalize_witness:
  "\<exists>N'. net_reaches demo_crypto vote_wire demo_bans (\<lambda>_. False) voting_net N' \<and>
     Finalized zero_hash True \<in> set (ce_events (rn_consensus (ls_node (nw_nodes N' 3))))"
proof -
  have e: "rn_consensus (ls_node (nw_nodes voting_net 3)) = demo_engine" by (simp add: voting_net_def)
  show ?thesis
    by (rule forged_votes_finalize [where names = "[''a'', ''b'']" and power_of = "\<lambda>nm. if nm = ''a'' then 1 else 5"])
      (unfold e, simp_all add: vote_wire_messages demo_rules with_weighted_quorum_def tally_at_def,
       simp_all add: demo_config_def default_consensus_config_def)
qed

end
