(* ===== verification/Threads.thy ===== *)
theory Threads
  imports Node GraphShape
begin

text \<open>
  \<open>DagGraph::insert\<close> (\<open>graph.rs\<close>) is called by the event loop and by every task of the RPC server
  at the same time. \<open>Graph\<close> has it as one atomic function; here it is the program of a thread: a
  program counter, and one step per access to the shared state. The maps are \<open>DashMap\<close>s, so each
  access to one key is atomic; the sender's mutex is taken and released by steps of its own. The
  walk of \<open>total_circulating\<close> over all accounts is not atomic: the sum it returns is an argument
  \<open>seen\<close> of the step, any value at all. This theory holds the threads, the equality of a thread
  that runs alone with \<open>Graph.dag_insert\<close>, mutual exclusion, and progress.
\<close>

section \<open>The program of a thread\<close>

text \<open>The updates of the graph at the end of \<open>insert\<close>, in their order.\<close>

datatype link_op =
    AddChild transaction_hash | AddWeight transaction_hash | DropTip transaction_hash
  | NewTip | PutNode | CountUp

datatype pc =
    Start | LockEntry | Lock | CheckDuplicate | CheckParent1 | CheckParent2 | CheckSupply
  | CheckBalance | CheckConflicts u64 u64 | CheckNonce u64 | DoDebit u64 | DoCredit | DoNonce
  | DoCommit | Depth1 | Depth2 u64 | RaiseDepth u64 | Linking u64 "link_op list"
  | Unlock "transaction_hash result" | Finished "transaction_hash result"

definition link_ops :: "transaction \<Rightarrow> link_op list" where
  "link_ops tx =
     (if is_genesis tx then []
      else [AddChild (tx_parent_1 tx), AddChild (tx_parent_2 tx),
            AddWeight (tx_parent_1 tx), AddWeight (tx_parent_2 tx)])
     @ [DropTip (tx_parent_1 tx), DropTip (tx_parent_2 tx), NewTip, PutNode, CountUp]"

fun link_step ::
    "crypto \<Rightarrow> nat \<Rightarrow> transaction \<Rightarrow> u64 \<Rightarrow> link_op \<Rightarrow> dag_graph \<Rightarrow> dag_graph" where
  "link_step C now tx depth (AddChild p) g = add_child g p (tx_hash C tx)"
| "link_step C now tx depth (AddWeight p) g = propagate_weight g p"
| "link_step C now tx depth (DropTip p) g = g\<lparr>g_tips := remove_tip (g_tips g) p\<rparr>"
| "link_step C now tx depth NewTip g = g\<lparr>g_tips := add_tip now (g_tips g) (tx_hash C tx)\<rparr>"
| "link_step C now tx depth PutNode g =
     g\<lparr>g_nodes := AList.update (tx_hash C tx)
        \<lparr>dn_tx = tx, dn_hash = tx_hash C tx, dn_status = Pending, dn_children = [],
         dn_weight = 1, dn_depth = depth\<rparr> (g_nodes g)\<rparr>"
| "link_step C now tx depth CountUp g = g\<lparr>g_total_count := g_total_count g + 1\<rparr>"

text \<open>The steps that do not touch the mutex.\<close>

fun local_step ::
    "crypto \<Rightarrow> nat \<Rightarrow> u64 \<Rightarrow> dag_graph \<Rightarrow> transaction \<Rightarrow> pc \<Rightarrow> dag_graph \<times> pc" where
  "local_step C now seen g tx Start =
     (g, case validate C tx of
           Inl e \<Rightarrow> Finished (Inl e)
         | Inr _ \<Rightarrow>
             (case checked_add (tx_amount tx) (tx_fee tx) of
                None \<Rightarrow> Finished (Inl (InvalidTransaction ''amount overflow''))
              | Some total_debit \<Rightarrow>
                  let pre_balance = balance (g_state g) (tx_sender tx) in
                  if pre_balance < total_debit
                  then Finished (Inl (InsufficientBalance pre_balance total_debit)) else LockEntry))"
| "local_step C now seen g tx LockEntry = (lock_sender g tx, Lock)"
| "local_step C now seen g tx CheckDuplicate =
     (g, if has_key (g_nodes g) (tx_hash C tx)
           then Unlock (Inl (InvalidTransaction ''duplicate transaction''))
         else if is_genesis tx then CheckSupply else CheckParent1)"
| "local_step C now seen g tx CheckParent1 =
     (g, if has_key (g_nodes g) (tx_parent_1 tx) then CheckParent2
         else Unlock (Inl (InvalidParent (to_hex C (tx_parent_1 tx)))))"
| "local_step C now seen g tx CheckParent2 =
     (g, if has_key (g_nodes g) (tx_parent_2 tx) then CheckSupply
         else Unlock (Inl (InvalidParent (to_hex C (tx_parent_2 tx)))))"
| "local_step C now seen g tx CheckSupply =
     (g, if sat_add seen (tx_amount tx) > SUPPLY_CAP
         then Unlock (Inl (SupplyCapExceeded (cap_message tx))) else CheckBalance)"
| "local_step C now seen g tx CheckBalance =
     (g, case checked_add (tx_amount tx) (tx_fee tx) of
           None \<Rightarrow> Unlock (Inl (InvalidTransaction ''amount overflow''))
         | Some total_debit \<Rightarrow>
             let sender_balance = balance (g_state g) (tx_sender tx) in
             if sender_balance < total_debit
             then Unlock (Inl (InsufficientBalance sender_balance total_debit))
             else CheckConflicts total_debit sender_balance)"
| "local_step C now seen g tx (CheckConflicts total_debit sender_balance) =
     (g, case check_transaction (g_conflicts g) tx sender_balance 0 of
           NoConflict \<Rightarrow> CheckNonce total_debit
         | NonceConflict _ _ _ \<Rightarrow> Unlock (Inl (DuplicateNonce (tx_nonce tx)))
         | DoubleSpendConflict _ _ _ \<Rightarrow> Unlock (Inl (DoubleSpend (to_hex C (tx_hash C tx)))))"
| "local_step C now seen g tx (CheckNonce total_debit) =
     (g, if tx_nonce tx \<noteq> nonce (g_state g) (tx_sender tx) + 1
         then Unlock (Inl (DuplicateNonce (tx_nonce tx))) else DoDebit total_debit)"
| "local_step C now seen g tx (DoDebit total_debit) =
     (case debit (g_state g) (tx_sender tx) total_debit of
        (Inl e, st) \<Rightarrow> (g\<lparr>g_state := st\<rparr>, Unlock (Inl e))
      | (Inr _, st) \<Rightarrow> (g\<lparr>g_state := st\<rparr>, DoCredit))"
| "local_step C now seen g tx DoCredit =
     (g\<lparr>g_state := credit (g_state g) (tx_receiver tx) (tx_amount tx)\<rparr>, DoNonce)"
| "local_step C now seen g tx DoNonce =
     (g\<lparr>g_state := increment_nonce (g_state g) (tx_sender tx)\<rparr>, DoCommit)"
| "local_step C now seen g tx DoCommit =
     (g\<lparr>g_conflicts := commit_transaction C (g_conflicts g) tx\<rparr>,
      if is_genesis tx then RaiseDepth 0 else Depth1)"
| "local_step C now seen g tx Depth1 = (g, Depth2 (node_depth g (tx_parent_1 tx)))"
| "local_step C now seen g tx (Depth2 d1) =
     (g, RaiseDepth (max d1 (node_depth g (tx_parent_2 tx)) + 1))"
| "local_step C now seen g tx (RaiseDepth depth) =
     (if depth \<le> g_max_depth g then g else g\<lparr>g_max_depth := depth\<rparr>, Linking depth (link_ops tx))"
| "local_step C now seen g tx (Linking depth (op # ops)) =
     (link_step C now tx depth op g, Linking depth ops)"
| "local_step C now seen g tx (Linking depth []) = (g, Unlock (Inr (tx_hash C tx)))"
| "local_step C now seen g tx pc = (g, pc)"

type_synonym owners = "string \<Rightarrow> nat option"

text \<open>A step of thread \<open>i\<close>; \<open>None\<close> when it waits for the mutex or has returned.\<close>

fun thread_step ::
    "crypto \<Rightarrow> nat \<Rightarrow> u64 \<Rightarrow> nat \<Rightarrow> dag_graph \<times> owners \<Rightarrow> transaction \<Rightarrow> pc \<Rightarrow>
     ((dag_graph \<times> owners) \<times> pc) option" where
  "thread_step C now seen i (g, held) tx Lock =
     (if held (as_str (tx_sender tx)) = None
      then Some ((g, held(as_str (tx_sender tx) \<mapsto> i)), CheckDuplicate) else None)"
| "thread_step C now seen i (g, held) tx (Unlock r) =
     Some ((g, held(as_str (tx_sender tx) := None)), Finished r)"
| "thread_step C now seen i (g, held) tx (Finished r) = None"
| "thread_step C now seen i (g, held) tx pc =
     (let (g', pc') = local_step C now seen g tx pc in Some ((g', held), pc'))"

section \<open>All threads\<close>

text \<open>
  The history \<open>cg_log\<close> is not in the program: it lists the transactions in the order of their
  credits, for the statements about the order of effects.
\<close>

record concurrent =
  cg_shared :: "dag_graph \<times> owners"
  cg_threads :: "(transaction \<times> pc) list"
  cg_log :: "transaction list"

definition cg_graph :: "concurrent \<Rightarrow> dag_graph" where
  "cg_graph s = fst (cg_shared s)"

definition cg_held :: "concurrent \<Rightarrow> owners" where
  "cg_held s = snd (cg_shared s)"

definition launch :: "dag_graph \<Rightarrow> transaction list \<Rightarrow> concurrent" where
  "launch g txs = \<lparr>cg_shared = (g, Map.empty), cg_threads = map (\<lambda>tx. (tx, Start)) txs, cg_log = []\<rparr>"

definition schedule ::
    "crypto \<Rightarrow> concurrent \<Rightarrow> nat \<times> nat \<times> u64 \<Rightarrow> concurrent option" where
  "schedule C s = (\<lambda>(i, now, seen).
     if i < length (cg_threads s) then
       let (tx, pc) = cg_threads s ! i in
       case thread_step C now seen i (cg_shared s) tx pc of
         None \<Rightarrow> None
       | Some (shared, pc') \<Rightarrow>
           Some \<lparr>cg_shared = shared, cg_threads = (cg_threads s)[i := (tx, pc')],
                 cg_log = cg_log s @ (if pc = DoCredit then [tx] else [])\<rparr>
     else None)"

inductive interleave :: "crypto \<Rightarrow> concurrent \<Rightarrow> concurrent \<Rightarrow> bool" for C where
  "schedule C s choice = Some s' \<Longrightarrow> interleave C s s'"

section \<open>A thread alone\<close>

text \<open>Without interference \<open>total_circulating\<close> sees the ledger as it is.\<close>

inductive alone ::
    "crypto \<Rightarrow> nat \<Rightarrow> nat \<Rightarrow> dag_graph \<times> owners \<Rightarrow> transaction \<Rightarrow> pc \<Rightarrow>
     (dag_graph \<times> owners) \<times> transaction_hash result \<Rightarrow> bool" for C now i where
  alone_returned: "alone C now i shared tx (Finished r) (shared, r)"
| alone_step: "thread_step C now (total_circulating (g_state (fst shared))) i shared tx pc = Some (shared', pc') \<Longrightarrow>
    alone C now i shared' tx pc' out \<Longrightarrow> alone C now i shared tx pc out"

lemma alone_Finished [simp]: "alone C now i shared tx (Finished r) out \<longleftrightarrow> out = (shared, r)"
  by (cases shared) (auto elim: alone.cases intro: alone.intros)

lemma alone_unfold:
  "thread_step C now (total_circulating (g_state (fst shared))) i shared tx pc = Some (shared', pc') \<Longrightarrow>
     alone C now i shared tx pc out \<longleftrightarrow> alone C now i shared' tx pc' out"
  by (cases shared) (auto elim: alone.cases intro: alone_step)

lemma alone_link:
  assumes "d = (if is_genesis tx then 0
    else max (node_depth g (tx_parent_1 tx)) (node_depth g (tx_parent_2 tx)) + 1)"
  shows "alone C now i (g, held) tx (RaiseDepth d)
    ((attach now g tx (tx_hash C tx), held(as_str (tx_sender tx) := None)), Inr (tx_hash C tx))"
  using assms
  by (simp add: alone_unfold link_ops_def attach_def Let_def add_child_def propagate_weight_def)

lemma alone_commit:
  "alone C now i (g, held) tx DoCommit
    ((attach now (g\<lparr>g_conflicts := commit_transaction C (g_conflicts g) tx\<rparr>) tx (tx_hash C tx),
      held(as_str (tx_sender tx) := None)), Inr (tx_hash C tx))"
  using alone_link [of _ tx "g\<lparr>g_conflicts := commit_transaction C (g_conflicts g) tx\<rparr>" C now i held]
  by (simp add: alone_unfold [where pc = DoCommit] alone_unfold [where pc = Depth1]
      alone_unfold [where pc = "Depth2 d" for d] node_depth_def split: if_splits)

lemma alone_debit:
  assumes "debit (g_state g) (tx_sender tx) v = (q, st)"
  shows "alone C now i (g, held) tx (DoDebit v)
    ((case q of Inl _ \<Rightarrow> g\<lparr>g_state := st\<rparr>
      | Inr _ \<Rightarrow> attach now (g\<lparr>g_state := increment_nonce (credit st (tx_receiver tx) (tx_amount tx)) (tx_sender tx),
          g_conflicts := commit_transaction C (g_conflicts g) tx\<rparr>) tx (tx_hash C tx),
      held(as_str (tx_sender tx) := None)), case q of Inl e \<Rightarrow> Inl e | Inr _ \<Rightarrow> Inr (tx_hash C tx))"
proof (cases q)
  case (Inl e)
  with assms show ?thesis by (simp add: alone_unfold)
next
  case (Inr u)
  with assms show ?thesis
    using alone_commit [of C now i "g\<lparr>g_state := increment_nonce (credit st (tx_receiver tx) (tx_amount tx)) (tx_sender tx)\<rparr>" held tx]
    by (simp add: alone_unfold [where pc = "DoDebit v"] alone_unfold [where pc = DoCredit] alone_unfold [where pc = DoNonce])
qed

text \<open>The branches of the checks under the lock, and the rest by \<open>alone_debit\<close>.\<close>

lemmas alone_checks = alone_unfold [where pc = CheckDuplicate] alone_unfold [where pc = CheckParent1]
  alone_unfold [where pc = CheckParent2] alone_unfold [where pc = CheckSupply]
  alone_unfold [where pc = CheckBalance] alone_unfold [where pc = "CheckConflicts d b" for d b]
  alone_unfold [where pc = "CheckNonce d" for d] alone_unfold [where pc = "Unlock r" for r]

lemma alone_locked:
  "alone C now i (g, held) tx CheckDuplicate
    ((snd (insert_locked C now g tx), held(as_str (tx_sender tx) := None)), fst (insert_locked C now g tx))"
proof (cases "checked_add (tx_amount tx) (tx_fee tx)")
  case None
  then show ?thesis by (simp add: alone_checks insert_locked_def Let_def)
next
  case (Some v)
  obtain q st where d: "debit (g_state g) (tx_sender tx) v = (q, st)" by fastforce
  show ?thesis
  proof (cases "check_transaction (g_conflicts g) tx (balance (g_state g) (tx_sender tx)) 0")
    case NoConflict
    then show ?thesis using Some alone_debit [OF d, of C now i held] d
      by (cases q) (simp_all add: alone_checks insert_locked_def Let_def)
  qed (simp_all add: Some alone_checks insert_locked_def Let_def)
qed

lemma alone_insert:
  assumes "held (as_str (tx_sender tx)) = None"
  shows "alone C now i (g, held) tx Start ((snd (dag_insert C now g tx), held), fst (dag_insert C now g tx))"
proof -
  have "held(as_str (tx_sender tx) := None) = held" using assms by auto
  with alone_locked [of C now i "lock_sender g tx" "held(as_str (tx_sender tx) \<mapsto> i)" tx] assms show ?thesis
    by (auto simp: alone_unfold [where pc = Start] alone_unfold [where pc = LockEntry]
        alone_unfold [where pc = Lock] dag_insert_eq Let_def split: sum.splits option.splits)
qed

section \<open>Steps\<close>

fun inside :: "pc \<Rightarrow> bool" where
  "inside Start = False"
| "inside LockEntry = False"
| "inside Lock = False"
| "inside (Finished r) = False"
| "inside pc = True"

fun rank :: "pc \<Rightarrow> nat" where
  "rank Start = 28" | "rank LockEntry = 27" | "rank Lock = 26" | "rank CheckDuplicate = 25"
| "rank CheckParent1 = 24" | "rank CheckParent2 = 23" | "rank CheckSupply = 22"
| "rank CheckBalance = 21" | "rank (CheckConflicts d b) = 20" | "rank (CheckNonce d) = 19"
| "rank (DoDebit d) = 18" | "rank DoCredit = 17" | "rank DoNonce = 16" | "rank DoCommit = 15"
| "rank Depth1 = 14" | "rank (Depth2 d) = 13" | "rank (RaiseDepth d) = 12"
| "rank (Linking d ops) = 2 + length ops" | "rank (Unlock r) = 1" | "rank (Finished r) = 0"

definition free_running :: "pc \<Rightarrow> bool" where
  "free_running pc \<longleftrightarrow> pc \<noteq> Lock \<and> (\<forall>r. pc \<noteq> Unlock r) \<and> (\<forall>r. pc \<noteq> Finished r)"

lemma thread_step_cases:
  assumes "thread_step C now seen i (g, held) tx pc = Some (shared, pc')"
  obtains (acquire) "pc = Lock" "held (as_str (tx_sender tx)) = None"
      "shared = (g, held(as_str (tx_sender tx) \<mapsto> i))" "pc' = CheckDuplicate"
    | (release) r where "pc = Unlock r" "shared = (g, held(as_str (tx_sender tx) := None))" "pc' = Finished r"
    | (free) g' where "free_running pc" "local_step C now seen g tx pc = (g', pc')" "shared = (g', held)"
  using assms by (cases pc) (auto simp: free_running_def split: if_splits prod.splits)

lemma free_thread_step:
  "free_running pc \<Longrightarrow> thread_step C now seen i (g, held) tx pc =
     Some ((fst (local_step C now seen g tx pc), held), snd (local_step C now seen g tx pc))"
  by (cases pc) (simp_all add: free_running_def case_prod_beta)

lemma length_link_ops: "length (link_ops tx) \<le> 9"
  by (simp add: link_ops_def)

lemma local_step_rank:
  "free_running pc \<Longrightarrow> local_step C now seen g tx pc = (g', pc') \<Longrightarrow> inside pc' = inside pc \<and> rank pc' < rank pc"
  using length_link_ops [of tx]
  by (induction C now seen g tx pc rule: local_step.induct)
    (auto simp: free_running_def Let_def split: sum.splits option.splits if_splits conflict_result.splits prod.splits)

lemma interleave_cases:
  assumes "interleave C s s'"
  obtains i now seen tx pc shared pc' where "i < length (cg_threads s)" "cg_threads s ! i = (tx, pc)"
    "thread_step C now seen i (cg_graph s, cg_held s) tx pc = Some (shared, pc')"
    "s' = \<lparr>cg_shared = shared, cg_threads = (cg_threads s)[i := (tx, pc')],
           cg_log = cg_log s @ (if pc = DoCredit then [tx] else [])\<rparr>"
  using assms
  by (auto elim!: interleave.cases simp: schedule_def Let_def cg_graph_def cg_held_def
      split: if_splits option.splits prod.splits)

text \<open>The mutex of an address belongs to the thread that is in the section under it.\<close>

definition locks_ok :: "concurrent \<Rightarrow> bool" where
  "locks_ok s \<longleftrightarrow> (\<forall>a i. cg_held s a = Some i \<longleftrightarrow>
     i < length (cg_threads s) \<and> inside (snd (cg_threads s ! i)) \<and>
     as_str (tx_sender (fst (cg_threads s ! i))) = a)"

lemma locks_ok_step: "interleave C s s' \<Longrightarrow> locks_ok s \<Longrightarrow> locks_ok s'"
proof (erule interleave_cases)
  fix i now seen tx pc shared pc'
  assume i: "i < length (cg_threads s)" "cg_threads s ! i = (tx, pc)" and ok: "locks_ok s"
    and st: "thread_step C now seen i (cg_graph s, cg_held s) tx pc = Some (shared, pc')"
    and s': "s' = \<lparr>cg_shared = shared, cg_threads = (cg_threads s)[i := (tx, pc')],
      cg_log = cg_log s @ (if pc = DoCredit then [tx] else [])\<rparr>"
  have own: "inside pc \<longleftrightarrow> cg_held s (as_str (tx_sender tx)) = Some i" "cg_held s a = Some i \<Longrightarrow> a = as_str (tx_sender tx)" for a
    using ok i by (auto simp: locks_ok_def)
  have others: "j \<noteq> i \<Longrightarrow> cg_held s a = Some j \<longleftrightarrow> j < length (cg_threads s') \<and>
      inside (snd (cg_threads s' ! j)) \<and> as_str (tx_sender (fst (cg_threads s' ! j))) = a" for j a
    using ok by (simp add: locks_ok_def s')
  have "cg_held s' b = Some j \<longleftrightarrow> j < length (cg_threads s') \<and>
      inside (snd (cg_threads s' ! j)) \<and> as_str (tx_sender (fst (cg_threads s' ! j))) = b" for b j
  proof (cases "j = i")
    case True
    from st show ?thesis
    proof (cases rule: thread_step_cases)
      case (free g')
      with local_step_rank [OF free(1,2)] True i own(1) own(2) [of b] show ?thesis
        by (auto simp: s' cg_held_def)
    qed (use True i own(1) own(2) [of b] in \<open>auto simp: s' cg_held_def\<close>)
  next
    case False
    note others = others [OF this, of b]
    from st show ?thesis
      by (cases rule: thread_step_cases; cases "b = as_str (tx_sender tx)")
        (use False others own(1) in \<open>auto simp: s' cg_held_def\<close>)
  qed
  then show "locks_ok s'" unfolding locks_ok_def by blast
qed

lemma locks_ok_launch: "locks_ok (launch g txs)"
  by (auto simp: locks_ok_def launch_def cg_held_def)

lemma locks_ok_reach: "(interleave C)\<^sup>*\<^sup>* (launch g txs) s \<Longrightarrow> locks_ok s"
  by (induction rule: rtranclp_induct) (auto intro: locks_ok_launch locks_ok_step)

definition steps_left :: "concurrent \<Rightarrow> nat" where
  "steps_left s = sum_list (map (rank \<circ> snd) (cg_threads s))"

lemma sum_list_replace:
  "i < length xs \<Longrightarrow> sum_list (map f (xs[i := y])) + f (xs ! i) = sum_list (map f xs) + (f y :: 'm::comm_monoid_add)"
  by (induction xs arbitrary: i) (auto simp: ac_simps split: nat.split)

lemma thread_step_rank:
  assumes "thread_step C now seen i (g, held) tx pc = Some (shared, pc')" shows "rank pc' < rank pc"
  using assms by (cases rule: thread_step_cases) (auto dest: local_step_rank)

lemma interleave_steps_left: "interleave C s s' \<Longrightarrow> steps_left s' < steps_left s"
proof (erule interleave_cases)
  fix i now seen tx pc shared pc'
  assume i: "i < length (cg_threads s)" "cg_threads s ! i = (tx, pc)"
    and st: "thread_step C now seen i (cg_graph s, cg_held s) tx pc = Some (shared, pc')"
    and s': "s' = \<lparr>cg_shared = shared, cg_threads = (cg_threads s)[i := (tx, pc')],
      cg_log = cg_log s @ (if pc = DoCredit then [tx] else [])\<rparr>"
  from sum_list_replace [OF i(1), of "rank \<circ> snd" "(tx, pc')"] thread_step_rank [OF st] i(2)
  show "steps_left s' < steps_left s" by (simp add: steps_left_def s')
qed

lemma interleave_power: "(interleave C ^^ k) s s' \<Longrightarrow> k + steps_left s' \<le> steps_left s"
proof (induction k arbitrary: s')
  case (Suc k)
  then obtain t where "(interleave C ^^ k) s t" "interleave C t s'" by auto
  with Suc.IH [of t] interleave_steps_left [of C t s'] show ?case by simp
qed simp

lemma progress:
  assumes "locks_ok s" "p \<in> set (cg_threads s)" "\<forall>r. snd p \<noteq> Finished r"
  shows "\<exists>s'. interleave C s s'"
proof -
  have run: "\<exists>s'. interleave C s s'"
    if "i < length (cg_threads s)" "thread_step C 0 0 i (cg_graph s, cg_held s) (fst (cg_threads s ! i)) (snd (cg_threads s ! i)) = Some q" for i q
    using that by (intro exI interleave.intros [of C s "(i, 0, 0)"])
      (simp add: schedule_def cg_graph_def cg_held_def case_prod_beta)
  obtain i where i: "i < length (cg_threads s)" "cg_threads s ! i = p" using assms(2) by (auto simp: in_set_conv_nth)
  show ?thesis
  proof (cases "snd p = Lock")
    case False
    then have "free_running (snd p) \<or> (\<exists>r. snd p = Unlock r)" using assms(3) by (auto simp: free_running_def)
    then show ?thesis using run [OF i(1)] i(2) by (auto simp: free_thread_step)
  next
    case True
    show ?thesis
    proof (cases "cg_held s (as_str (tx_sender (fst p)))")
      case None
      then show ?thesis using run [OF i(1)] i(2) True by auto
    next
      case (Some j)
      with assms(1) have j: "j < length (cg_threads s)" "inside (snd (cg_threads s ! j))" by (auto simp: locks_ok_def)
      then have "free_running (snd (cg_threads s ! j)) \<or> (\<exists>r. snd (cg_threads s ! j) = Unlock r)"
        by (cases "snd (cg_threads s ! j)") (auto simp: free_running_def)
      then show ?thesis using run [OF j(1)] by (auto simp: free_thread_step)
    qed
  qed
qed

section \<open>Properties\<close>

text \<open>C19: A thread that runs alone is \<open>insert\<close>: with the sender's mutex free and no other thread in
  between, the program of the steps returns, with the result and the graph of the atomic
  \<open>dag_insert\<close>, and leaves the mutex free.\<close>

theorem thread_alone_is_insert:
  assumes "held (as_str (tx_sender tx)) = None"
  shows "alone C now i (g, held) tx Start ((snd (dag_insert C now g tx), held), fst (dag_insert C now g tx))"
  using assms by (rule alone_insert)

theorem thread_alone_is_insert_witness:
  "alone demo_crypto 5 0 (demo_graph, Map.empty) demo_transfer Start
     ((accepted demo_crypto 5 (lock_sender demo_graph demo_transfer) demo_transfer, Map.empty),
      Inr (tx_hash demo_crypto demo_transfer))"
  using thread_alone_is_insert [of Map.empty demo_transfer demo_crypto 5 0 demo_graph] by (simp add: demo_insert)

text \<open>C17: At no moment of any interleaving of any number of inserts are two threads inside the
  section of \<open>insert\<close> under the mutex for the same sender.\<close>

theorem one_insert_per_sender:
  assumes "(interleave C)\<^sup>*\<^sup>* (launch g txs) s" "i < length (cg_threads s)" "j < length (cg_threads s)"
    and "inside (snd (cg_threads s ! i))" "inside (snd (cg_threads s ! j))"
    and "tx_sender (fst (cg_threads s ! i)) = tx_sender (fst (cg_threads s ! j))"
  shows "i = j"
proof -
  let ?a = "as_str (tx_sender (fst (cg_threads s ! i)))"
  have "cg_held s ?a = Some i" "cg_held s ?a = Some j"
    using locks_ok_reach [OF assms(1)] assms(2-) by (simp_all add: locks_ok_def)
  then show ?thesis by simp
qed

text \<open>A run of two threads with the same transaction: the first has the mutex, the second waits.\<close>

fun run_schedule :: "crypto \<Rightarrow> concurrent \<Rightarrow> (nat \<times> nat \<times> u64) list \<Rightarrow> concurrent option" where
  "run_schedule C s [] = Some s"
| "run_schedule C s (c # cs) = (case schedule C s c of None \<Rightarrow> None | Some s' \<Rightarrow> run_schedule C s' cs)"

lemma run_schedule_reach: "run_schedule C s cs = Some s' \<Longrightarrow> (interleave C ^^ length cs) s s'"
proof (induction cs arbitrary: s)
  case (Cons c cs)
  then obtain t where "schedule C s c = Some t" "run_schedule C t cs = Some s'" by (auto split: option.splits)
  with Cons.IH show ?case by (auto intro: relpowp_Suc_I2 interleave.intros simp del: relpowp.simps)
qed simp

definition demo_race :: concurrent where
  "demo_race = \<lparr>cg_shared = (lock_sender demo_graph demo_transfer, [as_str demo_addr \<mapsto> 0]),
     cg_threads = [(demo_transfer, CheckParent1), (demo_transfer, Lock)], cg_log = []\<rparr>"

lemma demo_race_run:
  "run_schedule demo_crypto (launch demo_graph [demo_transfer, demo_transfer])
     [(0, 1, 0), (1, 1, 0), (0, 2, 0), (1, 2, 0), (0, 3, 0), (0, 4, 0)] = Some demo_race"
proof -
  have tx: "tx_amount demo_transfer = 250" "tx_fee demo_transfer = 1000000" "tx_sender demo_transfer = demo_addr"
    "\<not> is_genesis demo_transfer"
    by (simp_all add: demo_transfer_def builder_parents_def builder_new_def is_genesis_def)
  have "balance (g_state demo_graph) demo_addr = 5000000" by (simp add: demo_graph_parts demo_balance_credit)
  moreover have "lock_sender (lock_sender demo_graph demo_transfer) demo_transfer = lock_sender demo_graph demo_transfer"
    by (simp add: lock_sender_def)
  moreover have "checked_add (250 :: u64) 1000000 = Some 1000250" by (simp add: checked_add_def)
  moreover have "\<not> has_key (g_nodes demo_graph) (tx_hash demo_crypto demo_transfer)"
    using demo_hashes by (simp add: has_key_iff demo_graph_parts)
  ultimately show ?thesis
    by (simp add: schedule_def launch_def demo_race_def demo_valid tx)
qed

lemma demo_race_reached: "(interleave demo_crypto)\<^sup>*\<^sup>* (launch demo_graph [demo_transfer, demo_transfer]) demo_race"
  by (rule relpowp_imp_rtranclp [OF run_schedule_reach [OF demo_race_run]])

theorem one_insert_per_sender_witness:
  "inside (snd (cg_threads demo_race ! 0)) \<and> \<not> inside (snd (cg_threads demo_race ! 1))"
proof
  show "inside (snd (cg_threads demo_race ! 0))" by (simp add: demo_race_def)
  show "\<not> inside (snd (cg_threads demo_race ! 1))"
  proof
    assume "inside (snd (cg_threads demo_race ! 1))"
    then have "(1 :: nat) = 0"
      by (intro one_insert_per_sender [OF demo_race_reached]) (simp_all add: demo_race_def)
    then show False by simp
  qed
qed

text \<open>C18: Inserts never deadlock and always return: a run of \<open>n\<close> inserts, however scheduled and
  whatever the walks over the accounts see, has at most \<open>28 n\<close> steps, and as long as one of
  them has not returned some thread can take a step.\<close>

theorem inserts_return:
  assumes "(interleave C ^^ k) (launch g txs) s"
  shows "k \<le> 28 * length txs \<and> ((\<exists>s'. interleave C s s') \<or> (\<forall>p \<in> set (cg_threads s). \<exists>r. snd p = Finished r))"
proof
  have "steps_left (launch g txs) = 28 * length txs"
    by (simp add: steps_left_def launch_def comp_def sum_list_triv)
  then show "k \<le> 28 * length txs" using interleave_power [OF assms] by simp
  have "locks_ok s" using assms by (blast intro: locks_ok_reach relpowp_imp_rtranclp)
  then show "(\<exists>s'. interleave C s s') \<or> (\<forall>p \<in> set (cg_threads s). \<exists>r. snd p = Finished r)"
    using progress by blast
qed

theorem inserts_return_witness: "\<exists>s'. interleave demo_crypto demo_race s'"
  using inserts_return [OF run_schedule_reach [OF demo_race_run]] by (auto simp: demo_race_def)

end
