(* ===== verification/Linearize.thy ===== *)
theory Linearize
  imports Threads Replicas
begin

text \<open>
  Concurrent inserts and the abstract ledger of \<open>Node\<close>: whatever the interleaving of the threads of
  \<open>Threads\<close>, the accounts are those of some sequence of atomic transfers, one for each insert that
  returned a hash. The transfer of a thread takes effect with its credit: until then the cost of a
  debited thread still counts for its sender (\<open>virtual_ledger\<close>).
\<close>

section \<open>The ledger between the steps\<close>

definition cost :: "transaction \<Rightarrow> nat" where
  "cost tx = unat (tx_amount tx) + unat (tx_fee tx)"

fun in_flight :: "transaction \<Rightarrow> pc \<Rightarrow> nat" where
  "in_flight tx DoCredit = cost tx"
| "in_flight tx pc = 0"

fun unnumbered :: "pc \<Rightarrow> u64" where
  "unnumbered DoNonce = 1"
| "unnumbered pc = 0"

definition of_sender :: "address \<Rightarrow> 'm::zero \<Rightarrow> transaction \<Rightarrow> 'm" where
  "of_sender a v tx = (if tx_sender tx = a then v else 0)"

definition thread_sum :: "concurrent \<Rightarrow> (transaction \<Rightarrow> pc \<Rightarrow> 'm::comm_monoid_add) \<Rightarrow> 'm" where
  "thread_sum s f = sum_list (map (\<lambda>p. f (fst p) (snd p)) (cg_threads s))"

definition flying :: "concurrent \<Rightarrow> address \<Rightarrow> nat" where
  "flying s a = thread_sum s (\<lambda>tx pc. of_sender a (in_flight tx pc) tx)"

definition numbering :: "concurrent \<Rightarrow> address \<Rightarrow> u64" where
  "numbering s a = thread_sum s (\<lambda>tx pc. of_sender a (unnumbered pc) tx)"

definition virtual_ledger :: "concurrent \<Rightarrow> abstract_ledger" where
  "virtual_ledger s =
     \<lparr>al_balance = (\<lambda>a. unat (balance (g_state (cg_graph s)) a) + flying s a),
      al_nonce = (\<lambda>a. unat (nonce (g_state (cg_graph s)) a + numbering s a))\<rparr>"

text \<open>The nonce of the transaction is spent.\<close>

definition committed :: "dag_graph \<Rightarrow> transaction \<Rightarrow> bool" where
  "committed g tx = has_key (committed_nonces (g_conflicts g)) (nonce_key tx)"

text \<open>What a thread knows at each step because it holds the mutex.\<close>

fun thread_ok :: "dag_graph \<Rightarrow> transaction \<Rightarrow> pc \<Rightarrow> bool" where
  "thread_ok g tx (CheckConflicts d b) \<longleftrightarrow> unat d = cost tx \<and> d \<le> balance (g_state g) (tx_sender tx)"
| "thread_ok g tx (CheckNonce d) \<longleftrightarrow> unat d = cost tx \<and> d \<le> balance (g_state g) (tx_sender tx) \<and> \<not> committed g tx"
| "thread_ok g tx (DoDebit d) \<longleftrightarrow> unat d = cost tx \<and> d \<le> balance (g_state g) (tx_sender tx) \<and>
     \<not> committed g tx \<and> tx_nonce tx = nonce (g_state g) (tx_sender tx) + 1"
| "thread_ok g tx DoCredit \<longleftrightarrow> \<not> committed g tx \<and> tx_nonce tx = nonce (g_state g) (tx_sender tx) + 1"
| "thread_ok g tx pc \<longleftrightarrow> True"

text \<open>Past its credit a thread returns a hash.\<close>

fun credited :: "pc \<Rightarrow> bool" where
  "credited DoNonce = True" | "credited DoCommit = True" | "credited Depth1 = True"
| "credited (Depth2 d) = True" | "credited (RaiseDepth d) = True" | "credited (Linking d ops) = True"
| "credited (Unlock r) = is_ok r" | "credited (Finished r) = is_ok r"
| "credited pc = False"

definition linear_ok :: "nat \<Rightarrow> abstract_ledger \<Rightarrow> concurrent \<Rightarrow> bool" where
  "linear_ok total0 L s \<longleftrightarrow>
     locks_ok s \<and> spec_run L (cg_log s) = Some (virtual_ledger s) \<and>
     balance_total (g_state (cg_graph s)) + thread_sum s in_flight
       + sum_list (map (\<lambda>tx. unat (tx_fee tx)) (cg_log s)) = total0 \<and>
     (\<forall>p \<in> set (cg_threads s). thread_ok (cg_graph s) (fst p) (snd p)) \<and>
     mset (cg_log s) = mset (map fst (filter (credited \<circ> snd) (cg_threads s)))"

section \<open>What a step changes\<close>

lemma link_step_frame [simp]:
  "g_state (link_step C now tx d op g) = g_state g" "g_conflicts (link_step C now tx d op g) = g_conflicts g"
  by (cases op; simp add: add_child_def propagate_weight_def)+

lemma local_step_state:
  "local_step C now seen g tx pc = (g', pc') \<Longrightarrow> g_state g' =
     (case pc of DoDebit d \<Rightarrow> snd (debit (g_state g) (tx_sender tx) d)
      | DoCredit \<Rightarrow> credit (g_state g) (tx_receiver tx) (tx_amount tx)
      | DoNonce \<Rightarrow> increment_nonce (g_state g) (tx_sender tx) | _ \<Rightarrow> g_state g) \<and>
     g_conflicts g' = (if pc = DoCommit then commit_transaction C (g_conflicts g) tx else g_conflicts g)"
  by (induction C now seen g tx pc rule: local_step.induct)
    (auto simp: Let_def lock_sender_def split: prod.splits sum.splits if_splits)

lemma thread_step_state:
  assumes step: "thread_step C now seen i (g, held) tx pc = Some ((g', held'), pc')"
  shows "g_state g' =
     (case pc of DoDebit d \<Rightarrow> snd (debit (g_state g) (tx_sender tx) d)
      | DoCredit \<Rightarrow> credit (g_state g) (tx_receiver tx) (tx_amount tx)
      | DoNonce \<Rightarrow> increment_nonce (g_state g) (tx_sender tx) | _ \<Rightarrow> g_state g)"
    and "committed g' t \<longleftrightarrow> committed g t \<or> pc = DoCommit \<and> nonce_key t = nonce_key tx"
proof -
  have "g_state g' =
     (case pc of DoDebit d \<Rightarrow> snd (debit (g_state g) (tx_sender tx) d)
      | DoCredit \<Rightarrow> credit (g_state g) (tx_receiver tx) (tx_amount tx)
      | DoNonce \<Rightarrow> increment_nonce (g_state g) (tx_sender tx) | _ \<Rightarrow> g_state g) \<and>
     g_conflicts g' = (if pc = DoCommit then commit_transaction C (g_conflicts g) tx else g_conflicts g)"
    using step
  proof (cases rule: thread_step_cases)
    case (free h)
    then show ?thesis using local_step_state [OF free(2)] by simp
  qed auto
  note parts = conjunct1 [OF this] conjunct2 [OF this]
  show "g_state g' =
     (case pc of DoDebit d \<Rightarrow> snd (debit (g_state g) (tx_sender tx) d)
      | DoCredit \<Rightarrow> credit (g_state g) (tx_receiver tx) (tx_amount tx)
      | DoNonce \<Rightarrow> increment_nonce (g_state g) (tx_sender tx) | _ \<Rightarrow> g_state g)"
    by (rule parts(1))
  show "committed g' t \<longleftrightarrow> committed g t \<or> pc = DoCommit \<and> nonce_key t = nonce_key tx"
    by (cases "pc = DoCommit") (auto simp: committed_def parts(2))
qed

lemma debit_funded: "d \<le> balance st a \<Longrightarrow> debit st a d \<noteq> (Inl e, st')"
  by (metis debit_Inr Inl_Inr_False prod.inject)

lemma nonce_debit: "debit st a d = (q, st') \<Longrightarrow> nonce st' = nonce st"
  using ledger_accounts.nonce_sub [of st a d] by simp

lemma committed_state [simp]: "committed (g\<lparr>g_state := st\<rparr>) tx = committed g tx"
  by (simp add: committed_def)

lemma checked_cost: "checked_add (tx_amount tx) (tx_fee tx) = Some d \<Longrightarrow> unat d = cost tx"
  by (simp add: checked_add_Some cost_def unat_add_no_wrap)

lemma local_step_next:
  assumes "local_step C now seen g tx pc = (g', pc')" "free_running pc" "thread_ok g tx pc"
  shows "in_flight tx pc' = (case pc of DoDebit d \<Rightarrow> cost tx | _ \<Rightarrow> 0) \<and>
    unnumbered pc' = (if pc = DoCredit then 1 else 0) \<and>
    (credited pc' \<longleftrightarrow> credited pc \<or> pc = DoCredit) \<and> thread_ok g' tx pc'"
proof (cases pc)
  case (Linking d ops)
  then show ?thesis using assms by (cases ops) auto
next
  case (DoDebit d)
  then show ?thesis using assms debit_funded [of d "g_state g" "tx_sender tx"]
    by (auto simp: nonce_debit split: prod.splits sum.splits)
qed (use assms checked_cost [of tx] in \<open>auto simp: Let_def free_running_def not_less check_no_conflict committed_def
      split: sum.splits option.splits if_splits conflict_result.splits\<close>)

lemma thread_step_next:
  assumes step: "thread_step C now seen i (g, held) tx pc = Some ((g', held'), pc')" and "thread_ok g tx pc"
  shows "in_flight tx pc' = (case pc of DoDebit d \<Rightarrow> cost tx | _ \<Rightarrow> 0)"
    "unnumbered pc' = (if pc = DoCredit then 1 else 0)"
    "credited pc' \<longleftrightarrow> credited pc \<or> pc = DoCredit" "thread_ok g' tx pc'"
proof -
  have "in_flight tx pc' = (case pc of DoDebit d \<Rightarrow> cost tx | _ \<Rightarrow> 0) \<and>
    unnumbered pc' = (if pc = DoCredit then 1 else 0) \<and>
    (credited pc' \<longleftrightarrow> credited pc \<or> pc = DoCredit) \<and> thread_ok g' tx pc'"
    using step
  proof (cases rule: thread_step_cases)
    case (free h)
    then show ?thesis using local_step_next [OF free(2,1) assms(2)] by simp
  qed auto
  then show "in_flight tx pc' = (case pc of DoDebit d \<Rightarrow> cost tx | _ \<Rightarrow> 0)"
    "unnumbered pc' = (if pc = DoCredit then 1 else 0)"
    "credited pc' \<longleftrightarrow> credited pc \<or> pc = DoCredit" "thread_ok g' tx pc'" by blast+
qed

lemma thread_ok_trivial: "\<not> inside pc \<Longrightarrow> thread_ok g tx pc"
  by (cases pc) auto

text \<open>A step of one thread keeps what a thread of another sender knows.\<close>

lemma thread_ok_other:
  assumes "thread_ok g t q" "tx_sender t \<noteq> tx_sender tx"
    and "thread_step C now seen i (g, held) tx pc = Some ((g', held'), pc')"
    and fits: "pc = DoCredit \<Longrightarrow> balance_total (g_state g) + unat (tx_amount tx) < 2 ^ 64"
  shows "thread_ok g' t q"
proof -
  note st = thread_step_state [OF assms(3)]
  have "nonce_key t \<noteq> nonce_key tx" using assms(2) by (simp add: nonce_key_def)
  then have com: "committed g' t = committed g t" using st(2) by simp
  have non: "nonce (g_state g') (tx_sender t) = nonce (g_state g) (tx_sender t)"
    using st(1) assms(2) by (cases pc) (simp_all add: ledger_accounts.nonce_sub ledger_accounts.nonce_add nonce_increment)
  have "balance (g_state g) (tx_sender t) \<le> balance (g_state g') (tx_sender t)"
  proof (cases "pc = DoCredit")
    case True
    with balance_book.add_no_wrap(2) [OF fits, of "tx_receiver tx"] st(1) show ?thesis
      by (simp add: word_le_unat balance_book.get_add)
  next
    case False
    then show ?thesis using st(1) assms(2)
      by (cases pc) (simp_all add: balance_book.get_sub ledger_accounts.get_incr)
  qed
  then show ?thesis using assms(1) com non by (cases q) auto
qed

lemma thread_ok_idle:
  assumes "thread_ok g t q" "\<not> inside pc" "thread_step C now seen i (g, held) tx pc = Some ((g', held'), pc')"
  shows "thread_ok g' t q"
proof -
  have "g_state g' = g_state g" "committed g' t = committed g t"
    using thread_step_state [OF assms(3)] assms(2) by (cases pc; simp)+
  then show ?thesis using assms(1) by (cases q) auto
qed

lemma thread_sum_replace:
  assumes "i < length (cg_threads s)" "cg_threads s ! i = (tx, pc)" "cg_threads s' = (cg_threads s)[i := (tx, pc')]"
  shows "thread_sum s' f + f tx pc = thread_sum s f + f tx pc'"
  using sum_list_replace [OF assms(1), of "\<lambda>p. f (fst p) (snd p)" "(tx, pc')"] assms(2,3)
  by (simp add: thread_sum_def)

lemma thread_sum_0: "(\<And>p. p \<in> set (cg_threads s) \<Longrightarrow> f (fst p) (snd p) = 0) \<Longrightarrow> thread_sum s f = 0"
  by (simp add: thread_sum_def cong: map_cong)

lemma thread_sum_member:
  "i < length (cg_threads s) \<Longrightarrow> cg_threads s ! i = (tx, pc) \<Longrightarrow> f tx pc \<le> (thread_sum s f :: nat)"
  unfolding thread_sum_def by (metis (no_types, lifting) elem_le_sum_list fst_conv length_map nth_map snd_conv)

lemma filter_replace:
  "i < length xs \<Longrightarrow> xs ! i = (x, q) \<Longrightarrow> \<not> P q \<Longrightarrow> P q' \<Longrightarrow>
     mset (map fst (filter (P \<circ> snd) (xs[i := (x, q')]))) = add_mset x (mset (map fst (filter (P \<circ> snd) xs)))"
  by (induction xs arbitrary: i) (auto split: nat.splits)

lemma filter_replace_same:
  "i < length xs \<Longrightarrow> xs ! i = (x, q) \<Longrightarrow> P q' = P q \<Longrightarrow>
     map fst (filter (P \<circ> snd) (xs[i := (x, q')])) = map fst (filter (P \<circ> snd) xs)"
  by (induction xs arbitrary: i) (auto split: nat.splits)

section \<open>The invariant\<close>

text \<open>A credit is the transfer of the specification.\<close>

lemma virtual_credit:
  assumes s': "g_state (cg_graph s') = credit (g_state (cg_graph s)) (tx_receiver tx) (tx_amount tx)"
    and small: "balance_total (g_state (cg_graph s)) + unat (tx_amount tx) < 2 ^ 64"
    and F: "\<And>a. flying s' a + (if a = tx_sender tx then cost tx else 0) = flying s a"
    and U: "\<And>a. numbering s' a = numbering s a + (if a = tx_sender tx then 1 else 0)"
    and U0: "numbering s (tx_sender tx) = 0"
    and num: "tx_nonce tx = nonce (g_state (cg_graph s)) (tx_sender tx) + 1"
  shows "spec_enabled (virtual_ledger s) tx \<and> virtual_ledger s' = spec_transfer (virtual_ledger s) tx"
proof -
  let ?s = "g_state (cg_graph s)" and ?s' = "g_state (cg_graph s')"
  have bal: "unat (balance ?s' a) = unat (balance ?s a) + (if a = tx_receiver tx then unat (tx_amount tx) else 0)" for a
    using balance_book.add_no_wrap(2) [OF small, of "tx_receiver tx"] by (simp add: s' balance_book.get_add)
  have non: "nonce ?s' = nonce ?s" by (simp add: s' ledger_accounts.nonce_add)
  have "unat (tx_nonce tx) = (unat (nonce ?s (tx_sender tx)) + 1) mod 2 ^ 64" by (simp add: num unat_word_ariths)
  moreover have "cost tx \<le> flying s (tx_sender tx)" using F [of "tx_sender tx"] by simp
  ultimately have "spec_enabled (virtual_ledger s) tx"
    using U0 by (simp add: spec_enabled_def virtual_ledger_def cost_def)
  moreover have "unat (balance ?s' a) + flying s' a = al_balance (spec_transfer (virtual_ledger s) tx) a" for a
    using F [of a] bal [of a] by (auto simp: spec_transfer_def virtual_ledger_def Let_def cost_def)
  moreover have "unat (nonce ?s' a + numbering s' a) = al_nonce (spec_transfer (virtual_ledger s) tx) a" for a
    using U [of a] num U0 by (auto simp: spec_transfer_def virtual_ledger_def Let_def non)
  ultimately show ?thesis by (simp add: virtual_ledger_def)
qed

text \<open>What a step does to the virtual ledger and to the money in sight.\<close>

lemma virtual_step:
  assumes i: "i < length (cg_threads s)" "cg_threads s ! i = (tx, pc)"
    and st: "thread_step C now seen i (cg_graph s, cg_held s) tx pc = Some ((cg_graph s', held'), pc')"
    and ts: "cg_threads s' = (cg_threads s)[i := (tx, pc')]"
    and ok: "thread_ok (cg_graph s) tx pc"
    and fits: "balance_total (g_state (cg_graph s)) + thread_sum s in_flight < 2 ^ 64"
    and own: "pc = DoCredit \<Longrightarrow> numbering s (tx_sender tx) = 0"
  shows "if pc = DoCredit then spec_enabled (virtual_ledger s) tx \<and> virtual_ledger s' = spec_transfer (virtual_ledger s) tx
      else virtual_ledger s' = virtual_ledger s"
    and "balance_total (g_state (cg_graph s')) + thread_sum s' in_flight + (if pc = DoCredit then unat (tx_fee tx) else 0)
      = balance_total (g_state (cg_graph s)) + thread_sum s in_flight"
proof -
  let ?s = "g_state (cg_graph s)" and ?s' = "g_state (cg_graph s')"
  note state = thread_step_state(1) [OF st] and "next" = thread_step_next [OF st ok]
  note sums = thread_sum_replace [OF i ts, of in_flight]
    thread_sum_replace [OF i ts, of "\<lambda>t q. of_sender a (in_flight t q) t" for a, folded flying_def]
    thread_sum_replace [OF i ts, of "\<lambda>t q. of_sender a (unnumbered q) t" for a, folded numbering_def]
  consider (debit) d where "pc = DoDebit d" | (credit) "pc = DoCredit" | (number) "pc = DoNonce"
    | (other) "\<forall>d. pc \<noteq> DoDebit d" "pc \<noteq> DoCredit" "pc \<noteq> DoNonce" by blast
  then have "(if pc = DoCredit then spec_enabled (virtual_ledger s) tx \<and> virtual_ledger s' = spec_transfer (virtual_ledger s) tx
      else virtual_ledger s' = virtual_ledger s) \<and>
    balance_total ?s' + thread_sum s' in_flight + (if pc = DoCredit then unat (tx_fee tx) else 0)
      = balance_total ?s + thread_sum s in_flight"
  proof cases
    case debit
    then have d: "unat d = cost tx" "d \<le> balance ?s (tx_sender tx)" using ok by auto
    have s': "?s' = snd (debit ?s (tx_sender tx) d)" using state debit by simp
    have "unat (balance ?s' a) + flying s' a = unat (balance ?s a) + flying s a" for a
      using sums(2) [of a] "next"(1) debit d
      by (auto simp: s' balance_book.get_sub of_sender_def unat_sub_no_wrap word_le_unat)
    moreover have "numbering s' a = numbering s a" for a using sums(3) [of a] "next"(2) debit by (simp add: of_sender_def)
    moreover have "balance_total ?s' + cost tx = balance_total ?s"
      using balance_book.tot_sub_ok [OF d(2)] balance_book.unat_le_tot [OF d(2)] d(1) by (simp add: s')
    ultimately show ?thesis using sums(1) "next"(1) debit
      by (simp add: virtual_ledger_def s' ledger_accounts.nonce_sub)
  next
    case credit
    have s': "?s' = credit ?s (tx_receiver tx) (tx_amount tx)" using state credit by simp
    have "cost tx \<le> thread_sum s in_flight" using thread_sum_member [OF i, of in_flight] credit by simp
    then have small: "balance_total ?s + unat (tx_amount tx) < 2 ^ 64" using fits by (simp add: cost_def)
    note add = balance_book.add_no_wrap [OF small, of "tx_receiver tx"]
    have F: "flying s' a + (if a = tx_sender tx then cost tx else 0) = flying s a" for a
      using sums(2) [of a] "next"(1) credit by (auto simp: of_sender_def split: if_splits)
    have U: "numbering s' a = numbering s a + (if a = tx_sender tx then 1 else 0)" for a
      using sums(3) [of a] "next"(2) credit by (auto simp: of_sender_def split: if_splits)
    note move = virtual_credit [OF s' small F U own [OF credit]]
    have "thread_sum s' in_flight + cost tx = thread_sum s in_flight" using sums(1) "next"(1) credit by simp
    then show ?thesis using add(1) move ok credit by (simp add: s' cost_def)
  next
    case number
    have s': "?s' = increment_nonce ?s (tx_sender tx)" using state number by simp
    have "nonce ?s' a + numbering s' a = nonce ?s a + numbering s a" for a
      using sums(3) [of a] "next"(2) number
      by (auto simp: s' nonce_increment of_sender_def add.commute split: if_splits)
    moreover have "flying s' a = flying s a" for a using sums(2) [of a] "next"(1) number by (simp add: of_sender_def)
    ultimately show ?thesis using sums(1) "next"(1) number
      by (simp add: virtual_ledger_def s' ledger_accounts.get_incr ledger_accounts.tot_incr)
  next
    case other
    then have zero: "in_flight tx pc = 0" "in_flight tx pc' = 0" "unnumbered pc = 0" "unnumbered pc' = 0"
      using "next"(1,2) by (cases pc; simp)+
    have "?s' = ?s" using state other by (cases pc) auto
    moreover have "flying s' a = flying s a" "numbering s' a = numbering s a" for a
      using sums(2) [of a] sums(3) [of a] zero by (simp_all add: of_sender_def)
    ultimately show ?thesis using sums(1) zero other by (simp add: virtual_ledger_def)
  qed
  then show "if pc = DoCredit then spec_enabled (virtual_ledger s) tx \<and> virtual_ledger s' = spec_transfer (virtual_ledger s) tx
      else virtual_ledger s' = virtual_ledger s"
    "balance_total ?s' + thread_sum s' in_flight + (if pc = DoCredit then unat (tx_fee tx) else 0)
      = balance_total ?s + thread_sum s in_flight" by blast+
qed

lemma spec_run_append:
  "spec_run L (xs @ ys) = (case spec_run L xs of None \<Rightarrow> None | Some L' \<Rightarrow> spec_run L' ys)"
  by (induction xs arbitrary: L) auto

lemma alone_inside:
  assumes "locks_ok s" "i < length (cg_threads s)" "cg_threads s ! i = (tx, pc)" "inside pc"
    and "j < length (cg_threads s)" "inside (snd (cg_threads s ! j))" "tx_sender (fst (cg_threads s ! j)) = tx_sender tx"
  shows "j = i"
proof -
  have "cg_held s (as_str (tx_sender tx)) = Some i" "cg_held s (as_str (tx_sender tx)) = Some j"
    using assms by (simp_all add: locks_ok_def)
  then show ?thesis by simp
qed

lemma numbering_0:
  assumes ok: "locks_ok s" "i < length (cg_threads s)" "cg_threads s ! i = (tx, DoCredit)"
  shows "numbering s (tx_sender tx) = 0"
proof -
  have "of_sender (tx_sender tx) (unnumbered (snd p)) (fst p) = 0" if p: "p \<in> set (cg_threads s)" for p
  proof (rule ccontr)
    assume "of_sender (tx_sender tx) (unnumbered (snd p)) (fst p) \<noteq> 0"
    then have q: "tx_sender (fst p) = tx_sender tx" "snd p = DoNonce"
      by (cases "snd p"; simp add: of_sender_def split: if_splits)+
    from p obtain j where j: "j < length (cg_threads s)" "cg_threads s ! j = p" by (auto simp: in_set_conv_nth)
    with alone_inside [OF ok _ j(1)] q have "j = i" by simp
    with j(2) q(2) ok(3) show False by auto
  qed
  then show ?thesis unfolding numbering_def by (rule thread_sum_0)
qed

lemma linear_step:
  assumes "interleave C s s'" "linear_ok total0 L s" "total0 < 2 ^ 64"
  shows "linear_ok total0 L s'"
  using assms(1)
proof (rule interleave_cases)
  fix i now seen tx pc shared pc'
  assume i: "i < length (cg_threads s)" "cg_threads s ! i = (tx, pc)"
    and step: "thread_step C now seen i (cg_graph s, cg_held s) tx pc = Some (shared, pc')"
    and s': "s' = \<lparr>cg_shared = shared, cg_threads = (cg_threads s)[i := (tx, pc')],
      cg_log = cg_log s @ (if pc = DoCredit then [tx] else [])\<rparr>"
  have ok: "locks_ok s" "spec_run L (cg_log s) = Some (virtual_ledger s)"
    "balance_total (g_state (cg_graph s)) + thread_sum s in_flight
       + sum_list (map (\<lambda>tx. unat (tx_fee tx)) (cg_log s)) = total0"
    "\<And>p. p \<in> set (cg_threads s) \<Longrightarrow> thread_ok (cg_graph s) (fst p) (snd p)"
    "mset (cg_log s) = mset (map fst (filter (credited \<circ> snd) (cg_threads s)))"
    using assms(2) by (auto simp: linear_ok_def)
  have st: "thread_step C now seen i (cg_graph s, cg_held s) tx pc = Some ((cg_graph s', snd shared), pc')"
    using step by (simp add: s' cg_graph_def)
  have ts: "cg_threads s' = (cg_threads s)[i := (tx, pc')]" by (simp add: s')
  have known: "thread_ok (cg_graph s) tx pc" using ok(4) i nth_mem [OF i(1)] by force
  have fits: "balance_total (g_state (cg_graph s)) + thread_sum s in_flight < 2 ^ 64" using ok(3) assms(3) by simp
  note virtual = virtual_step [OF i st ts known fits numbering_0 [OF ok(1) i(1)]]
  have run: "spec_run L (cg_log s') = Some (virtual_ledger s')"
    using virtual(1) ok(2) i(2) by (simp add: s' spec_run_append split: if_splits)
  have money: "balance_total (g_state (cg_graph s')) + thread_sum s' in_flight
       + sum_list (map (\<lambda>tx. unat (tx_fee tx)) (cg_log s')) = total0"
    using virtual(2) ok(3) i(2) by (simp add: s' split: if_splits)
  note "next" = thread_step_next [OF st known]
  have know: "thread_ok (cg_graph s') (fst p) (snd p)" if "p \<in> set (cg_threads s')" for p
  proof -
    from that obtain j where j: "j < length (cg_threads s)" "cg_threads s' ! j = p"
      by (auto simp: in_set_conv_nth ts)
    show ?thesis
    proof (cases "j = i")
      case True
      then show ?thesis using "next"(4) j by (auto simp: ts)
    next
      case False
      then have p: "cg_threads s ! j = p" using j by (simp add: ts)
      have before: "thread_ok (cg_graph s) (fst p) (snd p)" using ok(4) p nth_mem [OF j(1)] by simp
      show ?thesis
      proof (cases "inside (snd p) \<and> inside pc \<and> tx_sender (fst p) = tx_sender tx")
        case True
        then show ?thesis using alone_inside [OF ok(1) i _ j(1)] p False by simp
      next
        case other: False
        have "balance_total (g_state (cg_graph s)) + unat (tx_amount tx) < 2 ^ 64" if "pc = DoCredit"
          using fits thread_sum_member [OF i, of in_flight] that by (simp add: cost_def)
        then show ?thesis
          using other before thread_ok_idle [OF before _ st] thread_ok_other [OF before _ st]
            thread_ok_trivial by blast
      qed
    qed
  qed
  have "mset (cg_log s') = mset (map fst (filter (credited \<circ> snd) (cg_threads s')))"
    using ok(5) "next"(3) filter_replace [OF i, of credited pc'] filter_replace_same [OF i, of credited pc']
    by (cases "pc = DoCredit") (auto simp: s')
  with run money know locks_ok_step [OF assms(1) ok(1)] show ?thesis by (simp add: linear_ok_def)
qed

lemma linear_launch:
  "linear_ok (balance_total (g_state g)) (abs_ledger g) (launch g txs)"
proof -
  have start: "p \<in> set (cg_threads (launch g txs)) \<Longrightarrow> snd p = Start" for p by (auto simp: launch_def)
  then have "flying (launch g txs) a = 0" "numbering (launch g txs) a = 0" "thread_sum (launch g txs) in_flight = 0" for a
    unfolding flying_def numbering_def by (intro thread_sum_0; force simp: of_sender_def dest: start)+
  then show ?thesis
    by (auto simp: linear_ok_def locks_ok_launch virtual_ledger_def abs_ledger_def dest: start)
      (auto simp: launch_def cg_graph_def filter_empty_conv)
qed

lemma linear_reach:
  assumes "(interleave C)\<^sup>*\<^sup>* (launch g txs) s" "balance_total (g_state g) < 2 ^ 64"
  shows "linear_ok (balance_total (g_state g)) (abs_ledger g) s"
  using assms(1)
proof (induction rule: rtranclp_induct)
  case base
  show ?case by (rule linear_launch)
next
  case (step s s')
  then show ?case using linear_step assms(2) by blast
qed

section \<open>Nonces\<close>

definition numbered :: "pc \<Rightarrow> bool" where
  "numbered pc \<longleftrightarrow> credited pc \<and> pc \<noteq> DoNonce \<and> pc \<noteq> DoCommit"

definition keys_ok :: "concurrent \<Rightarrow> bool" where
  "keys_ok s \<longleftrightarrow>
     (\<forall>p \<in> set (cg_threads s). numbered (snd p) \<longrightarrow> committed (cg_graph s) (fst p)) \<and>
     (\<forall>i j. i < length (cg_threads s) \<longrightarrow> j < length (cg_threads s) \<longrightarrow> i \<noteq> j \<longrightarrow>
        credited (snd (cg_threads s ! i)) \<longrightarrow> credited (snd (cg_threads s ! j)) \<longrightarrow>
        nonce_key (fst (cg_threads s ! i)) \<noteq> nonce_key (fst (cg_threads s ! j)))"

lemma numbered_step:
  assumes "thread_step C now seen i (g, held) tx pc = Some ((g', held'), pc')" "thread_ok g tx pc" "numbered pc'"
  shows "numbered pc \<or> pc = DoCommit"
proof (cases "pc = DoCredit \<or> pc = DoNonce")
  case True
  with assms(1,3) show ?thesis by (auto simp: numbered_def)
next
  case False
  with thread_step_next(3) [OF assms(1,2)] assms(3) show ?thesis by (auto simp: numbered_def)
qed

text \<open>When a thread is about to credit, no credited thread has its nonce.\<close>

lemma fresh_key:
  assumes "locks_ok s" "keys_ok s" "i < length (cg_threads s)" "cg_threads s ! i = (tx, DoCredit)"
    "thread_ok (cg_graph s) tx DoCredit" "j < length (cg_threads s)" "credited (snd (cg_threads s ! j))"
  shows "nonce_key (fst (cg_threads s ! j)) \<noteq> nonce_key tx"
proof
  assume key: "nonce_key (fst (cg_threads s ! j)) = nonce_key tx"
  then have sender: "tx_sender (fst (cg_threads s ! j)) = tx_sender tx" by (simp add: nonce_key_def)
  show False
  proof (cases "numbered (snd (cg_threads s ! j))")
    case True
    then have "committed (cg_graph s) (fst (cg_threads s ! j))"
      using assms(2) nth_mem [OF assms(6)] by (simp add: keys_ok_def)
    with key assms(5) show False by (simp add: committed_def)
  next
    case False
    then have "inside (snd (cg_threads s ! j))" using assms(7) by (auto simp: numbered_def)
    with alone_inside [OF assms(1,3,4) _ assms(6)] sender have "j = i" by simp
    with assms(4,7) show False by simp
  qed
qed

lemma keys_step:
  assumes "interleave C s s'" "linear_ok total0 L s" "keys_ok s"
  shows "keys_ok s'"
  using assms(1)
proof (rule interleave_cases)
  fix i now seen tx pc shared pc'
  assume i: "i < length (cg_threads s)" "cg_threads s ! i = (tx, pc)"
    and step: "thread_step C now seen i (cg_graph s, cg_held s) tx pc = Some (shared, pc')"
    and s': "s' = \<lparr>cg_shared = shared, cg_threads = (cg_threads s)[i := (tx, pc')],
      cg_log = cg_log s @ (if pc = DoCredit then [tx] else [])\<rparr>"
  have st: "thread_step C now seen i (cg_graph s, cg_held s) tx pc = Some ((cg_graph s', snd shared), pc')"
    using step by (simp add: s' cg_graph_def)
  have known: "thread_ok (cg_graph s) tx pc" using assms(2) i nth_mem [OF i(1)] by (force simp: linear_ok_def)
  have mine: "numbered pc \<Longrightarrow> committed (cg_graph s) tx" using assms(3) i nth_mem [OF i(1)] by (force simp: keys_ok_def)
  have "committed (cg_graph s') (fst p)" if p: "p \<in> set (cg_threads s')" "numbered (snd p)" for p
  proof -
    from p(1) consider "p = (tx, pc')" | "p \<in> set (cg_threads s)"
      using set_update_subset_insert [of "cg_threads s" i "(tx, pc')"] by (auto simp: s')
    then show ?thesis
    proof cases
      case 1
      then show ?thesis using p(2) numbered_step [OF st known] mine by (auto simp: thread_step_state(2) [OF st])
    next
      case 2
      then show ?thesis using p(2) assms(3) by (simp add: thread_step_state(2) [OF st] keys_ok_def)
    qed
  qed
  moreover have "nonce_key (fst (cg_threads s' ! j)) \<noteq> nonce_key (fst (cg_threads s' ! k))"
    if "j < length (cg_threads s')" "k < length (cg_threads s')" "j \<noteq> k"
      "credited (snd (cg_threads s' ! j))" "credited (snd (cg_threads s' ! k))" for j k
  proof -
    have locks: "locks_ok s" using assms(2) by (simp add: linear_ok_def)
    have other: "nonce_key (fst (cg_threads s ! l)) \<noteq> nonce_key tx"
      if "l \<noteq> i" "l < length (cg_threads s)" "credited (snd (cg_threads s ! l))" "credited pc'" for l
    proof (cases "pc = DoCredit")
      case True
      with fresh_key [OF locks assms(3) i(1) _ _ that(2,3)] i(2) known show ?thesis by simp
    next
      case False
      with thread_step_next(3) [OF st known] that(4) have "credited (snd (cg_threads s ! i))" by (simp add: i)
      with assms(3) i that(1-3) show ?thesis by (force simp: keys_ok_def)
    qed
    show ?thesis
      using that other [of j] other [of k] assms(3)
      by (cases "j = i"; cases "k = i") (auto simp: s' keys_ok_def)
  qed
  ultimately show ?thesis by (simp add: keys_ok_def)
qed

lemma keys_reach:
  assumes "(interleave C)\<^sup>*\<^sup>* (launch g txs) s" "balance_total (g_state g) < 2 ^ 64"
  shows "keys_ok s"
  using assms(1)
proof (induction rule: rtranclp_induct)
  case base
  show ?case by (auto simp: keys_ok_def launch_def numbered_def)
next
  case (step s s')
  then show ?case using keys_step linear_reach [OF step.hyps(1) assms(2)] by blast
qed

section \<open>Runs of single threads\<close>

lemma alone_interleave:
  assumes "alone C now i shared tx pc out" "i < length ts" "ts ! i = (tx, pc)"
  shows "\<exists>log'. (interleave C)\<^sup>*\<^sup>* \<lparr>cg_shared = shared, cg_threads = ts, cg_log = log\<rparr>
    \<lparr>cg_shared = fst out, cg_threads = ts[i := (tx, Finished (snd out))], cg_log = log'\<rparr>"
  using assms
proof (induction arbitrary: ts log rule: alone.induct)
  case (alone_returned shared tx r)
  then have "ts[i := (tx, Finished r)] = ts" by (metis list_update_id)
  then show ?case by auto
next
  case (alone_step shared tx pc shared' pc' out)
  let ?s = "\<lparr>cg_shared = shared, cg_threads = ts, cg_log = log\<rparr>"
    and ?log = "log @ (if pc = DoCredit then [tx] else [])"
  have "interleave C ?s \<lparr>cg_shared = shared', cg_threads = ts[i := (tx, pc')], cg_log = ?log\<rparr>"
    using alone_step.hyps(1) alone_step.prems
    by (intro interleave.intros [of C ?s "(i, now, total_circulating (g_state (fst shared)))"]) (simp add: schedule_def)
  moreover obtain log' where "(interleave C)\<^sup>*\<^sup>* \<lparr>cg_shared = shared', cg_threads = ts[i := (tx, pc')], cg_log = ?log\<rparr>
      \<lparr>cg_shared = fst out, cg_threads = ts[i := (tx, pc'), i := (tx, Finished (snd out))], cg_log = log'\<rparr>"
    using alone_step.IH [of "ts[i := (tx, pc')]" ?log] alone_step.prems by auto
  ultimately show ?case by (auto intro: converse_rtranclp_into_rtranclp)
qed

lemma two_inserts:
  assumes "acceptable C g tx" "acceptable C (accepted C now (lock_sender g tx) tx) tx'"
  shows "\<exists>s. (interleave C)\<^sup>*\<^sup>* (launch g [tx, tx']) s \<and>
    cg_threads s = [(tx, Finished (Inr (tx_hash C tx))), (tx', Finished (Inr (tx_hash C tx')))]"
proof -
  let ?g = "accepted C now (lock_sender g tx) tx"
  have "alone C now 0 (g, Map.empty) tx Start ((?g, Map.empty), Inr (tx_hash C tx))"
    using alone_insert [of Map.empty tx C now 0 g] by (simp add: dag_insert_acceptable [OF assms(1)])
  from alone_interleave [OF this, of "[(tx, Start), (tx', Start)]" "[]"]
  obtain l where one: "(interleave C)\<^sup>*\<^sup>* (launch g [tx, tx'])
      \<lparr>cg_shared = (?g, Map.empty), cg_threads = [(tx, Finished (Inr (tx_hash C tx))), (tx', Start)], cg_log = l\<rparr>"
    by (auto simp: launch_def)
  have "alone C now 1 (?g, Map.empty) tx' Start ((snd (dag_insert C now ?g tx'), Map.empty), Inr (tx_hash C tx'))"
    using alone_insert [of Map.empty tx' C now 1 ?g] by (simp add: dag_insert_acceptable [OF assms(2)])
  from alone_interleave [OF this, of "[(tx, Finished (Inr (tx_hash C tx))), (tx', Start)]" l]
  obtain l' where "(interleave C)\<^sup>*\<^sup>*
      \<lparr>cg_shared = (?g, Map.empty), cg_threads = [(tx, Finished (Inr (tx_hash C tx))), (tx', Start)], cg_log = l\<rparr>
      \<lparr>cg_shared = (snd (dag_insert C now ?g tx'), Map.empty),
       cg_threads = [(tx, Finished (Inr (tx_hash C tx))), (tx', Finished (Inr (tx_hash C tx')))], cg_log = l'\<rparr>"
    by auto
  with one show ?thesis by (intro exI conjI, rule rtranclp_trans) simp_all
qed

lemma demo_two_inserts:
  obtains s where "(interleave demo_crypto)\<^sup>*\<^sup>* (launch graph2 [demo_spend kp2 1, demo_spend demo_kp 1]) s"
    "cg_threads s = [(demo_spend kp2 1, Finished (Inr (tx_hash demo_crypto (demo_spend kp2 1)))),
      (demo_spend demo_kp 1, Finished (Inr (tx_hash demo_crypto (demo_spend demo_kp 1))))]"
    "balance_total (g_state graph2) < 2 ^ 64"
proof -
  have sender: "tx_sender (demo_spend demo_kp 1) \<noteq> tx_sender (demo_spend kp2 1)"
    "tx_hash demo_crypto (demo_spend demo_kp 1) \<noteq> tx_hash demo_crypto (demo_spend kp2 1)"
    using spend_hashes(1)
    by (simp_all add: addr2_def [symmetric] demo_addr_def [symmetric] addr2_not_demo [symmetric])
  have small: "ledger_total (g_state graph2) < 2 ^ 64" by (simp add: graph2_parts)
  then have "balance_total (g_state graph2) < 2 ^ 64" by (simp add: ledger_total_def)
  with two_inserts [OF spend2_acceptable(1) acceptable_after [OF spend2_acceptable sender small]] that
  show thesis by blast
qed

section \<open>Properties\<close>

definition returned_ok :: "concurrent \<Rightarrow> transaction list" where
  "returned_ok s = map fst (filter (\<lambda>p. \<exists>h. snd p = Finished (Inr h)) (cg_threads s))"

text \<open>C6: Concurrent inserts are linearizable when the initial balances sum to less than \<open>2 ^ 64\<close>: when any
  number of inserts ran in any interleaving of their steps and all have returned, the balances and nonces
  are those of atomic transfers, one for each insert that returned a hash, applied in some order in which
  each was enabled (the sender could pay amount and fee and the nonce was the next one); the inserts that
  returned an error changed no balance and no nonce.\<close>

theorem concurrent_inserts_linearize:
  assumes "(interleave C)\<^sup>*\<^sup>* (launch g txs) s" "balance_total (g_state g) < 2 ^ 64"
    and "\<forall>p \<in> set (cg_threads s). \<exists>r. snd p = Finished r"
  shows "\<exists>order. mset order = mset (returned_ok s) \<and> spec_run (abs_ledger g) order = Some (abs_ledger (cg_graph s))"
proof -
  have lin: "linear_ok (balance_total (g_state g)) (abs_ledger g) s" by (rule linear_reach [OF assms(1,2)])
  have over: "\<exists>r. snd p = Finished r" if "p \<in> set (cg_threads s)" for p using assms(3) that by blast
  then have "flying s a = 0" "numbering s a = 0" for a
    unfolding flying_def numbering_def
    by (intro thread_sum_0; force simp: of_sender_def dest: over)+
  then have "virtual_ledger s = abs_ledger (cg_graph s)" by (simp add: virtual_ledger_def abs_ledger_def)
  moreover have "filter (credited \<circ> snd) (cg_threads s) = filter (\<lambda>p. \<exists>h. snd p = Finished (Inr h)) (cg_threads s)"
    using assms(3) by (intro filter_cong) (auto simp: is_ok_iff)
  ultimately show ?thesis using lin by (auto simp: linear_ok_def returned_ok_def)
qed

theorem concurrent_inserts_linearize_witness:
  "\<exists>s order. cg_threads s = [(demo_spend kp2 1, Finished (Inr (tx_hash demo_crypto (demo_spend kp2 1)))),
      (demo_spend demo_kp 1, Finished (Inr (tx_hash demo_crypto (demo_spend demo_kp 1))))] \<and>
    mset order = {# demo_spend kp2 1, demo_spend demo_kp 1 #} \<and>
    spec_run (abs_ledger graph2) order = Some (abs_ledger (cg_graph s))"
proof -
  obtain s where s: "(interleave demo_crypto)\<^sup>*\<^sup>* (launch graph2 [demo_spend kp2 1, demo_spend demo_kp 1]) s"
    "cg_threads s = [(demo_spend kp2 1, Finished (Inr (tx_hash demo_crypto (demo_spend kp2 1)))),
      (demo_spend demo_kp 1, Finished (Inr (tx_hash demo_crypto (demo_spend demo_kp 1))))]"
    "balance_total (g_state graph2) < 2 ^ 64" by (rule demo_two_inserts)
  from concurrent_inserts_linearize [OF s(1,3)] obtain order where
    "mset order = mset (returned_ok s)" "spec_run (abs_ledger graph2) order = Some (abs_ledger (cg_graph s))"
    by (auto simp: s(2))
  then show ?thesis using s(2) by (intro exI [of _ s] exI [of _ order]) (simp add: returned_ok_def)
qed

text \<open>C16: No interleaving races on the funds, when the initial balances sum to less than \<open>2 ^ 64\<close>: whenever a
  thread of any run is about to debit, the balance still covers what it checked, so the debit under the
  mutex cannot fail; and amounts are never lost or made: balances, debits not yet credited and the fees of
  the credited transactions add up to the initial balances at every moment.\<close>

theorem funds_never_race:
  assumes "(interleave C)\<^sup>*\<^sup>* (launch g txs) s" "balance_total (g_state g) < 2 ^ 64"
  shows "((tx, DoDebit d) \<in> set (cg_threads s) \<longrightarrow>
      fst (debit (g_state (cg_graph s)) (tx_sender tx) d) = Inr ()) \<and>
    balance_total (g_state (cg_graph s)) + thread_sum s in_flight
      + sum_list (map (\<lambda>tx. unat (tx_fee tx)) (cg_log s)) = balance_total (g_state g)"
proof -
  have lin: "linear_ok (balance_total (g_state g)) (abs_ledger g) s" by (rule linear_reach [OF assms])
  then have "(tx, DoDebit d) \<in> set (cg_threads s) \<Longrightarrow> thread_ok (cg_graph s) tx (DoDebit d)"
    by (force simp: linear_ok_def)
  then show ?thesis using lin balance_book.sub_ok by (auto simp: linear_ok_def)
qed

theorem funds_never_race_witness:
  "\<exists>s. length (cg_threads s) = 2 \<and> balance_total (g_state (cg_graph s)) + thread_sum s in_flight
      + sum_list (map (\<lambda>tx. unat (tx_fee tx)) (cg_log s)) = balance_total (g_state graph2)"
proof -
  obtain s where s: "(interleave demo_crypto)\<^sup>*\<^sup>* (launch graph2 [demo_spend kp2 1, demo_spend demo_kp 1]) s"
    "cg_threads s = [(demo_spend kp2 1, Finished (Inr (tx_hash demo_crypto (demo_spend kp2 1)))),
      (demo_spend demo_kp 1, Finished (Inr (tx_hash demo_crypto (demo_spend demo_kp 1))))]"
    "balance_total (g_state graph2) < 2 ^ 64" by (rule demo_two_inserts)
  from funds_never_race [OF s(1,3), THEN conjunct2] s(2) show ?thesis by (intro exI [of _ s]) simp
qed

text \<open>Of the inserts that run at the same time at most one is accepted for each sender and nonce:
  two that returned a hash, in whatever interleaving, have different senders or nonces.\<close>

theorem concurrent_no_double_spend:
  assumes "(interleave C)\<^sup>*\<^sup>* (launch g txs) s" "balance_total (g_state g) < 2 ^ 64"
    and "i < length (cg_threads s)" "j < length (cg_threads s)" "i \<noteq> j"
    and "cg_threads s ! i = (tx, Finished (Inr h))" "cg_threads s ! j = (tx', Finished (Inr h'))"
  shows "nonce_key tx \<noteq> nonce_key tx'"
  using keys_reach [OF assms(1,2)] assms(3-7) by (force simp: keys_ok_def)

theorem concurrent_no_double_spend_witness:
  "nonce_key (demo_spend kp2 1) \<noteq> nonce_key (demo_spend demo_kp 1)"
proof -
  obtain s where s: "(interleave demo_crypto)\<^sup>*\<^sup>* (launch graph2 [demo_spend kp2 1, demo_spend demo_kp 1]) s"
    "cg_threads s = [(demo_spend kp2 1, Finished (Inr (tx_hash demo_crypto (demo_spend kp2 1)))),
      (demo_spend demo_kp 1, Finished (Inr (tx_hash demo_crypto (demo_spend demo_kp 1))))]"
    "balance_total (g_state graph2) < 2 ^ 64" by (rule demo_two_inserts)
  from concurrent_no_double_spend [OF s(1,3), of 0 1] show ?thesis by (simp add: s(2))
qed

end
