(* ===== verification/PoolRace.thy ===== *)
theory PoolRace
  imports Mempool
begin

text \<open>
  \<open>Mempool::insert\<close> and \<open>Mempool::remove\<close> (\<open>relyo-dag/src/mempool.rs\<close>) take no lock of their own: they
  are sequences of accesses to two \<open>DashMap\<close>s and a counter, each access atomic. \<open>Mempool\<close> has them
  as single steps; here several calls run at once, one access at a time, under an arbitrary
  schedule. This theory shows what such runs keep and exhibits what they break.
\<close>

section \<open>The program of a call\<close>

datatype pool_job = InsertTx transaction | RemoveTx transaction_hash

text \<open>The point after an access; \<open>AfterEmpty\<close> is the one after \<open>drop(set)\<close>.\<close>

datatype pool_pc =
    Begin | AfterSize | AfterKnown | AfterFee | AfterIndex
  | AfterTake transaction | AfterSub transaction | AfterEmpty transaction
  | Inserted bool | Removed "transaction option"

fun insert_step :: "crypto \<Rightarrow> transaction \<Rightarrow> pool_pc \<Rightarrow> mempool \<Rightarrow> pool_pc \<times> mempool" where
  "insert_step C tx Begin mp =
     (if length (mp_txs mp) \<ge> mp_max_size mp then Inserted False else AfterSize, mp)"
| "insert_step C tx AfterSize mp =
     (if has_key (mp_txs mp) (tx_hash C tx) then Inserted False else AfterKnown, mp)"
| "insert_step C tx AfterKnown mp = (AfterFee, mp\<lparr>mp_total_fees := mp_total_fees mp + tx_fee tx\<rparr>)"
| "insert_step C tx AfterFee mp =
     (AfterIndex, mp\<lparr>mp_by_sender := AList.update (tx_sender tx)
        (List.insert (tx_hash C tx) (get_or [] (mp_by_sender mp) (tx_sender tx))) (mp_by_sender mp)\<rparr>)"
| "insert_step C tx AfterIndex mp =
     (Inserted True, mp\<lparr>mp_txs := AList.update (tx_hash C tx) tx (mp_txs mp)\<rparr>)"
| "insert_step C tx p mp = (p, mp)"

fun remove_step :: "transaction_hash \<Rightarrow> pool_pc \<Rightarrow> mempool \<Rightarrow> pool_pc \<times> mempool" where
  "remove_step h Begin mp =
     (case map_of (mp_txs mp) h of
        None \<Rightarrow> (Removed None, mp)
      | Some tx \<Rightarrow> (AfterTake tx, mp\<lparr>mp_txs := AList.delete h (mp_txs mp)\<rparr>))"
| "remove_step h (AfterTake tx) mp = (AfterSub tx, mp\<lparr>mp_total_fees := mp_total_fees mp - tx_fee tx\<rparr>)"
| "remove_step h (AfterSub tx) mp =
     (case map_of (mp_by_sender mp) (tx_sender tx) of
        None \<Rightarrow> (Removed (Some tx), mp)
      | Some hs \<Rightarrow>
          (if removeAll h hs = [] then AfterEmpty tx else Removed (Some tx),
           mp\<lparr>mp_by_sender := AList.update (tx_sender tx) (removeAll h hs) (mp_by_sender mp)\<rparr>))"
| "remove_step h (AfterEmpty tx) mp =
     (Removed (Some tx), mp\<lparr>mp_by_sender := AList.delete (tx_sender tx) (mp_by_sender mp)\<rparr>)"
| "remove_step h p mp = (p, mp)"

definition pool_step :: "crypto \<Rightarrow> pool_job \<Rightarrow> pool_pc \<Rightarrow> mempool \<Rightarrow> pool_pc \<times> mempool" where
  "pool_step C job p mp =
     (case job of InsertTx tx \<Rightarrow> insert_step C tx p mp | RemoveTx h \<Rightarrow> remove_step h p mp)"

text \<open>Call \<open>i\<close> of a list of calls makes its next access; a schedule is a list of such turns.\<close>

definition turn :: "crypto \<Rightarrow> pool_job list \<Rightarrow> (nat \<Rightarrow> pool_pc) \<times> mempool \<Rightarrow> nat \<Rightarrow> (nat \<Rightarrow> pool_pc) \<times> mempool" where
  "turn C jobs s i =
     (if i < length jobs
      then let (p, mp) = pool_step C (jobs ! i) (fst s i) (snd s) in ((fst s)(i := p), mp)
      else s)"

definition run_calls :: "crypto \<Rightarrow> pool_job list \<Rightarrow> mempool \<Rightarrow> nat list \<Rightarrow> (nat \<Rightarrow> pool_pc) \<times> mempool" where
  "run_calls C jobs mp sched = foldl (turn C jobs) (\<lambda>_. Begin, mp) sched"

section \<open>One call alone\<close>

lemma run_alone:
  "run_calls C [job] mp (0 # sched) = foldl (turn C [job]) (turn C [job] (\<lambda>_. Begin, mp) 0) sched"
  by (simp add: run_calls_def)

text \<open>A call that no other call interrupts is the atomic operation: within five accesses \<open>insert\<close> has
  returned with the answer and the pool of \<open>mempool_insert\<close>, and \<open>remove\<close> with those of
  \<open>mempool_remove\<close>, up to the index entry that \<open>remove\<close> empties before it drops it.\<close>

theorem pool_call_alone:
  "(let (pcs, mp') = run_calls C [InsertTx tx] mp (replicate 5 0) in
      pcs 0 = Inserted (fst (mempool_insert C mp tx)) \<and> mp' = snd (mempool_insert C mp tx)) \<and>
   (let (pcs, mp') = run_calls C [RemoveTx h] mp (replicate 5 0) in
      pcs 0 = Removed (fst (mempool_remove mp h)) \<and>
      mp_txs mp' = mp_txs (snd (mempool_remove mp h)) \<and>
      mp_total_fees mp' = mp_total_fees (snd (mempool_remove mp h)) \<and>
      map_of (mp_by_sender mp') = map_of (mp_by_sender (snd (mempool_remove mp h))))"
proof -
  have five: "replicate 5 (0 :: nat) = [0, 0, 0, 0, 0]" by (simp add: numeral_eq_Suc)
  have ins: "run_calls C [InsertTx tx] mp (replicate 5 0)
      = ((\<lambda>_. Begin)(0 := Inserted (fst (mempool_insert C mp tx))), snd (mempool_insert C mp tx))"
    by (auto simp: five run_calls_def turn_def pool_step_def mempool_insert_def Let_def)
  show ?thesis
    unfolding ins
    by (auto simp: five run_calls_def turn_def pool_step_def mempool_remove_def Let_def amaps
        split: option.split)
qed

section \<open>Any schedule\<close>

lemma run_calls_invariant:
  assumes "P (\<lambda>_. Begin, mp)" and "\<And>s i. P s \<Longrightarrow> i < length jobs \<Longrightarrow> P (turn C jobs s i)"
  shows "P (run_calls C jobs mp sched)"
proof -
  have "P (foldl (turn C jobs) s sched)" if "P s" for s
    using that by (induction sched arbitrary: s) (use assms(2) in \<open>auto simp: turn_def\<close>)
  then show ?thesis using assms(1) by (simp add: run_calls_def)
qed

text \<open>A sum over the calls when one of them moves.\<close>

lemma sum_move:
  fixes g :: "nat \<Rightarrow> 'p \<Rightarrow> 'm::comm_monoid_add"
  assumes "i < n"
  shows "(\<Sum>j<n. g j ((f(i := p)) j)) + g i (f i) = (\<Sum>j<n. g j (f j)) + g i p"
proof -
  have "(\<Sum>j<n. g j (h j)) = g i (h i) + (\<Sum>j \<in> {..<n} - {i}. g j (h j))" for h
    using assms by (intro sum.remove) simp_all
  from this [of "f(i := p)"] this [of f] show ?thesis by (simp add: ac_simps)
qed

definition inserting :: "pool_pc \<Rightarrow> nat" where
  "inserting p = (if p \<in> {AfterSize, AfterKnown, AfterFee, AfterIndex} then 1 else 0)"

definition begun :: "pool_pc \<Rightarrow> nat" where
  "begun p = (if p = Begin then 0 else 1)"

definition room :: "nat \<Rightarrow> pool_job list \<Rightarrow> (nat \<Rightarrow> pool_pc) \<times> mempool \<Rightarrow> bool" where
  "room cap jobs s \<longleftrightarrow>
     mp_max_size (snd s) = cap \<and>
     length (mp_txs (snd s)) + (\<Sum>j<length jobs. inserting (fst s j))
       \<le> cap + ((\<Sum>j<length jobs. begun (fst s j)) - 1)"

lemma length_update_le: "length (AList.update k v m) \<le> Suc (length m)"
  by (simp add: length_update)

lemma length_delete_le: "length (AList.delete k m) \<le> length m"
  by (simp add: AList.delete_eq)

lemma insert_step_length:
  assumes "insert_step C tx p mp = (q, mp')"
  shows "mp_max_size mp' = mp_max_size mp \<and> begun p \<le> begun q \<and> begun q = 1 \<and>
    (p \<noteq> Begin \<longrightarrow> length (mp_txs mp') + inserting q \<le> length (mp_txs mp) + inserting p) \<and>
    (p = Begin \<longrightarrow> mp' = mp \<and> (inserting q = 0 \<or> inserting q = 1 \<and> length (mp_txs mp) < mp_max_size mp))"
  using assms
  by (cases p) (auto simp: inserting_def begun_def length_update split: if_splits)

lemma remove_step_length:
  assumes "remove_step h p mp = (q, mp')"
  shows "mp_max_size mp' = mp_max_size mp \<and> begun p \<le> begun q \<and> begun q = 1 \<and>
    (p \<noteq> Begin \<longrightarrow> mp_txs mp' = mp_txs mp \<and> inserting q \<le> inserting p) \<and>
    (p = Begin \<longrightarrow> length (mp_txs mp') \<le> length (mp_txs mp) \<and> inserting q = 0)"
  using assms length_delete_le [of h "mp_txs mp"]
  by (cases p) (auto simp: inserting_def begun_def split: if_splits option.splits)

lemma pool_step_length:
  assumes "pool_step C job p mp = (q, mp')"
  shows "mp_max_size mp' = mp_max_size mp \<and> begun p \<le> begun q \<and> begun q = 1 \<and>
    (p \<noteq> Begin \<longrightarrow> length (mp_txs mp') + inserting q \<le> length (mp_txs mp) + inserting p) \<and>
    (p = Begin \<longrightarrow> length (mp_txs mp') \<le> length (mp_txs mp) \<and>
      (inserting q = 0 \<or> inserting q = 1 \<and> length (mp_txs mp) < mp_max_size mp))"
proof (cases job)
  case (InsertTx tx)
  with insert_step_length [of C tx p mp q mp'] assms show ?thesis by (auto simp: pool_step_def)
next
  case (RemoveTx h)
  with remove_step_length [of h p mp q mp'] assms show ?thesis by (auto simp: pool_step_def)
qed

lemma room_turn:
  assumes "room cap jobs s" "i < length jobs"
  shows "room cap jobs (turn C jobs s i)"
proof -
  obtain pcs mp where s: "s = (pcs, mp)" by fastforce
  obtain q mp' where st: "pool_step C (jobs ! i) (pcs i) mp = (q, mp')" by fastforce
  have turn: "turn C jobs s i = (pcs(i := q), mp')" using assms(2) by (simp add: turn_def s st)
  note facts = pool_step_length [OF st]
  let ?I = "\<lambda>f. \<Sum>j<length jobs. inserting (f j)" and ?B = "\<lambda>f. \<Sum>j<length jobs. begun (f j)"
  have I: "?I (pcs(i := q)) + inserting (pcs i) = ?I pcs + inserting q"
    and B: "?B (pcs(i := q)) + begun (pcs i) = ?B pcs + begun q"
    using sum_move [OF assms(2), of "\<lambda>_. inserting"] sum_move [OF assms(2), of "\<lambda>_. begun"] by simp_all
  have old: "mp_max_size mp = cap" "length (mp_txs mp) + ?I pcs \<le> cap + (?B pcs - 1)"
    using assms(1) by (simp_all add: room_def s)
  have le: "?I pcs \<le> ?B pcs" by (rule sum_mono) (auto simp: inserting_def begun_def)
  show ?thesis
  proof (cases "pcs i = Begin")
    case False
    then have "begun q = begun (pcs i)" using facts by (simp add: begun_def)
    with False facts old I B show ?thesis by (simp add: room_def turn)
  next
    case True
    then have "inserting (pcs i) = 0" "begun (pcs i) = 0" by (simp_all add: inserting_def begun_def)
    then have "?I (pcs(i := q)) = ?I pcs + inserting q" "?B (pcs(i := q)) = ?B pcs + 1" using I B facts by simp_all
    moreover have "length (mp_txs mp') \<le> length (mp_txs mp)"
      "inserting q = 0 \<or> inserting q = 1 \<and> length (mp_txs mp) < cap" using True facts old(1) by auto
    ultimately show ?thesis using old le facts by (auto simp: room_def turn)
  qed
qed

text \<open>C23: The size bound of the mempool holds up to the calls that run at once: whatever inserts and
  removes run on a pool within its bound and however their accesses interleave, the pool never
  holds more than the bound plus the number of calls minus one; and two inserts do exceed it by one.\<close>

theorem pool_bound_exceeded_by_calls:
  assumes "length (mp_txs mp) \<le> mp_max_size mp" "jobs \<noteq> []"
  shows "length (mp_txs (snd (run_calls C jobs mp sched))) \<le> mp_max_size mp + (length jobs - 1) \<and>
    (tx_hash C tx \<noteq> tx_hash C tx' \<longrightarrow>
      length (mp_txs (snd (run_calls C [InsertTx tx, InsertTx tx'] (mempool_new 1) [0, 1, 0, 0, 0, 0, 1, 1, 1, 1]))) = 2)"
proof -
  have "room (mp_max_size mp) jobs (\<lambda>_. Begin, mp)" using assms(1) by (simp add: room_def inserting_def)
  then have "room (mp_max_size mp) jobs (run_calls C jobs mp sched)"
    by (rule run_calls_invariant) (rule room_turn)
  moreover have "(\<Sum>j<length jobs. begun (f j)) \<le> length jobs" for f
    using sum_mono [of "{..<length jobs}" "\<lambda>j. begun (f j)" "\<lambda>_. 1"] by (auto simp: begun_def)
  ultimately have "length (mp_txs (snd (run_calls C jobs mp sched))) \<le> mp_max_size mp + (length jobs - 1)"
    unfolding room_def by (meson add_le_mono diff_le_mono le_add1 le_refl le_trans)
  moreover have "length (mp_txs (snd (run_calls C [InsertTx tx, InsertTx tx'] (mempool_new 1) [0, 1, 0, 0, 0, 0, 1, 1, 1, 1]))) = 2"
    if "tx_hash C tx \<noteq> tx_hash C tx'"
    using that by (simp add: run_calls_def turn_def pool_step_def mempool_new_def has_key_def)
  ultimately show ?thesis by blast
qed

section \<open>Inserts of different transactions\<close>

definition fee_ahead :: "transaction list \<Rightarrow> nat \<Rightarrow> pool_pc \<Rightarrow> u64" where
  "fee_ahead txs j p = (if p \<in> {AfterFee, AfterIndex} then tx_fee (txs ! j) else 0)"

text \<open>What holds between the accesses of inserts of \<open>txs\<close> into a pool that held \<open>old\<close>.\<close>

definition files_ok_between ::
    "crypto \<Rightarrow> (transaction_hash \<times> transaction) list \<Rightarrow> transaction list \<Rightarrow> (nat \<Rightarrow> pool_pc) \<Rightarrow> mempool \<Rightarrow> bool" where
  "files_ok_between C old txs pcs mp \<longleftrightarrow>
     distinct (keys (mp_txs mp)) \<and>
     (\<forall>i<length txs. pcs i = Inserted True \<longrightarrow> map_of (mp_txs mp) (tx_hash C (txs ! i)) = Some (txs ! i)) \<and>
     (\<forall>i<length txs. pcs i \<in> {AfterKnown, AfterFee, AfterIndex} \<longrightarrow> map_of (mp_txs mp) (tx_hash C (txs ! i)) = None) \<and>
     (\<forall>h. (\<forall>i<length txs. pcs i = Inserted True \<longrightarrow> tx_hash C (txs ! i) \<noteq> h) \<longrightarrow> map_of (mp_txs mp) h = map_of old h)"

text \<open>The calls that have filed their hash and not yet their transaction.\<close>

definition waiting :: "transaction list \<Rightarrow> (nat \<Rightarrow> pool_pc) \<Rightarrow> nat set" where
  "waiting txs pcs = {i. i < length txs \<and> pcs i = AfterIndex}"

definition index_between :: "crypto \<Rightarrow> transaction list \<Rightarrow> nat set \<Rightarrow> mempool \<Rightarrow> bool" where
  "index_between C txs ws mp \<longleftrightarrow>
     (\<forall>a. map_of (mp_by_sender mp) a \<noteq> Some []) \<and>
     (\<forall>a h. h \<in> set (get_or [] (mp_by_sender mp) a) \<longleftrightarrow>
        (\<exists>tx. map_of (mp_txs mp) h = Some tx \<and> tx_sender tx = a) \<or>
        (\<exists>i\<in>ws. tx_hash C (txs ! i) = h \<and> tx_sender (txs ! i) = a))"

definition fees_between :: "transaction list \<Rightarrow> (nat \<Rightarrow> pool_pc) \<Rightarrow> mempool \<Rightarrow> bool" where
  "fees_between txs pcs mp \<longleftrightarrow>
     mp_total_fees mp = vsum tx_fee (mp_txs mp) + (\<Sum>j<length txs. fee_ahead txs j (pcs j))"

lemma insert_nonempty [simp]: "List.insert x xs \<noteq> []"
  by (auto simp: List.insert_def)

text \<open>Every access but the last leaves the transactions as they are.\<close>

lemma insert_quiet:
  assumes "insert_step C tx p mp = (q, mp')" "p \<noteq> AfterIndex"
  shows "mp_txs mp' = mp_txs mp" "q = Inserted True \<longleftrightarrow> p = Inserted True"
    "q \<in> {AfterKnown, AfterFee, AfterIndex} \<Longrightarrow>
       p \<in> {AfterKnown, AfterFee, AfterIndex} \<or> map_of (mp_txs mp) (tx_hash C tx) = None"
  using assms by (cases p; auto simp: has_key_def split: if_splits)+

lemma hash_index:
  "distinct (map (tx_hash C) txs) \<Longrightarrow> i < length txs \<Longrightarrow> j < length txs \<Longrightarrow>
     tx_hash C (txs ! j) = tx_hash C (txs ! i) \<longleftrightarrow> j = i"
  using nth_eq_iff_index_eq [of "map (tx_hash C) txs" j i] by simp

lemma files_step:
  assumes "distinct (map (tx_hash C) txs)" "files_ok_between C old txs pcs mp" "i < length txs"
    and "insert_step C (txs ! i) (pcs i) mp = (q, mp')"
  shows "files_ok_between C old txs (pcs(i := q)) mp'"
proof -
  have neq: "tx_hash C (txs ! j) \<noteq> tx_hash C (txs ! i)" if "j < length txs" "j \<noteq> i" for j
    using that by (simp add: hash_index [OF assms(1,3)])
  show ?thesis
  proof (cases "pcs i = AfterIndex")
    case True
    then have q: "q = Inserted True" "mp_txs mp' = AList.update (tx_hash C (txs ! i)) (txs ! i) (mp_txs mp)"
      using assms(4) by auto
    have "map_of (mp_txs mp) h = map_of old h"
      if "\<forall>j<length txs. (pcs(i := q)) j = Inserted True \<longrightarrow> tx_hash C (txs ! j) \<noteq> h" for h
    proof -
      have "tx_hash C (txs ! j) \<noteq> h" if "j < length txs" "pcs j = Inserted True" for j
        using that True \<open>\<forall>j<length txs. (pcs(i := q)) j = Inserted True \<longrightarrow> tx_hash C (txs ! j) \<noteq> h\<close>
        by (cases "j = i") auto
      with assms(2) show ?thesis unfolding files_ok_between_def by blast
    qed
    moreover have "tx_hash C (txs ! i) \<noteq> h"
      if "\<forall>j<length txs. (pcs(i := q)) j = Inserted True \<longrightarrow> tx_hash C (txs ! j) \<noteq> h" for h
      using that assms(3) q(1) by simp
    ultimately show ?thesis
      using assms(2) neq unfolding files_ok_between_def q(2)
      by (auto simp: map_of_update q(1))
  next
    case False
    note quiet = insert_quiet [OF assms(4) False]
    have same: "(pcs(i := q)) j = Inserted True \<longleftrightarrow> pcs j = Inserted True" for j using quiet(2) by simp
    have "map_of (mp_txs mp) (tx_hash C (txs ! j)) = None"
      if "j < length txs" "(pcs(i := q)) j \<in> {AfterKnown, AfterFee, AfterIndex}" for j
      using assms(2) quiet(3) that unfolding files_ok_between_def by (cases "j = i") auto
    then show ?thesis using assms(2) unfolding files_ok_between_def quiet(1) same by blast
  qed
qed

lemma waiting_upd:
  "i < length txs \<Longrightarrow> waiting txs (pcs(i := q)) = (if q = AfterIndex then insert i (waiting txs pcs) else waiting txs pcs - {i})"
  by (auto simp: waiting_def)

lemma index_filed:
  assumes "index_between C txs ws mp"
  shows "index_between C txs (insert i ws) (mp\<lparr>mp_by_sender := AList.update (tx_sender (txs ! i))
    (List.insert (tx_hash C (txs ! i)) (get_or [] (mp_by_sender mp) (tx_sender (txs ! i)))) (mp_by_sender mp)\<rparr>)"
  using assms by (auto simp: index_between_def map_of_update get_or_update)

lemma index_put:
  assumes "index_between C txs (insert i ws) mp" "map_of (mp_txs mp) (tx_hash C (txs ! i)) = None"
  shows "index_between C txs ws (mp\<lparr>mp_txs := AList.update (tx_hash C (txs ! i)) (txs ! i) (mp_txs mp)\<rparr>)"
  using assms by (auto simp: index_between_def map_of_update)

lemma index_step:
  assumes "files_ok_between C old txs pcs mp" "index_between C txs (waiting txs pcs) mp"
    and "i < length txs" "insert_step C (txs ! i) (pcs i) mp = (q, mp')"
  shows "index_between C txs (waiting txs (pcs(i := q))) mp'"
proof -
  note upd = waiting_upd [OF assms(3), of pcs q]
  have "waiting txs pcs - {i} = waiting txs pcs" if "pcs i \<noteq> AfterIndex" using that by (auto simp: waiting_def)
  moreover have "insert i (waiting txs pcs - {i}) = waiting txs pcs" "map_of (mp_txs mp) (tx_hash C (txs ! i)) = None"
    if "pcs i = AfterIndex" using that assms(1,3) by (auto simp: waiting_def files_ok_between_def)
  ultimately show ?thesis
    using assms(2,4) index_filed [OF assms(2), of i] index_put [of C txs i "waiting txs pcs - {i}" mp]
    unfolding upd by (cases "pcs i") (auto simp: index_between_def split: if_splits)
qed

lemma fees_step:
  assumes "files_ok_between C old txs pcs mp" "fees_between txs pcs mp"
    and "i < length txs" "insert_step C (txs ! i) (pcs i) mp = (q, mp')"
  shows "fees_between txs (pcs(i := q)) mp'"
proof -
  let ?F = "\<lambda>f. \<Sum>j<length txs. fee_ahead txs j (f j)"
  have F: "?F (pcs(i := q)) + fee_ahead txs i (pcs i) = ?F pcs + fee_ahead txs i q"
    by (rule sum_move [OF assms(3)])
  have old: "mp_total_fees mp = vsum tx_fee (mp_txs mp) + ?F pcs" using assms(2) by (simp add: fees_between_def)
  show ?thesis
  proof (cases "pcs i")
    case AfterIndex
    then have "map_of (mp_txs mp) (tx_hash C (txs ! i)) = None"
      using assms(1,3) by (auto simp: files_ok_between_def)
    then have "vsum tx_fee (AList.update (tx_hash C (txs ! i)) (txs ! i) (mp_txs mp))
        = vsum tx_fee (mp_txs mp) + tx_fee (txs ! i)"
      using vsum_update [of tx_fee "tx_hash C (txs ! i)" "txs ! i" "mp_txs mp"] by simp
    then show ?thesis using AfterIndex assms(4) F old by (auto simp: fees_between_def fee_ahead_def algebra_simps)
  qed (use assms(4) F old in \<open>auto simp: fees_between_def fee_ahead_def algebra_simps split: if_splits\<close>)
qed

lemma pool_between:
  assumes "mempool_ok C mp" "distinct (map (tx_hash C) txs)"
  shows "case run_calls C (map InsertTx txs) mp sched of (pcs, mp') \<Rightarrow>
    files_ok_between C (mp_txs mp) txs pcs mp' \<and> index_between C txs (waiting txs pcs) mp' \<and> fees_between txs pcs mp'"
proof (rule run_calls_invariant)
  show "case (\<lambda>_. Begin, mp) of (pcs, mp') \<Rightarrow>
    files_ok_between C (mp_txs mp) txs pcs mp' \<and> index_between C txs (waiting txs pcs) mp' \<and> fees_between txs pcs mp'"
    using assms(1)
    by (auto simp: mempool_ok_def files_ok_between_def index_between_def index_ok_def fees_between_def fee_ahead_def waiting_def)
next
  fix s i
  assume inv: "case s of (pcs, mp') \<Rightarrow>
      files_ok_between C (mp_txs mp) txs pcs mp' \<and> index_between C txs (waiting txs pcs) mp' \<and> fees_between txs pcs mp'"
    and i: "i < length (map InsertTx txs)"
  obtain pcs mp1 where s: "s = (pcs, mp1)" by fastforce
  obtain q mp2 where st: "insert_step C (txs ! i) (pcs i) mp1 = (q, mp2)" by fastforce
  have "turn C (map InsertTx txs) s i = (pcs(i := q), mp2)" using i st by (simp add: turn_def pool_step_def s)
  with inv i st files_step [OF assms(2)] index_step fees_step
  show "case turn C (map InsertTx txs) s i of (pcs, mp') \<Rightarrow>
      files_ok_between C (mp_txs mp) txs pcs mp' \<and> index_between C txs (waiting txs pcs) mp' \<and> fees_between txs pcs mp'"
    by (auto simp: s)
qed

text \<open>C21: Inserts of different transactions do not disturb each other: when all of them have returned,
  under whatever interleaving, the pool holds what it held and exactly the transactions whose
  insert returned true, its index lists for each sender exactly its pending transactions, and its
  counter is the sum of the pending fees.\<close>

theorem concurrent_pool_inserts:
  assumes "mempool_ok C mp" "distinct (map (tx_hash C) txs)"
    and "run_calls C (map InsertTx txs) mp sched = (pcs, mp')"
    and "\<forall>i<length txs. \<exists>b. pcs i = Inserted b"
  shows "(\<forall>h tx. map_of (mp_txs mp') h = Some tx \<longleftrightarrow>
      map_of (mp_txs mp) h = Some tx \<and> (\<forall>i<length txs. pcs i = Inserted True \<longrightarrow> tx_hash C (txs ! i) \<noteq> h) \<or>
      (\<exists>i<length txs. pcs i = Inserted True \<and> tx = txs ! i \<and> h = tx_hash C (txs ! i))) \<and>
    index_ok (mp_txs mp') (mp_by_sender mp') \<and> mp_total_fees mp' = vsum tx_fee (mp_txs mp')"
proof -
  have inv: "files_ok_between C (mp_txs mp) txs pcs mp'" "index_between C txs (waiting txs pcs) mp'" "fees_between txs pcs mp'"
    using pool_between [OF assms(1,2), of sched] assms(3) by simp_all
  have "(\<Sum>j<length txs. fee_ahead txs j (pcs j)) = 0"
    using assms(4) by (auto simp: fee_ahead_def intro!: sum.neutral)
  with inv(3) have fees: "mp_total_fees mp' = vsum tx_fee (mp_txs mp')" by (simp add: fees_between_def)
  have "waiting txs pcs = {}" using assms(4) by (fastforce simp: waiting_def)
  with inv(2) have index: "index_ok (mp_txs mp') (mp_by_sender mp')"
    by (auto simp: index_between_def index_ok_def)
  have "map_of (mp_txs mp') h = Some tx \<longleftrightarrow>
      map_of (mp_txs mp) h = Some tx \<and> (\<forall>i<length txs. pcs i = Inserted True \<longrightarrow> tx_hash C (txs ! i) \<noteq> h) \<or>
      (\<exists>i<length txs. pcs i = Inserted True \<and> tx = txs ! i \<and> h = tx_hash C (txs ! i))" for h tx
  proof (cases "\<exists>i<length txs. pcs i = Inserted True \<and> tx_hash C (txs ! i) = h")
    case True
    then obtain i where i: "i < length txs" "pcs i = Inserted True" "tx_hash C (txs ! i) = h" by blast
    then have new: "map_of (mp_txs mp') h = Some (txs ! i)" using inv(1) by (auto simp: files_ok_between_def)
    have tx: "tx = txs ! i" if "j < length txs" "tx = txs ! j" "h = tx_hash C (txs ! j)" for j
    proof -
      have "j = i" using hash_index [OF assms(2) i(1) that(1)] i(3) that(3) by argo
      with that(2) show ?thesis by argo
    qed
    show ?thesis
    proof
      assume "map_of (mp_txs mp') h = Some tx"
      with new i show "map_of (mp_txs mp) h = Some tx \<and> (\<forall>i<length txs. pcs i = Inserted True \<longrightarrow> tx_hash C (txs ! i) \<noteq> h) \<or>
        (\<exists>i<length txs. pcs i = Inserted True \<and> tx = txs ! i \<and> h = tx_hash C (txs ! i))" by auto
    next
      assume "map_of (mp_txs mp) h = Some tx \<and> (\<forall>i<length txs. pcs i = Inserted True \<longrightarrow> tx_hash C (txs ! i) \<noteq> h) \<or>
        (\<exists>i<length txs. pcs i = Inserted True \<and> tx = txs ! i \<and> h = tx_hash C (txs ! i))"
      with i obtain j where "j < length txs" "tx = txs ! j" "h = tx_hash C (txs ! j)" by blast
      from tx [OF this] new show "map_of (mp_txs mp') h = Some tx" by simp
    qed
  next
    case False
    then have "map_of (mp_txs mp') h = map_of (mp_txs mp) h" using inv(1) by (auto simp: files_ok_between_def)
    with False show ?thesis by auto
  qed
  with index fees show ?thesis by blast
qed

section \<open>What races break\<close>

text \<open>C22: Two races of the mempool. When one transaction arrives twice at the same time, both inserts can
  return true: the pool then holds it once and its counter has the fee twice. And when the last
  pending transaction of a sender is removed while the sender's next one is inserted, the new one
  can end up pending without being listed, so the pool then denies a conflict with its nonce.\<close>

theorem pool_races:
  "(let (pcs, mp) = run_calls C [InsertTx tx, InsertTx tx] (mempool_new 9) [0, 0, 1, 1, 0, 0, 0, 1, 1, 1] in
     pcs 0 = Inserted True \<and> pcs 1 = Inserted True \<and> mp_txs mp = [(tx_hash C tx, tx)] \<and>
     mp_total_fees mp = tx_fee tx + tx_fee tx) \<and>
   (tx_sender next_tx = tx_sender tx \<and> tx_hash C next_tx \<noteq> tx_hash C tx \<longrightarrow>
     (let (pcs, mp) = run_calls C [RemoveTx (tx_hash C tx), InsertTx next_tx]
          (snd (mempool_insert C (mempool_new 9) tx)) [0, 0, 0, 1, 1, 1, 1, 1, 0] in
        pcs 0 = Removed (Some tx) \<and> pcs 1 = Inserted True \<and> mp_txs mp = [(tx_hash C next_tx, next_tx)] \<and>
        get_pending_for_address mp (tx_sender next_tx) = [] \<and> \<not> has_conflict mp next_tx))"
proof -
  have twice: "run_calls C [InsertTx tx, InsertTx tx] (mempool_new 9) [0, 0, 1, 1, 0, 0, 0, 1, 1, 1]
      = ((\<lambda>_. Begin)(0 := Inserted True, 1 := Inserted True),
         \<lparr>mp_txs = [(tx_hash C tx, tx)], mp_by_sender = [(tx_sender tx, [tx_hash C tx])], mp_max_size = 9,
          mp_total_fees = tx_fee tx + tx_fee tx\<rparr>)"
    by (auto simp: run_calls_def turn_def pool_step_def mempool_new_def List.insert_def get_or_def fun_eq_iff)
  have lost: "run_calls C [RemoveTx (tx_hash C tx), InsertTx next_tx]
      (snd (mempool_insert C (mempool_new 9) tx)) [0, 0, 0, 1, 1, 1, 1, 1, 0]
      = ((\<lambda>_. Begin)(0 := Removed (Some tx), 1 := Inserted True),
         \<lparr>mp_txs = [(tx_hash C next_tx, next_tx)], mp_by_sender = [], mp_max_size = 9, mp_total_fees = tx_fee next_tx\<rparr>)"
    if "tx_sender next_tx = tx_sender tx" "tx_hash C next_tx \<noteq> tx_hash C tx"
  proof -
    have start: "snd (mempool_insert C (mempool_new 9) tx) = \<lparr>mp_txs = [(tx_hash C tx, tx)],
        mp_by_sender = [(tx_sender tx, [tx_hash C tx])], mp_max_size = 9, mp_total_fees = tx_fee tx\<rparr>"
      by (simp add: mempool_insert_def mempool_new_def List.insert_def Let_def)
    show ?thesis
      unfolding start using that
      by (simp add: run_calls_def turn_def pool_step_def List.insert_def get_or_def fun_eq_iff)
  qed
  show ?thesis
    unfolding twice
    using lost by (simp add: Let_def get_pending_for_address_def has_conflict_def)
qed

section \<open>Witnesses\<close>

definition demo_next :: transaction where
  "demo_next = demo_tx\<lparr>tx_fee := 3000000, tx_signature := Signature (replicate 64 9)\<rparr>"

lemma race_hashes: "tx_hash demo_crypto demo_tx \<noteq> tx_hash demo_crypto demo_next"
  by code_simp

theorem pool_bound_exceeded_by_calls_witness:
  "length (mp_txs (snd (run_calls demo_crypto [InsertTx demo_tx, InsertTx demo_next] (mempool_new 1)
     [0, 1, 0, 0, 0, 0, 1, 1, 1, 1]))) = 2"
proof -
  have "length (mp_txs (mempool_new 1)) \<le> mp_max_size (mempool_new 1)" "[RemoveTx zero_hash] \<noteq> []"
    by (simp_all add: mempool_new_def)
  from pool_bound_exceeded_by_calls [OF this, of demo_crypto _ demo_tx demo_next] race_hashes show ?thesis by blast
qed

theorem concurrent_pool_inserts_witness:
  "mp_total_fees (snd (run_calls demo_crypto (map InsertTx [demo_tx, demo_next]) (mempool_new 1)
     [0, 1, 0, 0, 0, 0, 1, 1, 1, 1])) = vsum tx_fee [(tx_hash demo_crypto demo_tx, demo_tx), (tx_hash demo_crypto demo_next, demo_next)]"
proof -
  let ?txs = "[demo_tx, demo_next]" and ?sched = "[0, 1, 0, 0, 0, 0, 1, 1, 1, 1] :: nat list"
  obtain pcs mp' where run: "run_calls demo_crypto (map InsertTx ?txs) (mempool_new 1) ?sched = (pcs, mp')" by fastforce
  have ended: "pcs 0 = Inserted True" "pcs 1 = Inserted True"
    and txs: "mp_txs mp' = [(tx_hash demo_crypto demo_tx, demo_tx), (tx_hash demo_crypto demo_next, demo_next)]"
    using run race_hashes by (auto simp: run_calls_def turn_def pool_step_def mempool_new_def has_key_def)
  have "\<forall>i<length ?txs. \<exists>b. pcs i = Inserted b" using ended by (auto simp: less_Suc_eq)
  moreover have "distinct (map (tx_hash demo_crypto) ?txs)" using race_hashes by simp
  ultimately show ?thesis
    using concurrent_pool_inserts [OF mempool_ok_new _ run] txs run by simp
qed

theorem pool_races_witness:
  "\<not> has_conflict (snd (run_calls demo_crypto [RemoveTx (tx_hash demo_crypto demo_tx), InsertTx demo_next]
     (snd (mempool_insert demo_crypto (mempool_new 9) demo_tx)) [0, 0, 0, 1, 1, 1, 1, 1, 0])) demo_next"
proof -
  have "tx_sender demo_next = tx_sender demo_tx" by (simp add: demo_next_def)
  with pool_races [of demo_crypto demo_tx demo_next] race_hashes show ?thesis
    by (simp add: Let_def case_prod_beta)
qed

end
