(* ===== verification/Scenarios.thy ===== *)
theory Scenarios
  imports GraphShape Wallets
begin

text \<open>
  The repository's integration tests (\<open>tests/integration.rs\<close>, \<open>tests/network_simulation.rs\<close>) as runs of
  the model: a graph whose genesis funds one account, and a loop in which its owner builds, signs
  and inserts one transfer after the other, each on top of the last one. What the tests assert for
  a few amounts holds for every keys, amounts and length.
\<close>

section \<open>The set-up and the loop\<close>

definition genesis_allocation :: "crypto \<Rightarrow> u64 \<Rightarrow> keypair \<Rightarrow> address \<Rightarrow> u64 \<Rightarrow> transaction" where
  "genesis_allocation C ts kp receiver amount =
     (let tx = \<lparr>tx_type = Genesis, tx_sender = genesis_address C, tx_receiver = receiver, tx_amount = amount,
           tx_fee = 0, tx_timestamp = ts, tx_nonce = 0, tx_parent_1 = zero_hash, tx_parent_2 = zero_hash,
           tx_sender_pubkey = kp_public_key kp, tx_signature = Signature (replicate 64 0), tx_data = []\<rparr>;
         msg = signable_bytes tx
      in tx\<lparr>tx_signature := sign C kp msg\<rparr>)"

definition setup_dag_with_genesis ::
    "crypto \<Rightarrow> nat \<Rightarrow> u64 \<Rightarrow> address \<Rightarrow> keypair \<Rightarrow> u64 \<Rightarrow> transaction_hash result \<times> dag_graph" where
  "setup_dag_with_genesis C now ts receiver sender_kp amount =
     insert_genesis C now (graph_new ledger_new tips_new conflicts_new)
       (genesis_allocation C ts sender_kp receiver amount)"

text \<open>The transfer with nonce \<open>n\<close> and both parents \<open>prev\<close>.\<close>

definition next_transfer ::
    "crypto \<Rightarrow> u64 \<Rightarrow> keypair \<Rightarrow> address \<Rightarrow> u64 \<Rightarrow> u64 \<Rightarrow> transaction_hash \<Rightarrow> transaction" where
  "next_transfer C ts kp to amount n prev =
     builder_sign C ts kp (builder_parents prev prev
       (builder_new (from_public_key C (kp_public_key kp)) to amount (base_fee RELYO_CONFIG) n))"

text \<open>
  The loop of the tests; \<open>unwrap\<close> on an error ends it. \<open>post\<close> is what the test does to the graph after
  each insertion: nothing, or setting the status of the new transaction.
\<close>

fun send_chain ::
    "(dag_graph \<Rightarrow> transaction_hash \<Rightarrow> dag_graph) \<Rightarrow> crypto \<Rightarrow> nat \<Rightarrow> u64 \<Rightarrow> keypair \<Rightarrow> address \<Rightarrow> dag_graph \<Rightarrow> transaction_hash \<Rightarrow> u64 \<Rightarrow> u64 list \<Rightarrow>
       transaction_hash result \<times> dag_graph" where
  "send_chain post C now ts kp to g prev n [] = (Inr prev, g)"
| "send_chain post C now ts kp to g prev n (v # vs) =
     (case dag_insert C now g (next_transfer C ts kp to v n prev) of
        (Inl e, g') \<Rightarrow> (Inl e, g')
      | (Inr h, g') \<Rightarrow> send_chain post C now ts kp to (post g' h) h (n + 1) vs)"

text \<open>The hashes of the transfers that the loop builds.\<close>

fun chain_hashes ::
    "crypto \<Rightarrow> u64 \<Rightarrow> keypair \<Rightarrow> address \<Rightarrow> transaction_hash \<Rightarrow> u64 \<Rightarrow> u64 list \<Rightarrow> transaction_hash list" where
  "chain_hashes C ts kp to prev n [] = []"
| "chain_hashes C ts kp to prev n (v # vs) =
     (let h = tx_hash C (next_transfer C ts kp to v n prev) in h # chain_hashes C ts kp to h (n + 1) vs)"

section \<open>Facts\<close>

lemma next_transfer_base: "next_transfer C ts kp to v n prev = base_transfer C ts kp to v n prev prev"
  by (simp add: next_transfer_def base_transfer_def)

text \<open>Where a chain of \<open>k\<close> transfers has come to.\<close>

record chain_state =
  at_prev :: transaction_hash
  at_hashes :: "transaction_hash set"
  at_sent :: nat
  at_nonce :: nat
  at_left :: nat
  at_got :: nat

definition chain_at :: "address \<Rightarrow> address \<Rightarrow> nat \<Rightarrow> dag_graph \<Rightarrow> chain_state \<Rightarrow> bool" where
  "chain_at a to fund g c \<longleftrightarrow>
     set (keys (g_nodes g)) = at_hashes c \<and> at_prev c \<in> at_hashes c \<and>
     unat (node_depth g (at_prev c)) = at_sent c \<and> unat (g_max_depth g) = at_sent c \<and>
     (\<forall>x. has_tip (g_tips g) x \<longleftrightarrow> x = at_prev c) \<and>
     unat (nonce (g_state g) a) = at_nonce c \<and>
     (\<forall>m. has_key (committed_nonces (g_conflicts g)) (as_str a, m) \<longrightarrow> unat m \<le> at_nonce c) \<and>
     unat (balance (g_state g) a) = at_left c \<and> unat (balance (g_state g) to) = at_got c \<and>
     ledger_total (g_state g) \<le> fund \<and> unat (g_total_count g) = at_sent c + 1"

definition chain_next :: "transaction_hash \<Rightarrow> nat \<Rightarrow> nat \<Rightarrow> chain_state \<Rightarrow> chain_state" where
  "chain_next h v fee c =
     \<lparr>at_prev = h, at_hashes = insert h (at_hashes c), at_sent = at_sent c + 1, at_nonce = at_nonce c + 1,
      at_left = at_left c - (v + fee), at_got = at_got c + v\<rparr>"

lemma node_depth_attach: "node_depth (attach now g tx h) h = new_depth g tx"
  by (simp add: node_depth_def attach_nodes)

lemma chain_step:
  fixes C kp to v
  defines "a \<equiv> from_public_key C (kp_public_key kp)"
  assumes ok: "crypto_ok C" "keypair_ok C kp" and at: "chain_at a to fund g c"
    and v: "v \<noteq> 0" "to \<noteq> a" "unat v + 1000000 \<le> at_left c" "fund + unat v \<le> 2500000000000000000"
    and n: "unat n = at_nonce c + 1" "at_sent c + 2 < 2 ^ 64" "at_nonce c \<le> at_sent c"
    and h: "h = tx_hash C (next_transfer C ts kp to v n (at_prev c))" "h \<notin> at_hashes c"
  shows "\<exists>g'. dag_insert C now g (next_transfer C ts kp to v n (at_prev c)) = (Inr h, g') \<and>
    chain_at a to fund g' (chain_next h (unat v) 1000000 c)"
proof -
  let ?tx = "next_transfer C ts kp to v n (at_prev c)"
  have tx: "tx_sender ?tx = a" "tx_receiver ?tx = to" "tx_amount ?tx = v" "tx_fee ?tx = base_fee RELYO_CONFIG"
    "tx_nonce ?tx = n" "tx_parent_1 ?tx = at_prev c" "tx_parent_2 ?tx = at_prev c" "\<not> is_genesis ?tx"
    by (simp_all add: next_transfer_base a_def is_genesis_def)
  have bal: "unat (balance (g_state g) a) = at_left c" and keys: "set (keys (g_nodes g)) = at_hashes c"
    and total: "ledger_total (g_state g) \<le> fund" and nonce: "unat (nonce (g_state g) a) = at_nonce c"
    and depth: "unat (node_depth g (at_prev c)) = at_sent c" "unat (g_max_depth g) = at_sent c"
    and tips: "\<And>x. has_tip (g_tips g) x \<longleftrightarrow> x = at_prev c" and prev: "at_prev c \<in> at_hashes c"
    and used: "\<And>m. has_key (committed_nonces (g_conflicts g)) (as_str a, m) \<Longrightarrow> unat m \<le> at_nonce c"
    and got: "unat (balance (g_state g) to) = at_got c" and cnt: "unat (g_total_count g) = at_sent c + 1"
    using at by (auto simp: chain_at_def)
  have cost: "unat v + unat (base_fee RELYO_CONFIG) < 2 ^ 64"
    using v(3) bal unat_u64_bound [of "balance (g_state g) a"] by simp
  then have sum: "unat (v + base_fee RELYO_CONFIG) = unat v + 1000000" by (simp add: unat_add_no_wrap)
  have small: "ledger_total (g_state g) < 2 ^ 64" using total v(4) by simp
  have funds: "v + base_fee RELYO_CONFIG \<le> balance (g_state g) a" using v(3) bal sum by (simp add: word_le_unat)
  have succ: "unat (w + 1) = unat w + 1" if "unat w \<le> at_sent c + 1" for w :: u64
    using that n(2) by (simp add: unat_add_no_wrap)
  have n_eq: "n = nonce (g_state g) a + 1" 
    using n(1,3) nonce succ [of "nonce (g_state g) a"] by (simp only: word_unat_eq_iff)
  have "validate C ?tx = Inr ()"
    using base_transfer_valid [OF ok, of ts to v n] v(1,2) by (simp add: next_transfer_base a_def)
  moreover have "sat_add (total_circulating (g_state g)) v \<le> SUPPLY_CAP"
    using total v(4) by (simp add: word_le_unat unat_sat_add total_circulating_small [OF small])
  moreover have "\<not> has_key (committed_nonces (g_conflicts g)) (nonce_key ?tx)"
    using used [of n] n(1) by (auto simp: nonce_key_def tx)
  ultimately have acc: "acceptable C g ?tx"
    using cost funds keys prev h n_eq [symmetric] by (simp add: acceptable_def tx has_key_iff)
  let ?g = "accepted C now (lock_sender g ?tx) ?tx"
  have ins: "dag_insert C now g ?tx = (Inr h, ?g)" using dag_insert_acceptable [OF acc] h(1) by simp
  have "balance_total (g_state g) < 2 ^ 64" using small by (simp add: ledger_total_def)
  note moved = ledger_accounts.payment(2) [OF this cost funds, of to]
  have state: "g_state ?g = pay (g_state g) ?tx" by simp
  have left: "unat (balance (g_state ?g) a) = at_left c - (unat v + 1000000)"
    and got': "unat (balance (g_state ?g) to) = at_got c + unat v"
    using moved [of a] moved [of to] v(2) bal got unfolding state by (simp_all add: pay_def tx)
  have total': "ledger_total (g_state ?g) \<le> fund"
    using pay_total [of "g_state g" ?tx] small cost funds total by (simp add: tx)
  have nonce': "nonce (g_state ?g) a = n"
    by (simp add: pay_def tx ledger_accounts.payment_nonce n_eq [symmetric])
  have nd: "new_depth (lock_sender g ?tx) ?tx = node_depth g (at_prev c) + 1"
    and "node_depth (g\<lparr>g_state := s, g_conflicts := x\<rparr>) p = node_depth g p" for s x p
    by (simp_all add: new_depth_def tx node_depth_def)
  then have d: "new_depth ((lock_sender g ?tx)\<lparr>g_state := s, g_conflicts := x\<rparr>) ?tx = node_depth g (at_prev c) + 1"
    for s x by (simp add: new_depth_def node_depth_def tx)
  have depth': "unat (node_depth ?g h) = at_sent c + 1"
    unfolding accepted_def h(1) [symmetric] node_depth_attach d using succ [of "node_depth g (at_prev c)"] depth(1) by simp
  have "unat (g_max_depth ?g) = at_sent c + 1"
    unfolding accepted_def attach_max_depth d using succ [of "node_depth g (at_prev c)"] depth by (simp add: unat_word_max)
  moreover have "set (keys (g_nodes ?g)) = insert h (at_hashes c)"
    using keys h unfolding accepted_def attach_keys by (auto simp: has_key_iff)
  moreover have "has_tip (g_tips ?g) x \<longleftrightarrow> x = h" for x
    unfolding accepted_def attach_tips h(1) [symmetric] by (auto simp: tx tips)
  moreover have "unat m \<le> at_nonce c + 1" if "has_key (committed_nonces (g_conflicts ?g)) (as_str a, m)" for m
    using that used [of m] n(1) by (auto simp: nonce_key_def tx)
  moreover have "unat (g_total_count ?g) = at_sent c + 2"
    using cnt n(2) succ [of "g_total_count g"] by (simp add: accepted_def)
  ultimately have "chain_at a to fund ?g (chain_next h (unat v) 1000000 c)"
    using left got' total' nonce' n(1) depth' by (simp add: chain_at_def chain_next_def)
  with ins show ?thesis by blast
qed

lemma chain_at_status: "chain_at a to fund g c \<Longrightarrow> chain_at a to fund (set_status g h st) c"
proof -
  have "node_depth (set_status g h st) x = node_depth g x" for x
    by (cases "map_of (g_nodes g) x") (simp_all add: node_depth_def set_status_nodes)
  then show "chain_at a to fund g c \<Longrightarrow> chain_at a to fund (set_status g h st) c" by (simp add: chain_at_def)
qed

text \<open>What a list of transfers costs, and what it pays to the receiver.\<close>

definition chain_cost :: "u64 list \<Rightarrow> nat" where
  "chain_cost vs = (\<Sum>v\<leftarrow>vs. unat v + 1000000)"

definition chain_pay :: "u64 list \<Rightarrow> nat" where
  "chain_pay vs = (\<Sum>v\<leftarrow>vs. unat v)"

lemma chain_cost_simps [simp]:
  "chain_cost [] = 0" "chain_cost (v # vs) = unat v + 1000000 + chain_cost vs"
  "chain_pay [] = 0" "chain_pay (v # vs) = unat v + chain_pay vs"
  by (simp_all add: chain_cost_def chain_pay_def)

lemma chain_cost_length: "length vs * 1000000 \<le> chain_cost vs"
  by (induction vs) auto

lemma chain_hashes_length [simp]: "length (chain_hashes C ts kp to prev n vs) = length vs"
  by (induction vs arbitrary: prev n) (simp_all add: Let_def)

lemma chain_run:
  fixes C kp to
  defines "a \<equiv> from_public_key C (kp_public_key kp)"
  assumes ok: "crypto_ok C" "keypair_ok C kp" "to \<noteq> a"
    and post: "\<And>g h c. chain_at a to fund g c \<Longrightarrow> chain_at a to fund (post g h) c"
  shows "chain_at a to fund g c \<Longrightarrow> \<forall>v \<in> set vs. v \<noteq> 0 \<and> fund + unat v \<le> 2500000000000000000 \<Longrightarrow>
    chain_cost vs \<le> at_left c \<Longrightarrow> unat n = at_nonce c + 1 \<Longrightarrow> at_nonce c \<le> at_sent c \<Longrightarrow> at_sent c + length vs + 1 < 2 ^ 64 \<Longrightarrow>
    distinct (chain_hashes C ts kp to (at_prev c) n vs) \<Longrightarrow>
    set (chain_hashes C ts kp to (at_prev c) n vs) \<inter> at_hashes c = {} \<Longrightarrow>
    \<exists>g'. send_chain post C now ts kp to g (at_prev c) n vs = (Inr (last (at_prev c # chain_hashes C ts kp to (at_prev c) n vs)), g') \<and>
      chain_at a to fund g' \<lparr>at_prev = last (at_prev c # chain_hashes C ts kp to (at_prev c) n vs),
        at_hashes = at_hashes c \<union> set (chain_hashes C ts kp to (at_prev c) n vs), at_sent = at_sent c + length vs,
        at_nonce = at_nonce c + length vs,
        at_left = at_left c - chain_cost vs, at_got = at_got c + chain_pay vs\<rparr>"
proof (induction vs arbitrary: g c n)
  case Nil
  then show ?case by (cases c) simp
next
  case (Cons v vs)
  let ?h = "tx_hash C (next_transfer C ts kp to v n (at_prev c))"
  let ?c = "chain_next ?h (unat v) 1000000 c"
  have "chain_hashes C ts kp to (at_prev c) n (v # vs) = ?h # chain_hashes C ts kp to ?h (n + 1) vs"
    by (simp add: Let_def)
  note hs = this
  have n1: "unat (n + 1) = unat n + 1" using Cons.prems(4-6) by (simp add: unat_add_no_wrap)
  obtain g' where ins: "dag_insert C now g (next_transfer C ts kp to v n (at_prev c)) = (Inr ?h, g')"
    and at: "chain_at a to fund g' ?c"
    using chain_step [OF ok(1,2), where to = to and v = v and g = g and c = c and n = n and ts = ts and now = now
        and fund = fund and h = ?h] ok(3) Cons.prems hs unfolding a_def by auto
  have "\<exists>g''. send_chain post C now ts kp to (post g' ?h) (at_prev ?c) (n + 1) vs
      = (Inr (last (at_prev ?c # chain_hashes C ts kp to (at_prev ?c) (n + 1) vs)), g'') \<and>
    chain_at a to fund g'' \<lparr>at_prev = last (at_prev ?c # chain_hashes C ts kp to (at_prev ?c) (n + 1) vs),
        at_hashes = at_hashes ?c \<union> set (chain_hashes C ts kp to (at_prev ?c) (n + 1) vs), at_sent = at_sent ?c + length vs,
        at_nonce = at_nonce ?c + length vs,
        at_left = at_left ?c - chain_cost vs, at_got = at_got ?c + chain_pay vs\<rparr>"
    by (rule Cons.IH [OF post [OF at]]) (use Cons.prems hs n1 in \<open>auto simp: chain_next_def\<close>)
  then show ?case by (simp add: ins Let_def chain_next_def add.assoc)
qed

lemma setup_parts:
  assumes "setup_dag_with_genesis C now ts a kp fund = (r, g)"
  shows "r = Inr (tx_hash C (genesis_allocation C ts kp a fund)) \<and>
    chain_at a to (unat fund) g \<lparr>at_prev = tx_hash C (genesis_allocation C ts kp a fund),
      at_hashes = {tx_hash C (genesis_allocation C ts kp a fund)}, at_sent = 0, at_nonce = 0, at_left = unat fund,
      at_got = (if to = a then unat fund else 0)\<rparr>"
proof -
  have tx: "is_genesis (genesis_allocation C ts kp a fund)" "tx_receiver (genesis_allocation C ts kp a fund) = a"
    "tx_amount (genesis_allocation C ts kp a fund) = fund"
    by (simp_all add: genesis_allocation_def Let_def is_genesis_def is_zero_def zero_hash_def)
  show ?thesis
    using assms demo_total [of a fund]
    by (auto simp: setup_dag_with_genesis_def insert_genesis_def tx graph_new_def Let_def chain_at_def
        node_depth_def tips_new_def add_tip_def has_tip_def conflicts_new_def demo_balance_credit nonce_def)
      (auto simp: credit_def ledger_new_def)
qed

lemma setup_fresh:
  assumes "setup_dag_with_genesis C now ts a kp fund = (r, g)"
  shows "nonce (g_state g) b = 0" "to \<noteq> a \<Longrightarrow> balance (g_state g) to = 0"
    "\<not> has_key (committed_nonces (g_conflicts g)) k"
proof -
  have "is_genesis (genesis_allocation C ts kp a fund)" "tx_receiver (genesis_allocation C ts kp a fund) = a"
    by (simp_all add: genesis_allocation_def Let_def is_genesis_def is_zero_def zero_hash_def)
  with assms have parts: "g_state g = credit ledger_new a (tx_amount (genesis_allocation C ts kp a fund))"
    "g_conflicts g = conflicts_new"
    by (auto simp: setup_dag_with_genesis_def insert_genesis_def graph_new_def Let_def)
  show "to \<noteq> a \<Longrightarrow> balance (g_state g) to = 0" "\<not> has_key (committed_nonces (g_conflicts g)) k"
    by (simp_all add: parts demo_balance_credit conflicts_new_def)
  show "nonce (g_state g) b = 0"
    by (simp add: parts nonce_def credit_def ledger_new_def)
qed

text \<open>The loop on a fresh graph.\<close>

lemma funded_chain:
  fixes vs :: "u64 list"
  defines "hashes \<equiv> \<lambda>C ts kp to h0. h0 # chain_hashes C ts kp to h0 1 vs"
  assumes "crypto_ok C" "keypair_ok C kp" "a = from_public_key C (kp_public_key kp)" "to \<noteq> a"
    and "setup_dag_with_genesis C now0 ts0 a kp fund = (Inr h0, g0)"
    and "\<forall>v \<in> set vs. v \<noteq> 0 \<and> unat fund + unat v \<le> 2500000000000000000" "chain_cost vs \<le> unat fund"
    and "distinct (hashes C ts kp to h0)"
    and "\<And>g h c. chain_at a to (unat fund) g c \<Longrightarrow> chain_at a to (unat fund) (post g h) c"
  shows "\<exists>g. send_chain post C now ts kp to g0 h0 1 vs = (Inr (last (hashes C ts kp to h0)), g) \<and>
    chain_at a to (unat fund) g \<lparr>at_prev = last (hashes C ts kp to h0), at_hashes = set (hashes C ts kp to h0),
      at_sent = length vs, at_nonce = length vs, at_left = unat fund - chain_cost vs, at_got = chain_pay vs\<rparr> \<and>
    length vs + 1 < 2 ^ 64"
proof -
  let ?c = "\<lparr>at_prev = h0, at_hashes = {h0}, at_sent = 0, at_nonce = 0, at_left = unat fund, at_got = 0\<rparr>"
  have at: "chain_at a to (unat fund) g0 ?c" using setup_parts [OF assms(6), of to] assms(5) by simp
  have "length vs + 1 < 2 ^ 64" using chain_cost_length [of vs] assms(8) unat_u64_bound [of fund] by simp
  with chain_run [OF assms(2,3), of to "unat fund" post g0 ?c vs 1 ts now] at assms(4,5,7-10)
  show ?thesis by (auto simp: hashes_def)
qed

section \<open>Properties\<close>

text \<open>C4: An account that the genesis funds can spend, as far as the supply check lets it: every list of
  positive amounts whose sum, with one base fee each, is at most the fund is accepted in full by the loop
  of the tests, whoever the other account is, provided that the fund plus each single amount is at most
  the supply cap (\<open>insert\<close> adds the amount of a transfer to the circulating supply as if it were new)
  and that the hashes of the genesis and of the transfers are distinct; at the end the sender has the
  rest, the receiver the sum of the amounts, the sender's nonce and the depth of the graph are the number
  of transfers, the graph holds one node more than that, and the last transfer is its only tip.\<close>

theorem funded_account_spends:
  fixes vs :: "u64 list"
  assumes "crypto_ok C" "keypair_ok C kp" "a = from_public_key C (kp_public_key kp)" "to \<noteq> a"
    and "setup_dag_with_genesis C now0 ts0 a kp fund = (Inr h0, g0)"
    and "\<forall>v \<in> set vs. v \<noteq> 0 \<and> unat fund + unat v \<le> 2500000000000000000" "chain_cost vs \<le> unat fund"
    and "distinct (h0 # chain_hashes C ts kp to h0 1 vs)"
  shows "\<exists>g h. send_chain (\<lambda>g h. g) C now ts kp to g0 h0 1 vs = (Inr h, g) \<and>
    unat (balance (g_state g) a) = unat fund - chain_cost vs \<and> unat (balance (g_state g) to) = chain_pay vs \<and>
    unat (nonce (g_state g) a) = length vs \<and> unat (g_max_depth g) = length vs \<and>
    unat (g_total_count g) = length vs + 1 \<and> (\<forall>x. has_tip (g_tips g) x \<longleftrightarrow> x = h)"
  using funded_chain [OF assms, of "\<lambda>g h. g" now] by (auto simp: chain_at_def)

text \<open>The cap on the supply guards nothing that the balances do not: \<open>insert\<close> answers with
  \<open>SupplyCapExceeded\<close> only when the sender owns the amount and the fee; a transaction beyond the cap
  from an account without funds, as the network test sends it, gets another error.\<close>

theorem cap_error_needs_funds:
  "(fst (dag_insert C now g tx) = Inl (SupplyCapExceeded s) \<longrightarrow>
      unat (tx_amount tx) + unat (tx_fee tx) \<le> unat (balance (g_state g) (tx_sender tx))) \<and>
   (crypto_ok C \<and> keypair_ok C kp \<and>
      tx' = builder_sign C ts kp ((builder_new (from_public_key C (kp_public_key kp)) (genesis_address C)
        (25000000001 * RLY_UNIT) 10000000 1)\<lparr>b_tx_type := Genesis\<rparr>) \<longrightarrow>
      fst (dag_insert C now (graph_new ledger_new tips_new conflicts_new) tx')
        = Inl (InsufficientBalance 0 (25000000001 * RLY_UNIT + 10000000)))"
proof -
  have first: "unat (tx_amount tx) + unat (tx_fee tx) \<le> unat (balance (g_state g) (tx_sender tx))"
    if cap: "fst (dag_insert C now g tx) = Inl (SupplyCapExceeded s)"
  proof (cases "validate C tx")
    case (Inl e)
    then have "validate C tx = Inl (SupplyCapExceeded s)" using cap by (simp add: dag_insert_eq)
    then show ?thesis
      by (simp add: validate_def verify_sender_def verify_signature_def verify_def try_then_def split: option.splits if_splits)
  next
    case (Inr u)
    show ?thesis
    proof (cases "checked_add (tx_amount tx) (tx_fee tx)")
      case None
      then show ?thesis using cap Inr by (simp add: dag_insert_eq)
    next
      case (Some total)
      then have "\<not> balance (g_state g) (tx_sender tx) < total" using cap Inr by (auto simp: dag_insert_eq)
      then show ?thesis using Some by (simp add: checked_add_Some word_less_unat unat_add_no_wrap)
    qed
  qed
  have second: "fst (dag_insert C now (graph_new ledger_new tips_new conflicts_new) tx')
        = Inl (InsufficientBalance 0 (25000000001 * RLY_UNIT + 10000000))"
    if "crypto_ok C" "keypair_ok C kp"
      "tx' = builder_sign C ts kp ((builder_new (from_public_key C (kp_public_key kp)) (genesis_address C)
        (25000000001 * RLY_UNIT) 10000000 1)\<lparr>b_tx_type := Genesis\<rparr>)"
  proof -
    have "validate C tx' = Inr ()"
      using that by (simp add: validate_Inr builder_sign_verifies builder_new_def base_fee_num)
    moreover have "tx_amount tx' = 25000000001 * RLY_UNIT" "tx_fee tx' = 10000000"
      using that(3) by (simp_all add: builder_new_def)
    ultimately show ?thesis
      by (simp add: dag_insert_eq graph_new_def checked_add_def RLY_UNIT_def balance_def ledger_new_def)
  qed
  show ?thesis using first second by blast
qed

section \<open>Witnesses\<close>

definition demo_start_hash :: transaction_hash where
  "demo_start_hash = tx_hash demo_crypto (genesis_allocation demo_crypto 0 demo_kp demo_addr 5000000)"

lemma demo_chain_distinct:
  "distinct (demo_start_hash # chain_hashes demo_crypto 7 demo_kp (Address ''R'') demo_start_hash 1 [250, 7])"
  by code_simp

theorem funded_account_spends_witness:
  "\<exists>g h. send_chain (\<lambda>g h. g) demo_crypto 0 7 demo_kp (Address ''R'')
      (snd (setup_dag_with_genesis demo_crypto 0 0 demo_addr demo_kp 5000000)) demo_start_hash 1 [250, 7] = (Inr h, g) \<and>
    unat (balance (g_state g) demo_addr) = 2999743"
proof -
  obtain r g0 where s: "setup_dag_with_genesis demo_crypto 0 0 demo_addr demo_kp 5000000 = (r, g0)" by fastforce
  with setup_parts [OF s] have start: "setup_dag_with_genesis demo_crypto 0 0 demo_addr demo_kp 5000000 = (Inr demo_start_hash, g0)"
    by (simp add: demo_start_hash_def)
  have kp: "keypair_ok demo_crypto demo_kp" by (simp add: demo_kp_def keypair_ok_intros)
  have ne: "Address ''R'' \<noteq> demo_addr" by (rule demo_addr_not_R [symmetric])
  have pos: "\<forall>v \<in> set [250, 7 :: u64]. v \<noteq> 0 \<and> unat (5000000 :: u64) + unat v \<le> 2500000000000000000" by simp
  have cost: "chain_cost [250, 7] \<le> unat (5000000 :: u64)" by simp
  from funded_account_spends [where now = 0, OF demo_crypto_ok kp demo_addr_def ne start pos cost demo_chain_distinct]
  obtain g h where "send_chain (\<lambda>g h. g) demo_crypto 0 7 demo_kp (Address ''R'') g0 demo_start_hash 1 [250, 7] = (Inr h, g)"
    "unat (balance (g_state g) demo_addr) = unat (5000000 :: u64) - chain_cost [250, 7]"
    by (elim exE conjE)
  then show ?thesis using s by simp
qed

theorem cap_error_needs_funds_witness:
  "fst (dag_insert demo_crypto 0 (graph_new ledger_new tips_new conflicts_new)
     (builder_sign demo_crypto 7 demo_kp ((builder_new demo_addr (genesis_address demo_crypto)
        (25000000001 * RLY_UNIT) 10000000 1)\<lparr>b_tx_type := Genesis\<rparr>)))
    = Inl (InsufficientBalance 0 (25000000001 * RLY_UNIT + 10000000))"
proof -
  have "keypair_ok demo_crypto demo_kp" by (simp add: demo_kp_def keypair_ok_intros)
  then show ?thesis
    using demo_crypto_ok
    by (intro cap_error_needs_funds [THEN conjunct2, rule_format]) (simp add: demo_addr_def)
qed

end
