(* ===== verification/ChainTests.thy ===== *)
theory ChainTests
  imports Scenarios Traversal Replicas
begin

text \<open>
  The other flows of \<open>tests/integration.rs\<close> as runs of the model: the shape of the graph that the loop of
  transfers builds (\<open>line\<close>), its ancestors and descendants, its pruning once it is confirmed, refused
  transfers, a transfer of received funds, and a mempool drained into a graph.
\<close>

section \<open>A line of transactions\<close>

text \<open>Each node after the first has the previous one as both parents; \<open>st\<close> is the status of all but the first.\<close>

definition line_node :: "transaction_status \<Rightarrow> transaction_hash list \<Rightarrow> nat \<Rightarrow> dag_node \<Rightarrow> bool" where
  "line_node st hs k n \<longleftrightarrow> unat (dn_depth n) = k \<and>
     dn_status n = (if k = 0 then Confirmed else st) \<and>
     dn_children n = (if Suc k < length hs then [hs ! Suc k, hs ! Suc k] else []) \<and>
     parent_links n = (if k = 0 then [] else [hs ! (k - 1), hs ! (k - 1)])"

definition line :: "transaction_status \<Rightarrow> dag_graph \<Rightarrow> transaction_hash list \<Rightarrow> bool" where
  "line st g hs \<longleftrightarrow> hs \<noteq> [] \<and> distinct hs \<and> zero_hash \<notin> set hs \<and>
     distinct (keys (g_nodes g)) \<and> set (keys (g_nodes g)) = set hs \<and>
     (\<forall>k<length hs. \<exists>n. map_of (g_nodes g) (hs ! k) = Some n \<and> line_node st hs k n)"

lemma line_nodeD:
  "line st g hs \<Longrightarrow> k < length hs \<Longrightarrow> \<exists>n. map_of (g_nodes g) (hs ! k) = Some n \<and> line_node st hs k n"
  unfolding line_def by blast

text \<open>The graph after one more transaction, up to its status.\<close>

lemma line_grow:
  assumes l: "line st g hs" and h: "h \<notin> set hs" "h \<noteq> zero_hash" "length hs < 2 ^ 64"
    and tx: "tx_parent_1 tx = last hs" "tx_parent_2 tx = last hs" "\<not> is_genesis tx"
    and keys: "keys (g_nodes g') = keys (g_nodes g) @ [h]"
    and nodes: "\<And>x. map_of (g_nodes g') x = (if x = h then Some \<lparr>dn_tx = tx, dn_hash = h, dn_status = st,
        dn_children = [], dn_weight = 1, dn_depth = new_depth g tx\<rparr>
      else map_option (link tx h x) (map_of (g_nodes g) x))"
  shows "line st g' (hs @ [h])"
proof -
  let ?hs = "hs @ [h]"
  have hs: "hs \<noteq> []" "distinct hs" using l by (simp_all add: line_def)
  then have last: "last hs = hs ! (length hs - 1)" "length hs - 1 < length hs" by (simp_all add: last_conv_nth)
  from line_nodeD [OF l last(2)] obtain p where
    p: "map_of (g_nodes g) (last hs) = Some p" "unat (dn_depth p) = length hs - 1"
    by (auto simp: last line_node_def)
  have "unat (dn_depth p + 1) = length hs"
    using p(2) h(3) hs(1) by (simp add: unat_add_no_wrap)
  then have depth: "unat (new_depth g tx) = length hs"
    using tx p by (simp add: new_depth_def node_depth_def)
  have nonzero: "\<not> is_zero (last hs)" using l last_in_set [OF hs(1)] unfolding line_def is_zero_iff by metis
  have new: "\<exists>n. map_of (g_nodes g') (?hs ! k) = Some n \<and> line_node st ?hs k n" if "k = length hs" for k
    using that hs(1) depth nonzero by (simp add: nodes line_node_def parent_links_def tx last(1) nth_append)
  have old: "\<exists>n. map_of (g_nodes g') (?hs ! k) = Some n \<and> line_node st ?hs k n" if k: "k < length hs" for k
  proof -
    obtain n where n: "map_of (g_nodes g) (hs ! k) = Some n" "line_node st hs k n"
      using line_nodeD [OF l k] by blast
    have ne: "hs ! k \<noteq> h" using k h(1) by auto
    have "slots tx h (hs ! k) = (if Suc k = length hs then [h, h] else [])"
      using k tx nth_eq_iff_index_eq [OF hs(2) k last(2)] by (auto simp: slots_def last(1))
    moreover have "parent_links (link tx h x n) = parent_links n" "dn_status (link tx h x n) = dn_status n" for x
      by (simp_all add: parent_links_def link_def)
    ultimately have "line_node st ?hs k (link tx h (hs ! k) n)"
      using n(2) k by (auto simp: line_node_def nth_append)
    then show ?thesis using n(1) k ne by (simp add: nodes nth_append)
  qed
  have "\<exists>n. map_of (g_nodes g') (?hs ! k) = Some n \<and> line_node st ?hs k n" if "k < length ?hs" for k
    using that old [of k] new [of k] by (cases "k = length hs") simp_all
  moreover have "set (keys (g_nodes g)) = set hs" "distinct (keys (g_nodes g))" using l by (simp_all add: line_def)
  ultimately show ?thesis
    using l h(1,2) keys unfolding line_def by simp
qed

lemma accepted_nodes:
  assumes "\<not> has_key (g_nodes g) (tx_hash C tx)"
  shows "keys (g_nodes (accepted C now (lock_sender g tx) tx)) = keys (g_nodes g) @ [tx_hash C tx]"
    and "map_of (g_nodes (accepted C now (lock_sender g tx) tx)) x =
      (if x = tx_hash C tx then Some \<lparr>dn_tx = tx, dn_hash = tx_hash C tx, dn_status = Pending,
         dn_children = [], dn_weight = 1, dn_depth = new_depth g tx\<rparr>
       else map_option (link tx (tx_hash C tx) x) (map_of (g_nodes g) x))"
  using assms
  by (simp_all add: accepted_def attach_keys attach_nodes lock_sender_def new_depth_def node_depth_def)

text \<open>What the loop does after an insertion, and the status it leaves.\<close>

definition marks :: "transaction_status \<Rightarrow> (dag_graph \<Rightarrow> transaction_hash \<Rightarrow> dag_graph) \<Rightarrow> bool" where
  "marks st post \<longleftrightarrow> st = Pending \<and> post = (\<lambda>g h. g) \<or> post = (\<lambda>g h. set_status g h st)"

lemma line_insert:
  assumes "line st g hs" "length hs < 2 ^ 64" "marks st post" "tx_hash C tx \<noteq> zero_hash"
    and tx: "tx_parent_1 tx = last hs" "tx_parent_2 tx = last hs" "\<not> is_genesis tx"
    and ins: "dag_insert C now g tx = (Inr h, g')"
  shows "line st (post g' h) (hs @ [h])"
proof -
  have acc: "acceptable C g tx" and h: "h = tx_hash C tx" and g': "g' = accepted C now (lock_sender g tx) tx"
    using ins by (auto simp: dag_insert_Inr)
  have fresh: "\<not> has_key (g_nodes g) h" using acc h by (simp add: acceptable_def)
  have "h \<notin> set hs" using fresh assms(1) by (auto simp: line_def has_key_iff)
  note grow = line_grow [OF assms(1) this _ assms(2) tx]
  note parts = accepted_nodes [of g C tx now, folded h g', OF fresh]
  have keys: "keys (g_nodes (post g' h)) = keys (g_nodes g) @ [h]"
    using assms(3) parts(1) by (auto simp: marks_def)
  have nodes: "map_of (g_nodes (post g' h)) x = (if x = h then Some \<lparr>dn_tx = tx, dn_hash = h, dn_status = st,
      dn_children = [], dn_weight = 1, dn_depth = new_depth g tx\<rparr>
    else map_option (link tx h x) (map_of (g_nodes g) x))" for x
    using assms(3) parts(2) [of x]
    by (cases "map_of (g_nodes g) x") (auto simp: marks_def set_status_nodes)
  show ?thesis by (rule grow [OF _ keys nodes]) (use assms(4) h in simp)
qed

lemma send_chain_line:
  assumes "marks st post"
  shows "line st g hs \<Longrightarrow> prev = last hs \<Longrightarrow> length hs + length vs < 2 ^ 64 \<Longrightarrow>
    zero_hash \<notin> set (chain_hashes C ts kp to prev n vs) \<Longrightarrow>
    send_chain post C now ts kp to g prev n vs = (Inr h, g') \<Longrightarrow>
    line st g' (hs @ chain_hashes C ts kp to prev n vs)"
proof (induction vs arbitrary: g hs prev n)
  case (Cons v vs)
  let ?tx = "next_transfer C ts kp to v n prev"
  have tx: "tx_parent_1 ?tx = last hs" "tx_parent_2 ?tx = last hs" "\<not> is_genesis ?tx"
    using Cons.prems(2) by (simp_all add: next_transfer_base is_genesis_def)
  obtain h' g1 where ins: "dag_insert C now g ?tx = (Inr h', g1)"
    and rest: "send_chain post C now ts kp to (post g1 h') h' (n + 1) vs = (Inr h, g')"
    using Cons.prems(5) by (auto split: prod.splits sum.splits)
  have h': "h' = tx_hash C ?tx" using ins by (auto simp: dag_insert_Inr)
  have nz: "tx_hash C ?tx \<noteq> zero_hash" using Cons.prems(4) by (auto simp: Let_def)
  have "line st (post g1 h') (hs @ [h'])"
    by (rule line_insert [OF Cons.prems(1) _ assms nz tx ins]) (use Cons.prems(3) in simp)
  from Cons.IH [OF this _ _ _ rest] Cons.prems(3,4) show ?case by (simp add: h' Let_def)
qed simp

section \<open>Walks along a line\<close>

inductive_simps walk_zero: "walk nodes nxt V 0 x z"
inductive_simps walk_Suc: "walk nodes nxt V (Suc k) x z"

lemma line_up:
  assumes "line st g hs" "k < length hs"
  shows "walk (g_nodes g) parent_links {} m (hs ! k) z \<longleftrightarrow> m \<le> k \<and> z = hs ! (k - m)"
  using assms(2)
proof (induction m arbitrary: k)
  case 0
  with line_nodeD [OF assms(1) 0] show ?case by (auto simp: walk_zero)
next
  case (Suc m)
  obtain n where n: "map_of (g_nodes g) (hs ! k) = Some n" "line_node st hs k n"
    using line_nodeD [OF assms(1) Suc.prems] by blast
  have "walk (g_nodes g) parent_links {} (Suc m) (hs ! k) z \<longleftrightarrow>
      (\<exists>y \<in> set (parent_links n). walk (g_nodes g) parent_links {} m y z)"
    using n(1) by (auto simp: walk_Suc)
  also have "\<dots> \<longleftrightarrow> 0 < k \<and> walk (g_nodes g) parent_links {} m (hs ! (k - 1)) z"
    using n(2) by (auto simp: line_node_def)
  also have "\<dots> \<longleftrightarrow> Suc m \<le> k \<and> z = hs ! (k - Suc m)"
    using Suc.IH [of "k - 1"] Suc.prems by (cases k) auto
  finally show ?case .
qed

lemma line_down:
  assumes "line st g hs" "k < length hs"
  shows "walk (g_nodes g) dn_children {} m (hs ! k) z \<longleftrightarrow> k + m < length hs \<and> z = hs ! (k + m)"
  using assms(2)
proof (induction m arbitrary: k)
  case 0
  with line_nodeD [OF assms(1) 0] show ?case by (auto simp: walk_zero)
next
  case (Suc m)
  obtain n where n: "map_of (g_nodes g) (hs ! k) = Some n" "line_node st hs k n"
    using line_nodeD [OF assms(1) Suc.prems] by blast
  have "walk (g_nodes g) dn_children {} (Suc m) (hs ! k) z \<longleftrightarrow>
      (\<exists>y \<in> set (dn_children n). walk (g_nodes g) dn_children {} m y z)"
    using n(1) by (auto simp: walk_Suc)
  also have "\<dots> \<longleftrightarrow> Suc k < length hs \<and> walk (g_nodes g) dn_children {} m (hs ! Suc k) z"
    using n(2) by (auto simp: line_node_def)
  also have "\<dots> \<longleftrightarrow> k + Suc m < length hs \<and> z = hs ! (k + Suc m)"
    using Suc.IH [of "Suc k"] by auto
  finally show ?case .
qed

lemma line_setup:
  assumes "setup_dag_with_genesis C now ts a kp fund = (Inr h0, g0)" "h0 \<noteq> zero_hash"
  shows "line st g0 [h0]"
proof -
  have tx: "is_genesis (genesis_allocation C ts kp a fund)" "tx_parent_1 (genesis_allocation C ts kp a fund) = zero_hash"
    "tx_parent_2 (genesis_allocation C ts kp a fund) = zero_hash"
    by (simp_all add: genesis_allocation_def Let_def is_genesis_def is_zero_def zero_hash_def)
  have "is_zero zero_hash" by (simp add: is_zero_iff)
  with assms tx show ?thesis
    by (auto simp: setup_dag_with_genesis_def insert_genesis_def graph_new_def Let_def line_def line_node_def parent_links_def)
qed

lemma marks_keep:
  "marks st post \<Longrightarrow> chain_at a to fund g c \<Longrightarrow> chain_at a to fund (post g h) c"
  by (auto simp: marks_def chain_at_status)

text \<open>The loop on a fresh graph leaves a line.\<close>

lemma funded_line:
  fixes vs :: "u64 list"
  assumes "crypto_ok C" "keypair_ok C kp" "a = from_public_key C (kp_public_key kp)" "to \<noteq> a"
    and "setup_dag_with_genesis C now0 ts0 a kp fund = (Inr h0, g0)"
    and "\<forall>v \<in> set vs. v \<noteq> 0 \<and> unat fund + unat v \<le> 2500000000000000000" "chain_cost vs \<le> unat fund"
    and "distinct (zero_hash # h0 # chain_hashes C ts kp to h0 1 vs)" "marks st post"
  shows "\<exists>g h. send_chain post C now ts kp to g0 h0 1 vs = (Inr h, g) \<and>
    line st g (h0 # chain_hashes C ts kp to h0 1 vs) \<and> unat (g_max_depth g) = length vs \<and> length vs + 1 < 2 ^ 64"
proof -
  have "distinct (h0 # chain_hashes C ts kp to h0 1 vs)" using assms(8) by simp
  from funded_chain [OF assms(1-7) this, of post now, OF marks_keep [OF assms(9)]]
  obtain g h where run: "send_chain post C now ts kp to g0 h0 1 vs = (Inr h, g)"
    and "unat (g_max_depth g) = length vs" "length vs + 1 < 2 ^ 64"
    by (auto simp: chain_at_def)
  moreover have "line st g ([h0] @ chain_hashes C ts kp to h0 1 vs)"
    by (rule send_chain_line [OF assms(9) line_setup [OF assms(5)] _ _ _ run])
      (use assms(8) calculation(3) in auto)
  ultimately show ?thesis by auto
qed

section \<open>Batches\<close>

lemma batch_progress:
  "insert_batch C now g txs = (hashes, g') \<Longrightarrow> tx \<in> set txs \<Longrightarrow> acceptable C g tx \<Longrightarrow> hashes \<noteq> []"
proof (induction txs arbitrary: g hashes)
  case (Cons u txs)
  show ?case
  proof (cases "acceptable C g u")
    case True
    with Cons.prems(1) show ?thesis by (auto simp: dag_insert_acceptable [OF True] split: prod.splits)
  next
    case False
    with dag_insert_result [of C g u now] obtain e d where
      d: "dag_insert C now g u = (Inl e, d)" "d \<in> {g, lock_sender g u}" by auto
    have "tx \<in> set txs" "acceptable C d tx" using Cons.prems(2,3) False d(2) by auto
    with Cons.IH [of d hashes] Cons.prems(1) d(1) show ?thesis by simp
  qed
qed simp

lemma drain_everything:
  assumes "drain_batch mp k = (batch, mp')" "distinct (keys (mp_txs mp))" "length (mp_txs mp) \<le> k"
  shows "set batch = snd ` set (mp_txs mp) \<and> mp_txs mp' = []"
proof -
  note all = drain_sorted(2,3) [where m = tx_timestamp and f = "\<lambda>t. t", OF assms(2) assms(1) [unfolded drain_batch_def Let_def]]
  have "length batch = length (mp_txs mp)" using all(1) assms(3) by simp
  moreover have "length (mp_txs mp) = length batch + length (mp_txs mp')"
    using arg_cong [OF all(2), of size] by simp
  ultimately have rest: "mp_txs mp' = []" by simp
  then have "mset (map snd (mp_txs mp)) = mset batch" using all(2) by simp
  from mset_eq_setD [OF this] rest show ?thesis by simp
qed

lemma take_drop_members:
  "x \<in> set (take m xs) \<longleftrightarrow> (\<exists>k<length xs. x = xs ! k \<and> k < m)"
  "x \<in> set (drop m xs) \<longleftrightarrow> (\<exists>k<length xs. x = xs ! k \<and> \<not> k < m)"
proof -
  show "x \<in> set (take m xs) \<longleftrightarrow> (\<exists>k<length xs. x = xs ! k \<and> k < m)"
    by (auto simp: in_set_conv_nth)
  have "k < length xs \<Longrightarrow> \<not> k < m \<Longrightarrow> xs ! k \<in> set (drop m xs)" for k
    by (auto simp: in_set_conv_nth intro: exI [of _ "k - m"])
  then show "x \<in> set (drop m xs) \<longleftrightarrow> (\<exists>k<length xs. x = xs ! k \<and> \<not> k < m)"
    by (auto simp: in_set_conv_nth) (metis add_diff_inverse_nat less_diff_conv not_add_less1 add.commute)
qed

section \<open>Properties\<close>

text \<open>In the graph that the loop of transfers builds from a funded genesis
  (for amounts that the supply check lets pass and distinct hashes, none of them zero), the ancestors of the
  \<open>k\<close>-th transaction within \<open>d\<close> levels are exactly the \<open>d\<close> transactions before it, back to the genesis, and its
  descendants exactly the \<open>d\<close> after it.\<close>

theorem chain_ancestors:
  fixes vs :: "u64 list"
  assumes "crypto_ok C" "keypair_ok C kp" "a = from_public_key C (kp_public_key kp)" "to \<noteq> a"
    and "setup_dag_with_genesis C now0 ts0 a kp fund = (Inr h0, g0)"
    and "\<forall>v \<in> set vs. v \<noteq> 0 \<and> unat fund + unat v \<le> 2500000000000000000" "chain_cost vs \<le> unat fund"
    and "hs = h0 # chain_hashes C ts kp to h0 1 vs" "distinct (zero_hash # hs)"
    and "k \<le> length vs" "unat d + 1 < 2 ^ 64"
  shows "\<exists>g h. send_chain (\<lambda>g h. g) C now ts kp to g0 h0 1 vs = (Inr h, g) \<and>
    set (get_ancestors g (hs ! k) d) = {hs ! j | j. j < k \<and> k \<le> j + unat d} \<and>
    set (get_descendants g (hs ! k) d) = {hs ! j | j. k < j \<and> j \<le> length vs \<and> j \<le> k + unat d}"
proof -
  have "marks Pending (\<lambda>g h. g)" by (simp add: marks_def)
  from funded_line [OF assms(1-7) _ this, of ts now] assms(8,9) obtain g h where
    run: "send_chain (\<lambda>g h. g) C now ts kp to g0 h0 1 vs = (Inr h, g)" and l: "line Pending g hs" by auto
  have len: "length hs = Suc (length vs)" and d: "distinct hs" using assms(8,9) by simp_all
  have k: "k < length hs" using assms(10) len by simp
  have "set (get_ancestors g (hs ! k) d) = {hs ! j | j. j < k \<and> k \<le> j + unat d}" (is "?L = ?R")
  proof -
    have "?L = {z. z \<noteq> hs ! k \<and> (\<exists>m. 1 \<le> m \<and> m \<le> unat d \<and> m \<le> k \<and> z = hs ! (k - m))}"
      using get_ancestors_exact [OF assms(11), of g "hs ! k"] by (simp add: line_up [OF l k])
    also have "\<dots> = ?R"
    proof (intro set_eqI iffI)
      fix z assume "z \<in> {z. z \<noteq> hs ! k \<and> (\<exists>m. 1 \<le> m \<and> m \<le> unat d \<and> m \<le> k \<and> z = hs ! (k - m))}"
      then obtain m where "1 \<le> m" "m \<le> unat d" "m \<le> k" "z = hs ! (k - m)" by auto
      then show "z \<in> ?R" by (intro CollectI exI [of _ "k - m"]) simp
    next
      fix z assume "z \<in> ?R"
      then obtain j where j: "z = hs ! j" "j < k" "k \<le> j + unat d" by auto
      then have "z \<noteq> hs ! k" using k d by (simp add: nth_eq_iff_index_eq)
      with j show "z \<in> {z. z \<noteq> hs ! k \<and> (\<exists>m. 1 \<le> m \<and> m \<le> unat d \<and> m \<le> k \<and> z = hs ! (k - m))}"
        by (intro CollectI conjI exI [of _ "k - j"]) simp_all
    qed
    finally show ?thesis .
  qed
  moreover have "set (get_descendants g (hs ! k) d) = {hs ! j | j. k < j \<and> j \<le> length vs \<and> j \<le> k + unat d}" (is "?L = ?R")
  proof -
    have "?L = {z. z \<noteq> hs ! k \<and> (\<exists>m. 1 \<le> m \<and> m \<le> unat d \<and> k + m < length hs \<and> z = hs ! (k + m))}"
      using get_descendants_exact [OF assms(11), of g "hs ! k"] by (simp add: line_down [OF l k])
    also have "\<dots> = ?R"
    proof (intro set_eqI iffI)
      fix z assume "z \<in> {z. z \<noteq> hs ! k \<and> (\<exists>m. 1 \<le> m \<and> m \<le> unat d \<and> k + m < length hs \<and> z = hs ! (k + m))}"
      then obtain m where "1 \<le> m" "m \<le> unat d" "k + m < length hs" "z = hs ! (k + m)" by auto
      then show "z \<in> ?R" using len by (intro CollectI exI [of _ "k + m"]) simp
    next
      fix z assume "z \<in> ?R"
      then obtain j where j: "z = hs ! j" "k < j" "j \<le> length vs" "j \<le> k + unat d" by auto
      then have "z \<noteq> hs ! k" using k d len by (simp add: nth_eq_iff_index_eq)
      with j len show "z \<in> {z. z \<noteq> hs ! k \<and> (\<exists>m. 1 \<le> m \<and> m \<le> unat d \<and> k + m < length hs \<and> z = hs ! (k + m))}"
        by (intro CollectI conjI exI [of _ "j - k"]) simp_all
    qed
    finally show ?thesis .
  qed
  ultimately show ?thesis using run by blast
qed

text \<open>When each transfer of the loop is confirmed at once
  (for amounts that the supply check lets pass and distinct hashes, none of them zero), pruning with depth \<open>d\<close> removes exactly the
  genesis and the transfers that have more than \<open>d\<close> transfers after them, and keeps the last ones.\<close>

theorem confirmed_chain_prunes:
  fixes vs :: "u64 list"
  assumes "crypto_ok C" "keypair_ok C kp" "a = from_public_key C (kp_public_key kp)" "to \<noteq> a"
    and "setup_dag_with_genesis C now0 ts0 a kp fund = (Inr h0, g0)"
    and "\<forall>v \<in> set vs. v \<noteq> 0 \<and> unat fund + unat v \<le> 2500000000000000000" "chain_cost vs \<le> unat fund"
    and "hs = h0 # chain_hashes C ts kp to h0 1 vs" "distinct (zero_hash # hs)"
  shows "\<exists>g h. send_chain (\<lambda>g h. set_status g h Confirmed) C now ts kp to g0 h0 1 vs = (Inr h, g) \<and>
    set (fst (prune_confirmed g d)) = set (take (length vs - unat d) hs) \<and>
    set (keys (g_nodes (snd (prune_confirmed g d)))) = set (drop (length vs - unat d) hs)"
proof -
  have "marks Confirmed (\<lambda>g h. set_status g h Confirmed)" by (simp add: marks_def)
  from funded_line [OF assms(1-7) _ this, of ts now] assms(8,9) obtain g h where
    run: "send_chain (\<lambda>g h. set_status g h Confirmed) C now ts kp to g0 h0 1 vs = (Inr h, g)"
    and l: "line Confirmed g hs" and depth: "unat (g_max_depth g) = length vs" by auto
  have len: "length hs = Suc (length vs)" and dk: "distinct (keys (g_nodes g))" "set (keys (g_nodes g)) = set hs"
    using assms(8) l by (simp_all add: line_def)
  obtain pruned g' where p: "prune_confirmed g d = (pruned, g')" by fastforce
  note exact = prune_confirmed_exact [OF p, of C 0]
  have node: "(x, n) \<in> set (g_nodes g) \<Longrightarrow> \<exists>k<length hs. x = hs ! k \<and> line_node Confirmed hs k n" for x n
  proof -
    assume in_g: "(x, n) \<in> set (g_nodes g)"
    then have "x \<in> set hs" using dk(2) by force
    then obtain k where k: "k < length hs" "x = hs ! k" by (metis in_set_conv_nth)
    moreover have "map_of (g_nodes g) x = Some n" using in_g dk(1) by simp
    ultimately show ?thesis using line_nodeD [OF l k(1)] by auto
  qed
  have at: "\<exists>n. (hs ! k, n) \<in> set (g_nodes g) \<and> line_node Confirmed hs k n" if "k < length hs" for k
    using line_nodeD [OF l that] by (auto dest: map_of_SomeD)
  have d: "distinct hs" using assms(9) by simp
  have old: "dn_status n = Confirmed \<and> unat d < unat (g_max_depth g) - unat (dn_depth n) \<longleftrightarrow> k < length vs - unat d"
    if "line_node Confirmed hs k n" for k n
    using that depth by (auto simp: line_node_def)
  have pick: "(\<exists>n. (x, n) \<in> set (g_nodes g) \<and> Q n) \<longleftrightarrow> (\<exists>k<length hs. x = hs ! k \<and> P k)"
    if "\<And>k n. line_node Confirmed hs k n \<Longrightarrow> Q n \<longleftrightarrow> P k" for x Q and P :: "nat \<Rightarrow> bool"
    using node at that by metis
  have "x \<in> set pruned \<longleftrightarrow> (\<exists>k<length hs. x = hs ! k \<and> k < length vs - unat d)" for x
    using exact pick [where x = x, OF old] by auto
  moreover have "x \<in> set (keys (g_nodes g')) \<longleftrightarrow> (\<exists>k<length hs. x = hs ! k \<and> \<not> k < length vs - unat d)" for x
  proof -
    have "x \<in> set (keys (g_nodes g')) \<longleftrightarrow> (\<exists>n. (x, n) \<in> set (g_nodes g'))" by force
    with exact pick [where x = x and Q = "\<lambda>n. \<not> (dn_status n = Confirmed \<and> unat d < unat (g_max_depth g) - unat (dn_depth n))"
        and P = "\<lambda>k. \<not> k < length vs - unat d"] old show ?thesis by simp
  qed
  ultimately have "set pruned = set (take (length vs - unat d) hs)"
    "set (keys (g_nodes g')) = set (drop (length vs - unat d) hs)"
    unfolding set_eq_iff take_drop_members by blast+
  with run p show ?thesis by auto
qed

text \<open>A mempool that holds a transaction the graph would take makes progress: one batch that is large
  enough empties the mempool and inserts at least one transaction, whatever the order of the batch and
  whatever else it holds.\<close>

theorem batch_makes_progress:
  assumes "mempool_ok C (rn_mempool n)" "(h, tx) \<in> set (mp_txs (rn_mempool n))" "acceptable C (node_dag n) tx"
    and "mempool_size n \<le> k" "process_mempool_batch C ck n k = (hashes, n')"
  shows "hashes \<noteq> [] \<and> mempool_size n' = 0"
proof -
  obtain batch mp where d: "drain_batch (rn_mempool n) k = (batch, mp)" by fastforce
  have "distinct (keys (mp_txs (rn_mempool n)))" "length (mp_txs (rn_mempool n)) \<le> k"
    using assms(1,4) by (simp_all add: mempool_ok_def mempool_size_def)
  note all = drain_everything [OF d this]
  obtain hs g' where i: "insert_batch C (ck_instant ck) (node_dag n) batch = (hs, g')" by fastforce
  have "tx \<in> set batch" using all assms(2) by force
  from batch_progress [OF i this assms(3)] all assms(5) d i show ?thesis
    by (auto simp: process_mempool_batch_def mempool_size_def)
qed

text \<open>After the loop of transfers (under the conditions on which the loop
  succeeds) the account cannot spend again: a transfer that costs more than what
  is left is refused with exactly the balance and the cost, and a transfer with any nonce but the next
  one is refused, whatever its amount and parents.\<close>

theorem chain_refusals:
  fixes vs :: "u64 list"
  assumes "crypto_ok C" "keypair_ok C kp" "a = from_public_key C (kp_public_key kp)" "to \<noteq> a"
    and "setup_dag_with_genesis C now0 ts0 a kp fund = (Inr h0, g0)"
    and "\<forall>v \<in> set vs. v \<noteq> 0 \<and> unat fund + unat v \<le> 2500000000000000000" "chain_cost vs \<le> unat fund"
    and "distinct (h0 # chain_hashes C ts kp to h0 1 vs)"
    and "send_chain (\<lambda>g h. g) C now ts kp to g0 h0 1 vs = (Inr h, g)"
  shows "(w \<noteq> 0 \<and> unat fund - chain_cost vs < unat w + 1000000 \<and> unat w + 1000000 < 2 ^ 64 \<longrightarrow>
      fst (dag_insert C now g (next_transfer C ts kp to w n prev))
        = Inl (InsufficientBalance (balance (g_state g) a) (w + 1000000))) \<and>
    (unat n \<noteq> length vs + 1 \<longrightarrow> (\<exists>e. fst (dag_insert C now g (next_transfer C ts kp to w n prev)) = Inl e))"
proof -
  let ?tx = "next_transfer C ts kp to w n prev"
  from funded_chain [OF assms(1-8), of "\<lambda>g h. g" now] assms(9) have
    left: "unat (balance (g_state g) a) = unat fund - chain_cost vs" and sent: "unat (nonce (g_state g) a) = length vs"
    and small: "length vs + 1 < 2 ^ 64"
    by (auto simp: chain_at_def)
  have tx: "tx_sender ?tx = a" "tx_amount ?tx = w" "tx_fee ?tx = base_fee RELYO_CONFIG" "tx_nonce ?tx = n"
    using assms(3) by (simp_all add: next_transfer_base)
  have "fst (dag_insert C now g ?tx) = Inl (InsufficientBalance (balance (g_state g) a) (w + 1000000))"
    if w: "w \<noteq> 0" "unat fund - chain_cost vs < unat w + 1000000" "unat w + 1000000 < 2 ^ 64"
  proof -
    have valid: "validate C ?tx = Inr ()"
      using base_transfer_valid [OF assms(1,2), of ts to w n] w(1) assms(3,4) by (simp add: next_transfer_base)
    have sum: "unat (w + 1000000) = unat w + 1000000" using w(3) by (simp add: unat_add_no_wrap)
    then have "checked_add w (base_fee RELYO_CONFIG) = Some (w + 1000000)"
      using w(3) by (simp add: checked_add_Some base_fee_num)
    moreover have "balance (g_state g) a < w + 1000000" using left w(2) sum by (simp add: word_less_unat)
    ultimately show ?thesis by (simp add: dag_insert_eq valid tx)
  qed
  moreover have "\<exists>e. fst (dag_insert C now g ?tx) = Inl e" if "unat n \<noteq> length vs + 1"
  proof -
    have "unat (nonce (g_state g) a + 1) = length vs + 1" using sent small by (simp add: unat_add_no_wrap)
    then have "\<not> acceptable C g ?tx" using that by (auto simp: acceptable_def tx)
    with dag_insert_result [of C g ?tx now] show ?thesis by auto
  qed
  ultimately show ?thesis by blast
qed

text \<open>What an account that has not acted yet sees after it has been paid.\<close>

lemma paid_view:
  assumes at: "chain_at a b fund g c" and ins: "dag_insert C now g tx = (Inr h, g')"
    and after: "chain_at a b fund g' c'" and fund: "fund < 2 ^ 64"
    and tx: "tx_sender tx = a" "tx_receiver tx = b" and ne: "b \<noteq> a" "to \<noteq> a" "to \<noteq> b"
    and fresh: "nonce (g_state g) b = 0" "balance (g_state g) to = 0"
      "\<And>m. \<not> has_key (committed_nonces (g_conflicts g)) (as_str b, m)"
  shows "chain_at b to fund g' (c'\<lparr>at_nonce := 0, at_left := at_got c', at_got := 0\<rparr>)"
proof -
  have acc: "acceptable C g tx" and g': "g' = accepted C now (lock_sender g tx) tx"
    using ins by (auto simp: dag_insert_Inr)
  have paid: "unat (tx_amount tx) + unat (tx_fee tx) < 2 ^ 64" "tx_amount tx + tx_fee tx \<le> balance (g_state g) (tx_sender tx)"
    using acc by (simp_all add: acceptable_def)
  have "ledger_total (g_state g) \<le> fund" using at by (simp add: chain_at_def)
  then have "balance_total (g_state g) < 2 ^ 64" using fund by (simp add: ledger_total_def)
  from ledger_accounts.payment(2) [OF this paid, of "tx_receiver tx" to] ne fresh(2) tx
  have "balance (g_state g') to = 0" by (simp add: g' pay_def unat_eq_0)
  moreover have "nonce (g_state g') b = 0"
    using ne fresh(1) tx by (simp add: g' pay_def ledger_accounts.payment_nonce)
  moreover have "\<not> has_key (committed_nonces (g_conflicts g')) (as_str b, m)" for m
    using fresh(3) ne(1) tx by (auto simp: g' nonce_key_def as_str_eq)
  ultimately show ?thesis using after by (simp add: chain_at_def)
qed

text \<open>Received funds can be spent at once: when the funded account pays a second one, a transfer of the
  second on top of that payment is accepted if it is covered by what was received, the
  fund plus the first amount is at most the supply cap and the three hashes are distinct; then the three
  balances are what the transfers and fees leave, the graph has three nodes and depth two, and only the
  last transfer is a tip.\<close>

theorem received_funds_spend:
  fixes v w :: u64
  assumes "crypto_ok C" "keypair_ok C kp" "keypair_ok C kp'"
    and "a = from_public_key C (kp_public_key kp)" "b = from_public_key C (kp_public_key kp')"
    and "b \<noteq> a" "to \<noteq> a" "to \<noteq> b" "setup_dag_with_genesis C now0 ts0 a kp fund = (Inr h0, g0)"
    and "v \<noteq> 0" "w \<noteq> 0" "unat v + 1000000 \<le> unat fund" "unat w + 1000000 \<le> unat v"
    and "unat fund + unat v \<le> 2500000000000000000"
    and "h1 = tx_hash C (next_transfer C ts kp b v 1 h0)" "h2 = tx_hash C (next_transfer C ts kp' to w 1 h1)"
    and "distinct [h0, h1, h2]"
  shows "\<exists>g1 g2. dag_insert C now g0 (next_transfer C ts kp b v 1 h0) = (Inr h1, g1) \<and>
    dag_insert C now g1 (next_transfer C ts kp' to w 1 h1) = (Inr h2, g2) \<and>
    unat (balance (g_state g1) a) = unat fund - (unat v + 1000000) \<and>
    unat (balance (g_state g2) b) = unat v - (unat w + 1000000) \<and> unat (balance (g_state g2) to) = unat w \<and>
    g_total_count g2 = 3 \<and> g_max_depth g2 = 2 \<and> (\<forall>x. has_tip (g_tips g2) x \<longleftrightarrow> x = h2)"
proof -
  let ?c = "\<lparr>at_prev = h0, at_hashes = {h0}, at_sent = 0, at_nonce = 0, at_left = unat fund, at_got = 0\<rparr>"
  let ?c1 = "chain_next h1 (unat v) 1000000 ?c"
  let ?c2 = "?c1\<lparr>at_nonce := 0, at_left := at_got ?c1, at_got := 0\<rparr>"
  let ?tx = "next_transfer C ts kp b v 1 h0"
  have at: "chain_at a b (unat fund) g0 ?c" using setup_parts [OF assms(9), of b] assms(6) by simp
  obtain g1 where ins1: "dag_insert C now g0 ?tx = (Inr h1, g1)" and at1: "chain_at a b (unat fund) g1 ?c1"
    using chain_step [OF assms(1,2) at [unfolded assms(4)], of v 1 h1 ts now] assms(4,6,10,12,14,15,17) by auto
  have fresh: "nonce (g_state g0) b = 0" "balance (g_state g0) to = 0"
    "\<not> has_key (committed_nonces (g_conflicts g0)) (as_str b, m)" for m
    using assms(7,9) setup_fresh [OF assms(9)] by simp_all
  have small: "unat fund < 2 ^ 64" using unat_u64_bound [of fund] by simp
  have fields: "tx_sender ?tx = a" "tx_receiver ?tx = b" by (simp_all add: next_transfer_base assms(4))
  have at2: "chain_at b to (unat fund) g1 ?c2"
    by (rule paid_view [OF at ins1 at1 small fields assms(6-8) fresh])
  obtain g2 where ins2: "dag_insert C now g1 (next_transfer C ts kp' to w 1 h1) = (Inr h2, g2)"
    and at3: "chain_at b to (unat fund) g2 (chain_next h2 (unat w) 1000000 ?c2)"
    using chain_step [OF assms(1,3) at2 [unfolded assms(5)], of w 1 h2 ts now] assms(5,8,11,13,14,16,17)
    by (auto simp: chain_next_def)
  have "unat (g_total_count g2) = unat (3 :: u64)" "unat (g_max_depth g2) = unat (2 :: u64)"
    using at3 by (simp_all add: chain_at_def chain_next_def)
  then have "g_total_count g2 = 3" "g_max_depth g2 = 2" by (simp_all only: word_unat_eq_iff)
  with ins1 ins2 at1 at3 show ?thesis by (auto simp: chain_at_def chain_next_def)
qed

section \<open>Witnesses\<close>

abbreviation demo_setup :: "transaction_hash result \<times> dag_graph" where
  "demo_setup \<equiv> setup_dag_with_genesis demo_crypto 0 0 demo_addr demo_kp 5000000"

abbreviation demo_hashes_list :: "transaction_hash list" where
  "demo_hashes_list \<equiv> demo_start_hash # chain_hashes demo_crypto 7 demo_kp (Address ''R'') demo_start_hash 1 [250, 7]"

lemma demo_setup_hash: "demo_setup = (Inr demo_start_hash, snd demo_setup)"
proof -
  obtain r g where s: "demo_setup = (r, g)" by fastforce
  with setup_parts [OF s] show ?thesis by (simp add: demo_start_hash_def)
qed

lemma demo_hashes_distinct: "distinct (zero_hash # demo_hashes_list)"
  by code_simp

lemma demo_chain_ok:
  "keypair_ok demo_crypto demo_kp" "Address ''R'' \<noteq> demo_addr" "chain_cost [250, 7] \<le> unat (5000000 :: u64)"
  "\<forall>v \<in> set [250, 7 :: u64]. v \<noteq> 0 \<and> unat (5000000 :: u64) + unat v \<le> 2500000000000000000"
  using demo_addr_not_R [symmetric] by (auto simp: demo_kp_def keypair_ok_intros)

theorem chain_ancestors_witness:
  "\<exists>g h. send_chain (\<lambda>g h. g) demo_crypto 9 7 demo_kp (Address ''R'') (snd demo_setup) demo_start_hash 1 [250, 7] = (Inr h, g) \<and>
     demo_start_hash \<in> set (get_ancestors g (demo_hashes_list ! 2) 5)"
proof -
  have small: "2 \<le> length [250, 7 :: u64]" "unat (5 :: u64) + 1 < 2 ^ 64" by simp_all
  from chain_ancestors [where now = 9, OF demo_crypto_ok demo_chain_ok(1) demo_addr_def demo_chain_ok(2) demo_setup_hash
      demo_chain_ok(4,3) refl demo_hashes_distinct small]
  obtain g h where run: "send_chain (\<lambda>g h. g) demo_crypto 9 7 demo_kp (Address ''R'') (snd demo_setup) demo_start_hash 1 [250, 7] = (Inr h, g)"
    and anc: "set (get_ancestors g (demo_hashes_list ! 2) 5) = {demo_hashes_list ! j | j. j < 2 \<and> 2 \<le> j + unat (5 :: u64)}"
    by (elim exE conjE)
  have "demo_start_hash \<in> set (get_ancestors g (demo_hashes_list ! 2) 5)"
    unfolding anc by (intro CollectI exI [of _ 0]) simp
  with run show ?thesis by blast
qed

theorem confirmed_chain_prunes_witness:
  "\<exists>g h. send_chain (\<lambda>g h. set_status g h Confirmed) demo_crypto 9 7 demo_kp (Address ''R'') (snd demo_setup) demo_start_hash 1 [250, 7]
       = (Inr h, g) \<and>
     set (fst (prune_confirmed g 1)) = {demo_start_hash}"
proof -
  from confirmed_chain_prunes [where now = 9 and d = 1, OF demo_crypto_ok demo_chain_ok(1) demo_addr_def demo_chain_ok(2)
      demo_setup_hash demo_chain_ok(4,3) refl demo_hashes_distinct]
  obtain g h where "send_chain (\<lambda>g h. set_status g h Confirmed) demo_crypto 9 7 demo_kp (Address ''R'') (snd demo_setup) demo_start_hash 1 [250, 7] = (Inr h, g)"
    "set (fst (prune_confirmed g 1)) = set (take (length [250, 7 :: u64] - unat (1 :: u64)) demo_hashes_list)"
    by (elim exE conjE)
  then show ?thesis by auto
qed

theorem batch_makes_progress_witness:
  "fst (process_mempool_batch demo_crypto demo_clock demo_node 5) \<noteq> []"
proof -
  obtain hs n' where p: "process_mempool_batch demo_crypto demo_clock demo_node 5 = (hs, n')" by fastforce
  have pool: "rn_mempool demo_node = snd (mempool_insert demo_crypto (mempool_new 4) demo_transfer)"
    by (simp add: demo_node_def)
  have "mempool_ok demo_crypto (rn_mempool demo_node)" "(tx_hash demo_crypto demo_transfer, demo_transfer) \<in> set (mp_txs (rn_mempool demo_node))"
    "mempool_size demo_node \<le> 5"
    using mempool_insert_ok [OF mempool_ok_new]
    by (simp_all add: pool mempool_size_def) (simp_all add: mempool_insert_def mempool_new_def Let_def)
  from batch_makes_progress [OF this(1,2) _ this(3) p] show ?thesis by (simp add: p demo_node_parts demo_acceptable)
qed

theorem chain_refusals_witness:
  "\<exists>e. fst (dag_insert demo_crypto 9
      (snd (send_chain (\<lambda>g h. g) demo_crypto 9 7 demo_kp (Address ''R'') (snd demo_setup) demo_start_hash 1 [250, 7]))
      (next_transfer demo_crypto 7 demo_kp (Address ''R'') 250 1 demo_start_hash)) = Inl e"
proof -
  have d: "distinct demo_hashes_list" using demo_hashes_distinct by simp
  from funded_chain [where now = 9 and post = "\<lambda>g h. g", OF demo_crypto_ok demo_chain_ok(1) demo_addr_def demo_chain_ok(2)
      demo_setup_hash demo_chain_ok(4,3) d]
  obtain g where run: "send_chain (\<lambda>g h. g) demo_crypto 9 7 demo_kp (Address ''R'') (snd demo_setup) demo_start_hash 1 [250, 7]
      = (Inr (last demo_hashes_list), g)" by blast
  from chain_refusals [where w = 250 and n = 1 and prev = demo_start_hash, OF demo_crypto_ok demo_chain_ok(1) demo_addr_def
      demo_chain_ok(2) demo_setup_hash demo_chain_ok(4,3) d run] run
  show ?thesis by simp
qed

theorem received_funds_spend_witness:
  "let tx = next_transfer demo_crypto 7 demo_kp addr2 2000000 1 demo_start_hash;
       tx' = next_transfer demo_crypto 7 kp2 (Address ''R'') 7 1 (tx_hash demo_crypto tx)
   in unat (balance (g_state (snd (dag_insert demo_crypto 9 (snd (dag_insert demo_crypto 9 (snd demo_setup) tx)) tx')))
        (Address ''R'')) = 7"
proof -
  let ?h = "tx_hash demo_crypto (next_transfer demo_crypto 7 demo_kp addr2 2000000 1 demo_start_hash)"
  have ne: "Address ''R'' \<noteq> addr2" by (simp add: addr2_def address_not_R)
  have d: "distinct [demo_start_hash, ?h, tx_hash demo_crypto (next_transfer demo_crypto 7 kp2 (Address ''R'') 7 1 ?h)]"
    by code_simp
  have v: "(2000000 :: u64) \<noteq> 0" "(7 :: u64) \<noteq> 0" "unat (2000000 :: u64) + 1000000 \<le> unat (5000000 :: u64)"
    "unat (7 :: u64) + 1000000 \<le> unat (2000000 :: u64)" "unat (5000000 :: u64) + unat (2000000 :: u64) \<le> 2500000000000000000"
    by simp_all
  from received_funds_spend [where now = 9, OF demo_crypto_ok kp2_ok(2,1) demo_addr_def addr2_def addr2_not_demo
      demo_chain_ok(2) ne demo_setup_hash v refl refl d]
  show ?thesis by (elim exE conjE) (simp add: Let_def)
qed

end
