(* ===== verification/TextForms.thy ===== *)
theory TextForms
  imports Voting NetConfig Transactions
begin

text \<open>
  How the core types are written and read: the hexadecimal forms of keys, signatures and hashes that
  serde uses (\<open>crypto.rs\<close>, \<open>transaction.rs\<close>), what printing shows, the conversions of other crates'
  errors (\<open>error.rs\<close>), and the records of \<open>types.rs\<close>, \<open>token.rs\<close> and \<open>messages.rs\<close> that are only
  stored or sent.
\<close>

section \<open>Hexadecimal text\<close>

text \<open>\<open>try_into\<close> of the decoded bytes into an array of \<open>n\<close> bytes.\<close>

definition hex_array :: "crypto \<Rightarrow> nat \<Rightarrow> string \<Rightarrow> string \<Rightarrow> string + bytes" where
  "hex_array C n msg s =
     (case hex_decode C s of Inl e \<Rightarrow> Inl e | Inr b \<Rightarrow> if length b = n then Inr b else Inl msg)"

definition public_key_serialize :: "crypto \<Rightarrow> public_key \<Rightarrow> string" where
  "public_key_serialize C k = hex_encode C (pk_bytes k)"

definition public_key_deserialize :: "crypto \<Rightarrow> string \<Rightarrow> string + public_key" where
  "public_key_deserialize C s = map_sum id PublicKey (hex_array C 32 ''invalid public key length'' s)"

definition signature_serialize :: "crypto \<Rightarrow> signature \<Rightarrow> string" where
  "signature_serialize C sig = hex_encode C (sig_bytes sig)"

definition signature_deserialize :: "crypto \<Rightarrow> string \<Rightarrow> string + signature" where
  "signature_deserialize C s = map_sum id Signature (hex_array C 64 ''invalid signature length'' s)"

definition hash_serialize :: "crypto \<Rightarrow> transaction_hash \<Rightarrow> string" where
  "hash_serialize C h = hex_encode C (hash_bytes h)"

definition hash_deserialize :: "crypto \<Rightarrow> string \<Rightarrow> string + transaction_hash" where
  "hash_deserialize C s = map_sum id TransactionHash (hex_array C 32 ''invalid hash length'' s)"

definition public_key_hex :: "crypto \<Rightarrow> public_key \<Rightarrow> string" where
  "public_key_hex C k = hex_encode C (pk_bytes k)"

definition signature_hex :: "crypto \<Rightarrow> signature \<Rightarrow> string" where
  "signature_hex C sig = hex_encode C (sig_bytes sig)"

section \<open>Printing\<close>

text \<open>\<open>Drop\<close> overwrites the seed; \<open>Debug\<close> never shows it.\<close>

definition secret_dropped :: "secret_key \<Rightarrow> secret_key" where
  "secret_dropped sk = SecretKey (replicate (length (sk_bytes sk)) 0)"

definition secret_debug :: "secret_key \<Rightarrow> string" where
  "secret_debug sk = ''SecretKey([REDACTED])''"

definition hash_display :: "crypto \<Rightarrow> transaction_hash \<Rightarrow> string" where
  "hash_display C h = to_hex C h"

definition address_display :: "address \<Rightarrow> string" where
  "address_display a = as_str a"

definition node_id_display :: "node_id \<Rightarrow> string" where
  "node_id_display i = (case i of NodeId s \<Rightarrow> s)"

section \<open>Conversions of errors\<close>

text \<open>Each takes the text of the other error.\<close>

definition error_of_dalek :: "string \<Rightarrow> relyo_error" where
  "error_of_dalek e = Crypto e"

definition error_of_bincode :: "string \<Rightarrow> relyo_error" where
  "error_of_bincode e = Serialization e"

definition error_of_json :: "string \<Rightarrow> relyo_error" where
  "error_of_json e = Serialization e"

definition error_of_hex :: "string \<Rightarrow> relyo_error" where
  "error_of_hex e = Serialization e"

definition error_of_io :: "string \<Rightarrow> relyo_error" where
  "error_of_io e = Storage e"

section \<open>Records\<close>

record 'f network_stats_record =
  ns_total_transactions :: u64
  ns_confirmed_transactions :: u64
  ns_pending_transactions :: u64
  ns_rejected_transactions :: u64
  ns_active_nodes :: u64
  ns_transactions_per_second :: 'f
  ns_average_confirmation_ms :: 'f
  ns_total_staked :: u64
  ns_total_circulating :: u64
  ns_mempool_size :: u64
  ns_dag_depth :: u64

record validator_info =
  vi_node_id :: node_id
  vi_stake_amount :: u64
  vi_is_active :: bool
  vi_slash_count :: u32
  vi_registered_at :: u64
  vi_last_heartbeat :: u64
  vi_accumulated_rewards :: u64

record peer_score =
  ps_reputation :: "64 word"
  ps_good_responses :: u64
  ps_bad_responses :: u64
  ps_invalid_messages :: u64
  ps_latency_ms_avg :: u64
  ps_bytes_served :: u64
  ps_banned_until :: "u64 option"

definition default_peer_score :: peer_score where
  "default_peer_score =
     \<lparr>ps_reputation = 100, ps_good_responses = 0, ps_bad_responses = 0, ps_invalid_messages = 0,
      ps_latency_ms_avg = 0, ps_bytes_served = 0, ps_banned_until = None\<rparr>"

text \<open>The wrapped counters, with the encoding of a \<open>u64\<close> as argument.\<close>

datatype atomic_u64 = AtomicU64Wrapper (atomic_value: u64)

definition atomic_serialize :: "(u64 \<Rightarrow> 's) \<Rightarrow> atomic_u64 \<Rightarrow> 's" where
  "atomic_serialize serialize_u64 a = serialize_u64 (atomic_value a)"

definition atomic_deserialize :: "('d \<Rightarrow> string + u64) \<Rightarrow> 'd \<Rightarrow> string + atomic_u64" where
  "atomic_deserialize deserialize_u64 d = map_sum id AtomicU64Wrapper (deserialize_u64 d)"

record bandwidth_stats =
  bw_bytes_sent :: atomic_u64
  bw_bytes_received :: atomic_u64
  bw_messages_sent :: atomic_u64
  bw_messages_received :: atomic_u64

record distribution =
  node_rewards_permille :: u16

definition RELYO_DISTRIBUTION :: distribution where
  "RELYO_DISTRIBUTION = \<lparr>node_rewards_permille = 1000\<rparr>"

record node_heartbeat =
  hb_node_id :: string
  hb_dag_size :: u64
  hb_mempool_size :: u64
  hb_peers :: u64
  hb_uptime_secs :: u64
  hb_version :: string

definition heartbeat :: "(node_heartbeat \<Rightarrow> string + bytes) \<Rightarrow> u64 \<Rightarrow> node_heartbeat \<Rightarrow> string + network_message" where
  "heartbeat serialize now info = map_sum id (message_new now Heartbeat) (serialize info)"

section \<open>Properties\<close>

lemma hex_array_Inr: "hex_array C n msg s = Inr b \<longleftrightarrow> hex_decode C s = Inr b \<and> length b = n"
  by (auto simp: hex_array_def split: sum.split)

lemma hex_array_encode:
  "crypto_ok C \<Longrightarrow> hex_array C n msg (hex_encode C b) = (if length b = n then Inr b else Inl msg)"
  by (simp add: hex_array_def crypto_okD)

text \<open>The text forms are typed: what is read from text is always a key or hash of 32 bytes or a
  signature of 64 bytes; each of them is read back from its own text, and the text of a key or
  hash is refused where a signature is expected, and conversely.\<close>

theorem hex_text_typed:
  assumes "crypto_ok C"
  shows "(public_key_deserialize C t = Inr k \<longrightarrow> length (pk_bytes k) = 32) \<and>
    (signature_deserialize C t = Inr g \<longrightarrow> length (sig_bytes g) = 64) \<and>
    (hash_deserialize C t = Inr h \<longrightarrow> length (hash_bytes h) = 32) \<and>
    (length (pk_bytes k) = 32 \<longrightarrow> public_key_deserialize C (public_key_serialize C k) = Inr k \<and>
      signature_deserialize C (public_key_serialize C k) = Inl ''invalid signature length'') \<and>
    (length (sig_bytes g) = 64 \<longrightarrow> signature_deserialize C (signature_serialize C g) = Inr g \<and>
      public_key_deserialize C (signature_serialize C g) = Inl ''invalid public key length'') \<and>
    (length (hash_bytes h) = 32 \<longrightarrow> hash_deserialize C (hash_serialize C h) = Inr h \<and>
      from_hex C (hash_display C h) = Inr h)"
proof -
  have typed: "(public_key_deserialize C t = Inr k \<longrightarrow> length (pk_bytes k) = 32) \<and>
    (signature_deserialize C t = Inr g \<longrightarrow> length (sig_bytes g) = 64) \<and>
    (hash_deserialize C t = Inr h \<longrightarrow> length (hash_bytes h) = 32)"
    by (auto simp: public_key_deserialize_def signature_deserialize_def hash_deserialize_def hex_array_def
        split: sum.splits if_splits)
  show ?thesis
    using typed
    by (auto simp: public_key_deserialize_def signature_deserialize_def hash_deserialize_def
        public_key_serialize_def signature_serialize_def hash_serialize_def hex_array_encode [OF assms]
        hash_display_def to_hex_def from_hex_def crypto_okD [OF assms])
qed

theorem hex_text_typed_witness:
  "hash_deserialize demo_crypto (hash_serialize demo_crypto (TransactionHash (replicate 32 7)))
     = Inr (TransactionHash (replicate 32 7))"
proof -
  have "length (hash_bytes (TransactionHash (replicate 32 7))) = 32" by simp
  with hex_text_typed [OF demo_crypto_ok, of _ _ _ "TransactionHash (replicate 32 7)"] show ?thesis by blast
qed

end
