(* ===== verification/Spec2Isabelle.thy ===== *)
theory Spec2Isabelle
  imports Merkle Traversal UtxoMeta Peers WalletMain Startup VoteForgery Linearize PoolRace ChainTests TextForms
begin

text \<open>
  A verification development for Relyo, a ledger written in Rust whose transactions form a directed
  acyclic graph.  Paths below are relative to \<open>src/crates/\<close>.

  \<^bold>\<open>The program.\<close>  A transaction names two earlier transactions as parents, is signed by its sender
  and carries the sender's next nonce.  A node inserts transactions into its graph, moves the
  funds in its ledger, tracks the tips (nodes without children) and the spent nonces, collects the
  votes of validators, and gossips transactions and votes with its peers.  Clients reach it over
  JSON-RPC; an explorer shows it read-only.

  \<^bold>\<open>Conventions.\<close>  Machine integers are words of their width; the release profile leaves overflow
  checks off, so \<open>+\<close>, \<open>-\<close> and \<open>*\<close> wrap, as on words; \<open>usize\<close> is \<open>nat\<close>.  A \<open>Result\<close> is a sum with the
  error on the left, a panic is \<open>None\<close>.  Every \<open>HashMap\<close> or \<open>DashMap\<close> is an association list with
  distinct keys, whose order stands for the unspecified iteration order.  State is passed
  explicitly; an operation is one step, except in the theories on concurrency below, which take the
  insertion into the graph and the operations of the mempool apart into single accesses to the
  shared maps.  What is not in the repository is an argument: cryptography (\<open>crypto\<close>), bincode
  (\<open>wire\<close>, \<open>codec\<close>), redb (\<open>redb\<close>, \<open>ban_db\<close>), Argon2 and AES-GCM (\<open>vault\<close>), the file system (\<open>files\<close>,
  \<open>disk\<close>), libp2p (\<open>net_lib\<close>), TOML and paths (\<open>cli_env\<close>), JSON values (\<open>json_ops\<close>), path matching of the
  HTTP router (\<open>route_match\<close>), the floating-point unit (\<open>float_ops\<close>), clocks and random draws.  The documented behaviour that a
  property needs of them is a named predicate (\<open>crypto_ok\<close>, \<open>wire_ok\<close>, \<open>redb_ok\<close>, \<open>codec_ok\<close>,
  \<open>db_ok\<close>, \<open>vault_ok\<close>, \<open>files_ok\<close>, \<open>disk_ok\<close>, \<open>net_ok\<close>, \<open>topics_ok\<close>, \<open>toml_ok\<close>, \<open>json_ok\<close>,
  \<open>matchit_ok\<close>), and each has a concrete instance on which the
  witnesses evaluate.

  \<^bold>\<open>Shared vocabulary.\<close>  \<open>Prelude\<close>: words, saturating and checked arithmetic, byte encodings, printing,
  association lists, sums over maps, the locale \<open>pool\<close>.  \<open>Errors\<close> (\<open>relyo-core/src/error.rs\<close>): the
  error enum and the \<open>?\<close> operator.

  \<^bold>\<open>Core types\<close> (\<open>relyo-core/src\<close>).
  \<open>Keys\<close> (\<open>crypto.rs\<close>): key pairs, signatures, derivation, batch verification.
  \<open>Addresses\<close> (\<open>address.rs\<close>): derivation, parsing, checks.
  \<open>Tokens\<close> (\<open>constants.rs\<close>, \<open>token.rs\<close>): constants, configuration, printing of amounts.
  \<open>Transactions\<close> (\<open>transaction.rs\<close>): the record, its signed bytes and hash, validation, the builder.
  Its lemmas say when signed bytes determine a transaction and exhibit two that share them.
  \<open>Merkle\<close> (\<open>merkle.rs\<close>): tree, proofs, verification; proofs are complete and binding.
  \<open>Utxo\<close> (\<open>primitives.rs\<close>): the UTXO transaction format, its structural checks, coinbase maturity and
  the integer emission schedule.  \<open>UtxoMeta\<close> (\<open>primitives.rs\<close>, \<open>token.rs\<close>): texts, metadata records, and
  the reading back of printed amounts.  \<open>TextForms\<close> (\<open>crypto.rs\<close>, \<open>transaction.rs\<close>, \<open>types.rs\<close>,
  \<open>error.rs\<close>): hexadecimal texts, printing, conversions of errors, records that are only stored.

  \<^bold>\<open>Ledger and graph\<close> (\<open>relyo-dag/src\<close>).
  \<open>Ledger\<close> (\<open>state.rs\<close>): balances, nonces, stakes, unbonding, state hash, snapshots; the locales
  \<open>u64_book\<close> and \<open>accounts\<close> state what a book of 64-bit balances owes to its users.
  \<open>Tips\<close> (\<open>tips.rs\<close>), \<open>Conflicts\<close> (\<open>conflict.rs\<close>): selection of parents, double spends.
  \<open>Graph\<close> (\<open>graph.rs\<close>): insertion and genesis, status, pruning; insertion is characterised exactly
  (\<open>acceptable\<close>, \<open>accepted\<close>).  \<open>GraphShape\<close>: the invariant \<open>graph_ok\<close> of nodes, parents, children,
  weights, depths and tips along all operations (\<open>grown\<close>), and no nonce accepted twice.
  \<open>Traversal\<close>: the two breadth-first searches against reachability by paths.
  \<open>Mempool\<close> (\<open>mempool.rs\<close>): the queue of pending transactions and its counters.
  \<open>Scenarios\<close> (\<open>tests/integration.rs\<close>): the tests' set-up and loop, for all keys and amounts.
  \<open>ChainTests\<close> (\<open>tests/integration.rs\<close>): the other test flows; the loop builds a line of nodes (\<open>line\<close>),
  whose ancestors, descendants and pruning are computed exactly.
  \<open>Persist\<close> (\<open>storage.rs\<close>): the persistent tables.  \<open>Checkpoints\<close> (\<open>checkpoint.rs\<close>): schedule, contents
  and storage of checkpoints.

  \<^bold>\<open>Concurrency.\<close>  \<open>Threads\<close>: \<open>DagGraph::insert\<close> as the program of a thread with one step per access to
  a shared map and per mutex operation; a thread alone is \<open>dag_insert\<close>, one thread per sender is
  between lock and unlock, every thread returns.  \<open>Linearize\<close>: any interleaving ends in the ledger of
  a sequence of atomic transfers (\<open>virtual_ledger\<close>), so nothing is spent twice.  \<open>Replicas\<close>: two nodes
  that accept the same transactions in different orders end with the same ledger; the locale
  \<open>commuting_log\<close> is the argument, interpreted for balances, nonces and the rest.  \<open>PoolRace\<close>:
  \<open>Mempool::insert\<close> and \<open>remove\<close> access by access, what they keep and the races they have.

  \<^bold>\<open>Consensus\<close> (\<open>relyo-consensus/src\<close>).  \<open>Voting\<close> (\<open>vote.rs\<close>, \<open>engine.rs\<close>): tallies, outcomes, the engine;
  runs of the engine record every counted vote, and finality is related to that record; the
  locale \<open>ballot_box\<close> is the contract of the tallies.  \<open>Economics\<close> (\<open>rewards.rs\<close>, \<open>types.rs\<close> and
  \<open>relyo-node/src/emission.rs\<close>): scores, rewards, fee market, exponential emission, for every
  rounding of the floating-point unit.

  \<^bold>\<open>Network and node\<close> (\<open>relyo-network/src\<close>, \<open>relyo-node/src\<close>).
  \<open>RateLimit\<close> (\<open>rate_limiter.rs\<close>): a sliding window per address.  \<open>Peers\<close> (\<open>peer_manager.rs\<close>): the peer
  table and its limits per network bucket.  \<open>NetConfig\<close> (\<open>config.rs\<close> of both crates, \<open>messages.rs\<close>).  \<open>SwarmNet\<close>
  (\<open>swarm.rs\<close>): the identity file, the settings of the swarm, topics.
  \<open>Node\<close> (\<open>node.rs\<close>, \<open>genesis.rs\<close>): a node with its graph, mempool, engine and limiter; a batch is a
  refinement of the abstract ledger \<open>abstract_ledger\<close> with exact balances (\<open>spec_enabled\<close>,
  \<open>spec_transfer\<close>, \<open>spec_run\<close>).  \<open>EventLoop\<close> (\<open>main.rs\<close>): one step per arm of the select loop, the
  states it reaches, and the locale \<open>node_invariant\<close>: what the node's operations keep, the loop
  keeps; it is interpreted for the supply and for the node that starts from the program's genesis.
  \<open>Gossip\<close> (\<open>main.rs\<close>): any number of nodes that run the loop over a network which loses, repeats, delays
  and reorders messages and to which anyone may add what the predicate \<open>ok\<close> allows (\<open>net_reaches\<close>);
  the locale \<open>graph_invariant\<close> lifts what one accepted transaction keeps of a graph to every node of
  the network, and is interpreted for authentic transactions, for accounts nobody spends from, for the
  ledger as a function of the graph, and for transactions that shut each other out.
  \<open>VoteForgery\<close>: the run of this network in which votes in the names of others finalize a transaction.
  \<open>Startup\<close> (\<open>main.rs\<close>, both \<open>build.rs\<close>): the table of banned peers over redb, the comparison of the
  hash of the constants, and the four commands, \<open>run\<close> up to the first state of the event loop.

  \<^bold>\<open>Clients\<close>.  \<open>Keystore\<close>, \<open>Wallets\<close> (\<open>relyo-wallet/src\<close>, \<open>relyo-sdk/src\<close>): the key file, the wallet, the
  client and the merchant.  \<open>Rpc\<close> (\<open>relyo-node/src/rpc.rs\<close>): envelope, dispatch, handlers.  \<open>WalletCli\<close>
  (\<open>relyo-wallet/src/main.rs\<close>): the commands that talk to a node, composed with the server;
  \<open>WalletMain\<close>: the whole program on top of its key file.  \<open>Explorer\<close> (\<open>relyo-explorer/src\<close>): the
  read-only views.  \<open>Servers\<close> (\<open>server.rs\<close>, \<open>rpc.rs\<close>, \<open>node.rs\<close>): routes of both HTTP servers, the WebSocket
  broadcast with its clients, the conditions under which a node starts them.

  \<^bold>\<open>How the parts meet.\<close>  \<open>wallet_send\<close> asks a node (\<open>handle_rpc\<close>) for nonce and tips and submits what it
  builds; \<open>submit_transaction\<close> checks rate and supply and calls \<open>dag_insert\<close>; accepted transactions go
  to the channel that \<open>outgoing_tx\<close> publishes, and arrive through \<open>handle_gossip\<close> at another node's
  \<open>submit_transaction\<close>; vote messages reach \<open>receive_vote\<close>, which sets the status of graph nodes.

  \<^bold>\<open>Bounds and termination.\<close>  Loops are structural recursions, or functions with a measure
  (\<open>double_until\<close>, \<open>build_levels\<close>, \<open>bfs\<close>, whose measure is the number of unvisited nodes).  Only the
  redraw of \<open>select_two\<close> takes a stream of draws: it returns as soon as a draw differs, which is what
  its property states.  Sums are compared with \<open>2 ^ 64\<close> where the code relies on no overflow: a
  ledger total below it is kept by insertions, batches, unstaking and every step of the event loop, but
  not by \<open>insert_genesis\<close> and \<open>credit\<close>, which add without a check of the supply.

  \<^bold>\<open>Not modelled.\<close>  Sockets and the protocols of libp2p (which carry what \<open>handle_gossip\<close> receives),
  argument parsing and logging, HTTP methods other than GET and POST and the CORS layer, the module
  declarations of the crates, and interleavings inside the
  operations other than \<open>DagGraph::insert\<close>, \<open>Mempool::insert\<close> and \<open>Mempool::remove\<close>.
\<close>

end
